(* ===== verification/Prelude.thy ===== *)
theory Prelude
  imports Main "HOL-Library.Word" "HOL-Library.Multiset"
begin

text \<open>
  What every component of the development shares.

  \<^item> \<open>outcome\<close>: what a call of a C++ or Win32 routine can do. It returns a value
    (\<open>Done\<close>), it does not return because a mutex it needs is held (\<open>Blocks\<close>), or the
    standard gives it no meaning (\<open>Undefined\<close>: a dangling pointer is read, \<open>front()\<close>
    of an empty container is taken, a mutex that is not held is unlocked).
  \<^item> \<open>fifo_queue\<close>: the contract of the three queues of Self-Study/Threading, and what a
    client that only knows the contract may rely on.
  \<^item> generic lemmas on lists, maps and sums that several components use.
\<close>

section \<open>Outcomes of a call\<close>

datatype 'r outcome = Done 'r | Blocks | Undefined

fun bind_outcome :: "'a outcome \<Rightarrow> ('a \<Rightarrow> 'b outcome) \<Rightarrow> 'b outcome" where
  "bind_outcome (Done x) f = f x"
| "bind_outcome Blocks f = Blocks"
| "bind_outcome Undefined f = Undefined"

lemma bind_outcome_Done [simp]:
  "bind_outcome m f = Done y \<longleftrightarrow> (\<exists>x. m = Done x \<and> f x = Done y)"
  by (cases m) auto

lemma bind_outcome_assoc:
  "bind_outcome (bind_outcome m f) g = bind_outcome m (\<lambda>x. bind_outcome (f x) g)"
  by (cases m) auto

lemma bind_outcome_return [simp]: "bind_outcome m Done = m"
  by (cases m) auto

section \<open>Errors as the left of a sum\<close>

fun bind_sum :: "'e + 'a \<Rightarrow> ('a \<Rightarrow> 'e + 'b) \<Rightarrow> 'e + 'b" where
  "bind_sum (Inl e) f = Inl e"
| "bind_sum (Inr x) f = f x"

lemma bind_sum_Inr [simp]:
  "bind_sum m f = Inr y \<longleftrightarrow> (\<exists>x. m = Inr x \<and> f x = Inr y)"
  by (cases m) auto

lemma bind_sum_assoc:
  "bind_sum (bind_sum m f) g = bind_sum m (\<lambda>x. bind_sum (f x) g)"
  by (cases m) auto

lemma bind_sum_return [simp]: "bind_sum m Inr = m"
  by (cases m) auto

section \<open>Counting in a list that is updated by index\<close>

definition count_if :: "('a \<Rightarrow> bool) \<Rightarrow> 'a list \<Rightarrow> nat" where
  "count_if P xs = length (filter P xs)"

lemma count_if_simps [simp]:
  "count_if P [] = 0"
  "count_if P (x # xs) = (if P x then Suc (count_if P xs) else count_if P xs)"
  by (simp_all add: count_if_def)

lemma sum_list_map_update:
  fixes f :: "'a \<Rightarrow> 'b :: cancel_comm_monoid_add"
  shows "i < length xs \<Longrightarrow>
    sum_list (map f (xs[i := x])) + f (xs ! i) = sum_list (map f xs) + f x"
proof (induction xs arbitrary: i)
  case (Cons y ys)
  show ?case
  proof (cases i)
    case 0
    then show ?thesis by (simp add: ac_simps)
  next
    case (Suc j)
    with Cons.prems Cons.IH [of j] show ?thesis by (simp add: add.assoc)
  qed
qed simp

lemma count_if_sum_list: "count_if P xs = sum_list (map (\<lambda>x. of_bool (P x)) xs)"
  by (induction xs) auto

lemma count_if_update:
  "i < length xs \<Longrightarrow>
   count_if P (xs[i := x]) + of_bool (P (xs ! i)) = count_if P xs + of_bool (P x)"
  unfolding count_if_sum_list by (rule sum_list_map_update)

lemma count_if_update_int:
  "i < length xs \<Longrightarrow>
   int (count_if P (xs[i := x])) = int (count_if P xs) + of_bool (P x) - of_bool (P (xs ! i))"
  using count_if_update [of i xs P x] by (auto simp: of_bool_def split: if_splits)

lemma count_if_zero_iff: "count_if P xs = 0 \<longleftrightarrow> (\<forall>x \<in> set xs. \<not> P x)"
  by (simp add: count_if_def filter_empty_conv)

lemma count_if_replicate: "count_if P (replicate n x) = (if P x then n else 0)"
  by (induction n) auto

lemma in_set_update: "y \<in> set (xs[i := x]) \<Longrightarrow> y = x \<or> y \<in> set xs"
  using set_update_subset_insert by fastforce

lemma sum_list_replicate_zero [simp]:
  "sum_list (replicate n (0 :: 'b :: monoid_add)) = 0"
  by (induction n) auto

section \<open>The contract of a FIFO queue\<close>

datatype 'a queue_op = Put 'a | Get

text \<open>
  A client runs a list of operations and collects what its calls of \<open>get\<close> delivered.
\<close>

fun run_queue ::
  "('a \<Rightarrow> 'q \<Rightarrow> 'q outcome) \<Rightarrow> ('q \<Rightarrow> ('a option \<times> 'q) outcome) \<Rightarrow>
     'a queue_op list \<Rightarrow> 'q \<Rightarrow> ('a list \<times> 'q) outcome" where
  "run_queue put get [] q = Done ([], q)"
| "run_queue put get (Put x # ops) q =
     bind_outcome (put x q) (\<lambda>q'. run_queue put get ops q')"
| "run_queue put get (Get # ops) q =
     bind_outcome (get q) (\<lambda>(r, q').
       bind_outcome (run_queue put get ops q') (\<lambda>(rs, q'').
         Done (case r of None \<Rightarrow> rs | Some x \<Rightarrow> x # rs, q'')))"

fun puts_of :: "'a queue_op list \<Rightarrow> 'a list" where
  "puts_of [] = []"
| "puts_of (Put x # ops) = x # puts_of ops"
| "puts_of (Get # ops) = puts_of ops"

locale fifo_queue =
  fixes items :: "'q \<Rightarrow> 'a list"
    and usable :: "'q \<Rightarrow> bool"
    and put :: "'a \<Rightarrow> 'q \<Rightarrow> 'q outcome"
    and get :: "'q \<Rightarrow> ('a option \<times> 'q) outcome"
  assumes put_law: "usable q \<Longrightarrow>
      \<exists>q'. put x q = Done q' \<and> usable q' \<and> items q' = items q @ [x]"
    and get_empty_law: "usable q \<Longrightarrow> items q = [] \<Longrightarrow>
      \<exists>q'. get q = Done (None, q') \<and> usable q' \<and> items q' = []"
    and get_law: "usable q \<Longrightarrow> items q = x # xs \<Longrightarrow>
      \<exists>q'. get q = Done (Some x, q') \<and> usable q' \<and> items q' = xs"
begin

lemma get_cases:
  assumes "usable q"
  obtains q' where "get q = Done (None, q')" "usable q'" "items q = []" "items q' = []"
  | x q' where "get q = Done (Some x, q')" "usable q'" "items q = x # items q'"
proof (cases "items q")
  case Nil
  with get_empty_law [OF assms] that(1) show thesis by blast
next
  case (Cons x xs)
  with get_law [OF assms] that(2) show thesis by metis
qed

text \<open>Nothing is lost, duplicated or reordered by any sequence of operations.\<close>

lemma run_fifo:
  assumes "usable q"
  shows "\<exists>rs q'. run_queue put get ops q = Done (rs, q') \<and> usable q' \<and>
    rs @ items q' = items q @ puts_of ops"
  using assms
proof (induction ops arbitrary: q)
  case Nil
  then show ?case by simp
next
  case (Cons a ops)
  show ?case
  proof (cases a)
    case (Put x)
    obtain q1 where q1: "put x q = Done q1" "usable q1" "items q1 = items q @ [x]"
      using put_law [OF Cons.prems] by blast
    with Cons.IH [of q1] Put show ?thesis by auto
  next
    case Get
    from Cons.prems show ?thesis
    proof (cases rule: get_cases)
      case (1 q1)
      with Cons.IH [of q1] Get show ?thesis by auto
    next
      case (2 x q1)
      with Cons.IH [of q1] Get show ?thesis by force
    qed
  qed
qed

end

end
