(* ===== verification/Locked_Queue.thy ===== *)
theory Locked_Queue
  imports Prelude
begin

text \<open>
  Self-Study/Threading/LockedQueue.h: a \<open>std::deque\<close> behind a \<open>std::mutex\<close>. The
  state is whether the mutex is held, the deque front first, and the cancellation flag.
  An operation that takes the mutex while it is held does not return (\<open>Blocks\<close>);
  \<open>front()\<close> and \<open>pop_front()\<close> of an empty deque, and \<open>unlock()\<close> of a mutex that
  is not held, are \<open>Undefined\<close>.
\<close>

record 'a locked_queue =
  lq_locked :: bool
  lq_queue :: "'a list"
  lq_canceled :: bool

definition lq_new :: "'a locked_queue" where
  "lq_new = \<lparr>lq_locked = False, lq_queue = [], lq_canceled = False\<rparr>"

section \<open>The mutex\<close>

definition lq_lock :: "'a locked_queue \<Rightarrow> 'a locked_queue outcome" where
  "lq_lock q = (if lq_locked q then Blocks else Done (q\<lparr>lq_locked := True\<rparr>))"

definition lq_unlock :: "'a locked_queue \<Rightarrow> 'a locked_queue outcome" where
  "lq_unlock q = (if lq_locked q then Done (q\<lparr>lq_locked := False\<rparr>) else Undefined)"

text \<open>
  \<open>std::lock_guard\<close>: the constructor locks, the destructor unlocks on every path out
  of the block.
\<close>

definition lq_guarded ::
  "('a locked_queue \<Rightarrow> ('r \<times> 'a locked_queue) outcome) \<Rightarrow>
     'a locked_queue \<Rightarrow> ('r \<times> 'a locked_queue) outcome" where
  "lq_guarded body q =
     bind_outcome (lq_lock q) (\<lambda>q1.
       bind_outcome (body q1) (\<lambda>(r, q2).
         bind_outcome (lq_unlock q2) (\<lambda>q3. Done (r, q3))))"

section \<open>The operations\<close>

definition lq_add :: "'a \<Rightarrow> 'a locked_queue \<Rightarrow> 'a locked_queue outcome" where
  "lq_add item q =
     bind_outcome (lq_lock q) (\<lambda>q1.
       lq_unlock (q1\<lparr>lq_queue := lq_queue q1 @ [item]\<rparr>))"

definition lq_readd :: "'a list \<Rightarrow> 'a locked_queue \<Rightarrow> 'a locked_queue outcome" where
  "lq_readd its q =
     bind_outcome (lq_guarded (\<lambda>q1. Done ((), q1\<lparr>lq_queue := its @ lq_queue q1\<rparr>)) q)
       (\<lambda>(_, q2). Done q2)"

text \<open>
  \<open>next(result)\<close>: \<open>None\<close> is the answer false, with \<open>result\<close> not assigned;
  \<open>Some x\<close> is true with \<open>x\<close> in \<open>result\<close>.
\<close>

definition lq_next :: "'a locked_queue \<Rightarrow> ('a option \<times> 'a locked_queue) outcome" where
  "lq_next = lq_guarded (\<lambda>q1.
     case lq_queue q1 of
       [] \<Rightarrow> Done (None, q1)
     | x # xs \<Rightarrow> Done (Some x, q1\<lparr>lq_queue := xs\<rparr>))"

text \<open>
  \<open>next(result, check)\<close>: \<open>check.Process(result)\<close> gets \<open>result\<close> by reference, so
  it may change it and its own state \<open>'c\<close>. The answer is (returned flag, value
  assigned to \<open>result\<close> if any, checker): the copy of the front is assigned also when
  the check says no.
\<close>

definition lq_next_checked ::
  "('c \<Rightarrow> 'a \<Rightarrow> bool \<times> 'a \<times> 'c) \<Rightarrow> 'c \<Rightarrow> 'a locked_queue \<Rightarrow>
     ((bool \<times> 'a option \<times> 'c) \<times> 'a locked_queue) outcome" where
  "lq_next_checked process check = lq_guarded (\<lambda>q1.
     case lq_queue q1 of
       [] \<Rightarrow> Done ((False, None, check), q1)
     | x # xs \<Rightarrow>
         (case process check x of (ok, x', check') \<Rightarrow>
            if \<not> ok then Done ((False, Some x', check'), q1)
            else Done ((True, Some x', check'), q1\<lparr>lq_queue := xs\<rparr>)))"

text \<open>
  \<open>peek(autoUnlock)\<close> returns with the mutex still held unless \<open>autoUnlock\<close>.
\<close>

definition lq_peek :: "bool \<Rightarrow> 'a locked_queue \<Rightarrow> ('a \<times> 'a locked_queue) outcome" where
  "lq_peek autoUnlock q =
     bind_outcome (lq_lock q) (\<lambda>q1.
       case lq_queue q1 of
         [] \<Rightarrow> Undefined
       | x # xs \<Rightarrow>
           if autoUnlock then bind_outcome (lq_unlock q1) (\<lambda>q2. Done (x, q2))
           else Done (x, q1))"

definition lq_cancel :: "'a locked_queue \<Rightarrow> 'a locked_queue outcome" where
  "lq_cancel q =
     bind_outcome (lq_guarded (\<lambda>q1. Done ((), q1\<lparr>lq_canceled := True\<rparr>)) q)
       (\<lambda>(_, q2). Done q2)"

definition lq_cancelled :: "'a locked_queue \<Rightarrow> (bool \<times> 'a locked_queue) outcome" where
  "lq_cancelled = lq_guarded (\<lambda>q1. Done (lq_canceled q1, q1))"

definition lq_pop_front :: "'a locked_queue \<Rightarrow> 'a locked_queue outcome" where
  "lq_pop_front q =
     bind_outcome
       (lq_guarded (\<lambda>q1.
          case lq_queue q1 of
            [] \<Rightarrow> Undefined
          | x # xs \<Rightarrow> Done ((), q1\<lparr>lq_queue := xs\<rparr>)) q)
       (\<lambda>(_, q2). Done q2)"

definition lq_empty :: "'a locked_queue \<Rightarrow> (bool \<times> 'a locked_queue) outcome" where
  "lq_empty = lq_guarded (\<lambda>q1. Done (lq_queue q1 = [], q1))"

lemmas lq_defs =
  lq_lock_def lq_unlock_def lq_guarded_def lq_add_def lq_readd_def lq_next_def
  lq_next_checked_def lq_peek_def lq_cancel_def lq_cancelled_def lq_pop_front_def lq_empty_def

section \<open>The FIFO contract\<close>

interpretation lq: fifo_queue lq_queue "\<lambda>q. \<not> lq_locked q" lq_add lq_next
  by unfold_locales (auto simp: lq_defs)

text \<open>
  C27. Any sequence of \<open>add\<close> and \<open>next\<close> calls on a \<open>LockedQueue\<close> whose mutex is
  free runs to the end without blocking, leaves the mutex free, and delivers the items
  first in, first out: what was delivered followed by what is left is what was there
  followed by what was added.
\<close>

theorem locked_queue_fifo:
  assumes "\<not> lq_locked q"
  shows "\<exists>rs q'. run_queue lq_add lq_next ops q = Done (rs, q') \<and> \<not> lq_locked q' \<and>
    rs @ lq_queue q' = lq_queue q @ puts_of ops"
  using assms by (rule lq.run_fifo)

theorem locked_queue_fifo_witness:
  "\<exists>rs q'. run_queue lq_add lq_next [Put (1::nat), Put 2, Get] lq_new = Done (rs, q') \<and>
     \<not> lq_locked q' \<and> rs @ lq_queue q' = [1, 2]"
  using locked_queue_fifo [of lq_new "[Put (1::nat), Put 2, Get]"] by (simp add: lq_new_def)

end
