(* ===== verification/Producer_Consumer_Queue.thy ===== *)
theory Producer_Consumer_Queue
  imports Prelude
begin

text \<open>
  Self-Study/Threading/ProducerConsumerQueue.h: a \<open>std::queue\<close>, a mutex, a condition
  variable and a shutdown flag. The first part gives every method as the function its
  critical section computes (the mutex is taken and released inside each method, so a
  method is one atomic step). The second part is the interleaving semantics: any number of
  threads, each outside the queue, asleep in \<open>_condition.wait\<close>, or woken and on its way
  to re-take the mutex.
\<close>

section \<open>The methods\<close>

record 'a pcq =
  pc_queue :: "'a list"
  pc_shutdown :: bool

definition pcq_new :: "'a pcq" where
  "pcq_new = \<lparr>pc_queue = [], pc_shutdown = False\<rparr>"

definition pcq_push :: "'a \<Rightarrow> 'a pcq \<Rightarrow> 'a pcq" where
  "pcq_push value q = q\<lparr>pc_queue := pc_queue q @ [value]\<rparr>"

definition pcq_empty :: "'a pcq \<Rightarrow> bool" where
  "pcq_empty q = (pc_queue q = [])"

definition pcq_size :: "'a pcq \<Rightarrow> nat" where
  "pcq_size q = length (pc_queue q)"

text \<open>\<open>Pop\<close>: \<open>None\<close> is the answer false, \<open>Some x\<close> is true with \<open>x\<close> in \<open>value\<close>.\<close>

definition pcq_pop :: "'a pcq \<Rightarrow> 'a option \<times> 'a pcq" where
  "pcq_pop q =
     (if pc_queue q = [] \<or> pc_shutdown q then (None, q)
      else (Some (hd (pc_queue q)), q\<lparr>pc_queue := tl (pc_queue q)\<rparr>))"

text \<open>
  One pass of \<open>WaitAndPop\<close> with the mutex held: the loop condition holds and the thread
  goes to sleep (\<open>Blocks\<close>), or it returns, with or without having assigned \<open>value\<close>.
\<close>

definition pcq_wait_and_pop :: "'a pcq \<Rightarrow> ('a option \<times> 'a pcq) outcome" where
  "pcq_wait_and_pop q =
     (if pc_queue q = [] \<and> \<not> pc_shutdown q then Blocks
      else if pc_queue q = [] \<or> pc_shutdown q then Done (None, q)
      else Done (Some (hd (pc_queue q)), q\<lparr>pc_queue := tl (pc_queue q)\<rparr>))"

text \<open>
  \<open>Cancel\<close>: the loop pops the front until the queue is empty, and deletes it when
  \<open>T\<close> is a pointer type (\<open>is_ptr\<close>, the \<open>if constexpr\<close>); the answer is what was
  deleted, in order.
\<close>

fun pcq_drain :: "bool \<Rightarrow> 'a list \<Rightarrow> 'a list \<Rightarrow> 'a list \<times> 'a list" where
  "pcq_drain is_ptr [] deleted = ([], deleted)"
| "pcq_drain is_ptr (x # xs) deleted =
     pcq_drain is_ptr xs (if is_ptr then deleted @ [x] else deleted)"

definition pcq_cancel :: "bool \<Rightarrow> 'a pcq \<Rightarrow> 'a list \<times> 'a pcq" where
  "pcq_cancel is_ptr q =
     (case pcq_drain is_ptr (pc_queue q) [] of (rest, deleted) \<Rightarrow>
        (deleted, q\<lparr>pc_queue := rest, pc_shutdown := True\<rparr>))"

lemma pcq_drain_eq: "pcq_drain is_ptr xs ds = ([], ds @ (if is_ptr then xs else []))"
  by (induction is_ptr xs ds rule: pcq_drain.induct) auto

lemma pcq_cancel_eq:
  "pcq_cancel is_ptr q =
     (if is_ptr then pc_queue q else [], q\<lparr>pc_queue := [], pc_shutdown := True\<rparr>)"
  by (simp add: pcq_cancel_def pcq_drain_eq)

section \<open>The FIFO contract\<close>

text \<open>Before \<open>Cancel\<close>, \<open>Push\<close> and \<open>Pop\<close> keep the contract of a FIFO queue.\<close>

interpretation pcq: fifo_queue pc_queue "\<lambda>q. \<not> pc_shutdown q"
  "\<lambda>x q. Done (pcq_push x q)" "\<lambda>q. Done (pcq_pop q)"
  by unfold_locales (auto simp: pcq_push_def pcq_pop_def)

section \<open>Threads on the condition variable\<close>

text \<open>
  \<open>Outside\<close> covers a thread that is not in \<open>WaitAndPop\<close>; \<open>Asleep\<close> one inside
  \<open>_condition.wait(lock)\<close>, mutex released; \<open>Woken\<close> one that was notified (or woke up
  spuriously) and waits for the mutex to test the loop condition again.
\<close>

datatype waiter = Outside | Asleep | Woken

record 'a pcq_sys =
  sys_q :: "'a pcq"
  waiters :: "nat \<Rightarrow> waiter"
  pushed :: "'a list"
  taken :: "'a list"

definition pcq_init :: "'a pcq_sys" where
  "pcq_init = \<lparr>sys_q = pcq_new, waiters = (\<lambda>_. Outside), pushed = [], taken = []\<rparr>"

abbreviation asleep :: "'a pcq_sys \<Rightarrow> nat set" where
  "asleep s \<equiv> {i. waiters s i = Asleep}"

abbreviation woken :: "'a pcq_sys \<Rightarrow> nat set" where
  "woken s \<equiv> {i. waiters s i = Woken}"

definition wake_all :: "(nat \<Rightarrow> waiter) \<Rightarrow> nat \<Rightarrow> waiter" where
  "wake_all w i = (if w i = Asleep then Woken else w i)"

text \<open>
  One rule per critical section. \<open>notify_one\<close> wakes one sleeping thread if there is one
  (\<open>push_wake\<close>) and does nothing otherwise (\<open>push_quiet\<close>). A thread at the loop test is
  one that has just called \<open>WaitAndPop\<close> (\<open>Outside\<close>) or was woken (\<open>Woken\<close>).
\<close>

inductive pcq_step :: "'a pcq_sys \<Rightarrow> 'a pcq_sys \<Rightarrow> bool" where
  push_wake: "waiters s i = Asleep \<Longrightarrow>
     pcq_step s (s\<lparr>sys_q := pcq_push x (sys_q s), waiters := (waiters s)(i := Woken),
                    pushed := pushed s @ [x]\<rparr>)"
| push_quiet: "asleep s = {} \<Longrightarrow>
     pcq_step s (s\<lparr>sys_q := pcq_push x (sys_q s), pushed := pushed s @ [x]\<rparr>)"
| pop: "pcq_pop (sys_q s) = (Some x, q') \<Longrightarrow>
     pcq_step s (s\<lparr>sys_q := q', taken := taken s @ [x]\<rparr>)"
| wait_sleep: "waiters s i \<noteq> Asleep \<Longrightarrow> pcq_wait_and_pop (sys_q s) = Blocks \<Longrightarrow>
     pcq_step s (s\<lparr>waiters := (waiters s)(i := Asleep)\<rparr>)"
| wait_take: "waiters s i \<noteq> Asleep \<Longrightarrow> pcq_wait_and_pop (sys_q s) = Done (Some x, q') \<Longrightarrow>
     pcq_step s (s\<lparr>sys_q := q', waiters := (waiters s)(i := Outside), taken := taken s @ [x]\<rparr>)"
| wait_give_up: "waiters s i \<noteq> Asleep \<Longrightarrow> pcq_wait_and_pop (sys_q s) = Done (None, q') \<Longrightarrow>
     pcq_step s (s\<lparr>sys_q := q', waiters := (waiters s)(i := Outside)\<rparr>)"
| spurious: "waiters s i = Asleep \<Longrightarrow>
     pcq_step s (s\<lparr>waiters := (waiters s)(i := Woken)\<rparr>)"
| cancel: "pcq_cancel is_ptr (sys_q s) = (deleted, q') \<Longrightarrow>
     pcq_step s (s\<lparr>sys_q := q', waiters := wake_all (waiters s)\<rparr>)"

inductive pcq_reachable :: "'a pcq_sys \<Rightarrow> bool" where
  start: "pcq_reachable pcq_init"
| step: "pcq_reachable s \<Longrightarrow> pcq_step s t \<Longrightarrow> pcq_reachable t"

section \<open>No wake-up is lost\<close>

text \<open>
  The invariant behind the condition variable: only finitely many threads are inside
  \<open>WaitAndPop\<close>, nobody sleeps after the shutdown, and while somebody sleeps there are at
  least as many woken threads as items.
\<close>

definition wake_inv :: "'a pcq_sys \<Rightarrow> bool" where
  "wake_inv s \<longleftrightarrow>
     finite {i. waiters s i \<noteq> Outside} \<and>
     (pc_shutdown (sys_q s) \<longrightarrow> asleep s = {}) \<and>
     (asleep s \<noteq> {} \<longrightarrow> length (pc_queue (sys_q s)) \<le> card (woken s))"

lemma finite_woken: "finite {i. w i \<noteq> Outside} \<Longrightarrow> finite {i. w i = Woken}"
  by (rule finite_subset [rotated]) auto

lemma finite_inside_upd: "finite {i. w i \<noteq> Outside} \<Longrightarrow> finite {i. (w(j := v)) i \<noteq> Outside}"
  by (rule finite_subset [of _ "insert j {i. w i \<noteq> Outside}"]) (auto split: if_splits)

lemma card_woken_wake:
  assumes "finite {i. w i \<noteq> Outside}" "w j = Asleep"
  shows "card {i. (w(j := Woken)) i = Woken} = Suc (card {i. w i = Woken})"
proof -
  have "{i. (w(j := Woken)) i = Woken} = insert j {i. w i = Woken}" by auto
  then show ?thesis using assms by (simp add: finite_woken)
qed

lemma card_woken_leave:
  assumes "finite {i. w i \<noteq> Outside}" "w j \<noteq> Asleep"
  shows "card {i. w i = Woken} \<le> Suc (card {i. (w(j := Outside)) i = Woken})"
proof -
  have "{i. w i = Woken} \<subseteq> insert j {i. (w(j := Outside)) i = Woken}" by auto
  moreover have "finite {i. (w(j := Outside)) i = Woken}"
    using assms(1) by (intro finite_woken finite_inside_upd)
  ultimately have "card {i. w i = Woken} \<le> card (insert j {i. (w(j := Outside)) i = Woken})"
    by (intro card_mono) auto
  also have "\<dots> \<le> Suc (card {i. (w(j := Outside)) i = Woken})"
    by (rule card_insert_le_m1) simp_all
  finally show ?thesis .
qed

lemma asleep_upd_awake: "v \<noteq> Asleep \<Longrightarrow> {i. (w(j := v)) i = Asleep} = {i. w i = Asleep} - {j}"
  by auto

lemma wake_inv_init: "wake_inv pcq_init"
  by (simp add: wake_inv_def pcq_init_def)

lemmas pcq_op_defs =
  pcq_push_def pcq_pop_def pcq_wait_and_pop_def pcq_cancel_eq wake_all_def

lemma pcq_step_wake_inv: "pcq_step s t \<Longrightarrow> wake_inv s \<Longrightarrow> wake_inv t"
proof (induction rule: pcq_step.induct)
  case (push_wake s i x)
  let ?w = "(waiters s)(i := Woken)"
  have f: "finite {k. waiters s k \<noteq> Outside}" and "asleep s \<noteq> {}"
    and sd: "pc_shutdown (sys_q s) \<longrightarrow> asleep s = {}"
    using push_wake by (auto simp: wake_inv_def)
  then have len: "length (pc_queue (sys_q s)) \<le> card (woken s)"
    using push_wake by (simp add: wake_inv_def)
  from f have "finite {k. ?w k \<noteq> Outside}" by (rule finite_inside_upd)
  moreover have "card {k. ?w k = Woken} = Suc (card (woken s))"
    using f push_wake(1) by (rule card_woken_wake)
  moreover have "pc_shutdown (sys_q s) \<longrightarrow> {k. ?w k = Asleep} = {}"
    using sd push_wake(1) by auto
  ultimately show ?case using len by (simp add: wake_inv_def pcq_push_def)
next
  case (push_quiet s x)
  then show ?case by (simp add: wake_inv_def pcq_push_def)
next
  case (pop s x q')
  then show ?case by (auto simp: wake_inv_def pcq_pop_def split: if_splits)
next
  case (wait_sleep s i)
  then have "finite {k. ((waiters s)(i := Asleep)) k \<noteq> Outside}"
    by (intro finite_inside_upd) (simp add: wake_inv_def)
  with wait_sleep(2) show ?case
    by (simp add: wake_inv_def pcq_wait_and_pop_def split: if_splits)
next
  case (wait_take s i x q')
  let ?w = "(waiters s)(i := Outside)"
  have q: "\<not> pc_shutdown (sys_q s)" "pc_queue (sys_q s) \<noteq> []"
    "q' = (sys_q s)\<lparr>pc_queue := tl (pc_queue (sys_q s))\<rparr>"
    using wait_take(2) by (auto simp: pcq_wait_and_pop_def split: if_splits)
  have f: "finite {k. waiters s k \<noteq> Outside}" using wait_take(3) by (simp add: wake_inv_def)
  have a: "{k. ?w k = Asleep} = asleep s" using wait_take(1) by auto
  have "card (woken s) \<le> Suc (card {k. ?w k = Woken})"
    using f wait_take(1) by (rule card_woken_leave)
  moreover have "finite {k. ?w k \<noteq> Outside}" using f by (rule finite_inside_upd)
  ultimately show ?case using wait_take(3) q a
    by (auto simp: wake_inv_def simp del: fun_upd_apply)
next
  case (wait_give_up s i q')
  then have "asleep s = {}" "q' = sys_q s"
    by (auto simp: wake_inv_def pcq_wait_and_pop_def split: if_splits)
  moreover from this wait_give_up(1) have "{k. ((waiters s)(i := Outside)) k = Asleep} = {}"
    by auto
  moreover have "finite {k. ((waiters s)(i := Outside)) k \<noteq> Outside}"
    using wait_give_up(3) by (intro finite_inside_upd) (simp add: wake_inv_def)
  ultimately show ?case using wait_give_up(3)
    by (auto simp: wake_inv_def simp del: fun_upd_apply)
next
  case (spurious s i)
  let ?w = "(waiters s)(i := Woken)"
  have f: "finite {k. waiters s k \<noteq> Outside}" and "asleep s \<noteq> {}"
    using spurious by (auto simp: wake_inv_def)
  then have "length (pc_queue (sys_q s)) \<le> card (woken s)"
    using spurious by (simp add: wake_inv_def)
  moreover have "card {k. ?w k = Woken} = Suc (card (woken s))"
    using f spurious(1) by (rule card_woken_wake)
  moreover have "finite {k. ?w k \<noteq> Outside}" using f by (rule finite_inside_upd)
  ultimately show ?case using spurious
    by (auto simp: wake_inv_def simp del: fun_upd_apply)
next
  case (cancel is_ptr s deleted q')
  then have "{k. wake_all (waiters s) k \<noteq> Outside} = {k. waiters s k \<noteq> Outside}"
    "{k. wake_all (waiters s) k = Asleep} = {}"
    by (auto simp: wake_all_def)
  then show ?case using cancel by (auto simp: wake_inv_def pcq_cancel_eq)
qed

lemma pcq_reachable_wake_inv: "pcq_reachable s \<Longrightarrow> wake_inv s"
  by (induction rule: pcq_reachable.induct) (auto intro: wake_inv_init pcq_step_wake_inv)

text \<open>
  C11. The condition variable of \<open>ProducerConsumerQueue\<close> loses no wake-up: in every state
  that any interleaving of threads can reach, if a thread sleeps in \<open>WaitAndPop\<close> while the
  queue holds items, there are at least as many woken threads as items (so each item has a
  thread on its way to it), and after \<open>Cancel\<close> no thread sleeps.
\<close>

theorem pcq_no_lost_wakeup:
  assumes "pcq_reachable s" and "waiters s i = Asleep"
  shows "\<not> pc_shutdown (sys_q s) \<and> length (pc_queue (sys_q s)) \<le> card (woken s) \<and>
    (pc_queue (sys_q s) \<noteq> [] \<longrightarrow> (\<exists>j. waiters s j = Woken))"
proof -
  have inv: "wake_inv s" using assms(1) by (rule pcq_reachable_wake_inv)
  have "asleep s \<noteq> {}" using assms(2) by auto
  with inv have le: "length (pc_queue (sys_q s)) \<le> card (woken s)"
    and sd: "\<not> pc_shutdown (sys_q s)" by (auto simp: wake_inv_def)
  have "\<exists>j. waiters s j = Woken" if "pc_queue (sys_q s) \<noteq> []"
  proof -
    have "card (woken s) > 0" using le that by (cases "pc_queue (sys_q s)") auto
    then have "woken s \<noteq> {}" by (metis card.empty less_irrefl)
    then show ?thesis by auto
  qed
  with le sd show ?thesis by blast
qed

text \<open>
  A run for the witness: thread 0 and thread 1 go to sleep on the empty queue, then a
  \<open>Push\<close> wakes thread 0.
\<close>

definition pcq_demo :: "nat pcq_sys" where
  "pcq_demo = \<lparr>sys_q = \<lparr>pc_queue = [7], pc_shutdown = False\<rparr>,
     waiters = ((\<lambda>_. Outside)(0 := Woken))(1 := Asleep), pushed = [7], taken = []\<rparr>"

lemma pcq_demo_reachable: "pcq_reachable pcq_demo"
proof -
  let ?s1 = "(pcq_init :: nat pcq_sys)\<lparr>waiters := (waiters (pcq_init :: nat pcq_sys))(0 := Asleep)\<rparr>"
  let ?s2 = "?s1\<lparr>waiters := (waiters ?s1)(1 := Asleep)\<rparr>"
  let ?s3 = "?s2\<lparr>sys_q := pcq_push 7 (sys_q ?s2), waiters := (waiters ?s2)(0 := Woken),
    pushed := pushed ?s2 @ [7]\<rparr>"
  have "pcq_step pcq_init ?s1"
    by (rule pcq_step.wait_sleep) (simp_all add: pcq_init_def pcq_new_def pcq_wait_and_pop_def)
  then have "pcq_reachable ?s1" by (rule pcq_reachable.step [OF pcq_reachable.start])
  moreover have "pcq_step ?s1 ?s2"
    by (rule pcq_step.wait_sleep) (simp_all add: pcq_init_def pcq_new_def pcq_wait_and_pop_def)
  ultimately have "pcq_reachable ?s2" by (rule pcq_reachable.step)
  moreover have "pcq_step ?s2 ?s3"
    by (rule pcq_step.push_wake) (simp add: pcq_init_def)
  ultimately have "pcq_reachable ?s3" by (rule pcq_reachable.step)
  moreover have "?s3 = pcq_demo"
    by (auto simp: pcq_demo_def pcq_init_def pcq_new_def pcq_push_def)
  ultimately show ?thesis by simp
qed

theorem pcq_no_lost_wakeup_witness:
  "pcq_reachable pcq_demo \<and> waiters pcq_demo 1 = Asleep \<and>
    \<not> pc_shutdown (sys_q pcq_demo) \<and> length (pc_queue (sys_q pcq_demo)) \<le> card (woken pcq_demo)"
proof -
  have a: "waiters pcq_demo 1 = Asleep" by (simp add: pcq_demo_def)
  show ?thesis using pcq_no_lost_wakeup [OF pcq_demo_reachable a] pcq_demo_reachable a by blast
qed

section \<open>Items are taken first in, first out\<close>

definition fifo_inv :: "'a pcq_sys \<Rightarrow> bool" where
  "fifo_inv s \<longleftrightarrow>
     (\<exists>rest. pushed s = taken s @ rest \<and> (\<not> pc_shutdown (sys_q s) \<longrightarrow> pc_queue (sys_q s) = rest))"

lemma pcq_step_fifo_inv: "pcq_step s t \<Longrightarrow> fifo_inv s \<Longrightarrow> fifo_inv t"
  by (induction rule: pcq_step.induct)
    (auto simp: fifo_inv_def pcq_op_defs neq_Nil_conv split: if_splits)

lemma pcq_reachable_fifo_inv: "pcq_reachable s \<Longrightarrow> fifo_inv s"
proof (induction rule: pcq_reachable.induct)
  case start
  show ?case by (simp add: fifo_inv_def pcq_init_def pcq_new_def)
next
  case (step s t)
  then show ?case by (blast intro: pcq_step_fifo_inv)
qed

text \<open>
  C28. In every reachable state the items that the consumers of a \<open>ProducerConsumerQueue\<close>
  have taken are a prefix of the items pushed, in order: no item is taken twice, none
  overtakes another. Until the shutdown nothing is lost either: the rest is in the queue.
\<close>

theorem pcq_taken_in_order:
  assumes "pcq_reachable s"
  shows "\<exists>rest. pushed s = taken s @ rest \<and>
    (\<not> pc_shutdown (sys_q s) \<longrightarrow> pc_queue (sys_q s) = rest)"
  using pcq_reachable_fifo_inv [OF assms] by (simp add: fifo_inv_def)

theorem pcq_taken_in_order_witness:
  "pcq_reachable pcq_demo \<and> (\<exists>rest. pushed pcq_demo = taken pcq_demo @ rest \<and>
    pc_queue (sys_q pcq_demo) = rest)"
  using pcq_taken_in_order [OF pcq_demo_reachable] pcq_demo_reachable by (simp add: pcq_demo_def)

end
