(* ===== verification/MPSC_Queue.thy ===== *)
theory MPSC_Queue
  imports Prelude
begin

text \<open>
  Self-Study/Threading/MPSCQueue.h, the non-intrusive queue of Dmitry Vyukov: a linked list
  of heap nodes, a consumer end \<open>_tail\<close> that points to a dummy node, and a producer end
  \<open>_head\<close> that any number of producers exchange. \<open>Enqueue\<close> is two atomic accesses (the
  exchange of \<open>_head\<close>, then the store of the link into the previous head), so between them
  the list has a gap. The model has the two accesses as separate operations, the whole
  \<open>Enqueue\<close> as their composition, and a step relation in which any number of producers
  are between the two.

  \<open>Dequeue\<close> has one shared read, the load of \<open>tail->Next\<close>; the rest of it touches only
  what the single consumer owns once that load has returned a node, so it is one step.
\<close>

section \<open>Nodes and the queue\<close>

type_synonym naddr = nat

text \<open>\<open>Data\<close> of the dummy node made by \<open>Node() = default\<close> is not initialised: \<open>None\<close>.\<close>

record 'a mp_node =
  n_data :: "'a option"
  n_next :: "naddr option"

record 'a mpsc =
  mp_heap :: "naddr \<rightharpoonup> 'a mp_node"
  mp_head :: naddr
  mp_tail :: naddr
  mp_free :: naddr  \<comment> \<open>every address from here on is unused: where \<open>new\<close> may place a node\<close>

definition mpsc_new :: "'a mpsc" where
  "mpsc_new = \<lparr>mp_heap = [0 \<mapsto> \<lparr>n_data = None, n_next = None\<rparr>], mp_head = 0, mp_tail = 0,
     mp_free = 1\<rparr>"

section \<open>The operations\<close>

text \<open>
  \<open>Enqueue\<close>, first half: the node is allocated at \<open>a\<close> and \<open>_head.exchange\<close> returns the
  previous head.
\<close>

definition mpsc_exchange :: "naddr \<Rightarrow> 'a \<Rightarrow> 'a mpsc \<Rightarrow> naddr \<times> 'a mpsc" where
  "mpsc_exchange a input q =
     (mp_head q,
      q\<lparr>mp_heap := (mp_heap q)(a \<mapsto> \<lparr>n_data = Some input, n_next = None\<rparr>), mp_head := a\<rparr>)"

text \<open>Second half: \<open>prevHead->Next.store(node)\<close>.\<close>

definition mpsc_link :: "naddr \<Rightarrow> naddr \<Rightarrow> 'a mpsc \<Rightarrow> 'a mpsc outcome" where
  "mpsc_link prevHead node q =
     (case mp_heap q prevHead of
        None \<Rightarrow> Undefined
      | Some n \<Rightarrow> Done (q\<lparr>mp_heap := (mp_heap q)(prevHead \<mapsto> n\<lparr>n_next := Some node\<rparr>)\<rparr>))"

definition mpsc_enqueue :: "'a \<Rightarrow> 'a mpsc \<Rightarrow> 'a mpsc outcome" where
  "mpsc_enqueue input q =
     (case mpsc_exchange (mp_free q) input (q\<lparr>mp_free := Suc (mp_free q)\<rparr>) of
        (prevHead, q1) \<Rightarrow> mpsc_link prevHead (mp_free q) q1)"

text \<open>
  \<open>Dequeue\<close>: \<open>None\<close> is the answer false; \<open>Some x\<close> is true with \<open>x\<close> in \<open>result\<close>.
  Reading a freed node or uninitialised \<open>Data\<close> is undefined.
\<close>

definition mpsc_dequeue :: "'a mpsc \<Rightarrow> ('a option \<times> 'a mpsc) outcome" where
  "mpsc_dequeue q =
     (case mp_heap q (mp_tail q) of
        None \<Rightarrow> Undefined
      | Some t \<Rightarrow>
          (case n_next t of
             None \<Rightarrow> Done (None, q)
           | Some next \<Rightarrow>
               (case mp_heap q next of
                  None \<Rightarrow> Undefined
                | Some n \<Rightarrow>
                    (case n_data n of
                       None \<Rightarrow> Undefined
                     | Some x \<Rightarrow>
                         Done (Some x, q\<lparr>mp_heap := (mp_heap q)(mp_tail q := None),
                                         mp_tail := next\<rparr>)))))"

text \<open>
  The destructor: \<open>while (Dequeue(output)) delete output;\<close> then the front node is deleted.
  The answer is the items deleted, in order. The loop gets fuel; one more than the number
  of queued items is enough (\<open>mpsc_destroy_frees_all\<close>).
\<close>

fun mpsc_destroy :: "nat \<Rightarrow> 'a mpsc \<Rightarrow> ('a list \<times> 'a mpsc) outcome option" where
  "mpsc_destroy 0 q = None"
| "mpsc_destroy (Suc fuel) q =
     (case mpsc_dequeue q of
        Done (Some x, q1) \<Rightarrow>
          map_option (\<lambda>r. bind_outcome r (\<lambda>(xs, q2). Done (x # xs, q2))) (mpsc_destroy fuel q1)
      | Done (None, q1) \<Rightarrow>
          Some (if mp_head q1 \<in> dom (mp_heap q1)
                then Done ([], q1\<lparr>mp_heap := (mp_heap q1)(mp_head q1 := None)\<rparr>)
                else Undefined)
      | Blocks \<Rightarrow> Some Blocks
      | Undefined \<Rightarrow> Some Undefined)"

section \<open>The shape of the list\<close>

text \<open>
  \<open>linked h P ns\<close>: the nodes \<open>ns\<close> are live; each one is linked to the next, or is not yet
  linked and the pair is in \<open>P\<close>, the producers between their two accesses; the last
  one has no successor.
\<close>

fun linked :: "(naddr \<rightharpoonup> 'a mp_node) \<Rightarrow> (naddr \<times> naddr) set \<Rightarrow> naddr list \<Rightarrow> bool" where
  "linked h P [] \<longleftrightarrow> False"
| "linked h P [a] \<longleftrightarrow> (\<exists>n. h a = Some n \<and> n_next n = None)"
| "linked h P (a # b # ns) \<longleftrightarrow>
     (\<exists>n. h a = Some n \<and> n_next n = (if (a, b) \<in> P then None else Some b)) \<and>
     linked h P (b # ns)"

definition node_data_of :: "(naddr \<rightharpoonup> 'a mp_node) \<Rightarrow> naddr \<Rightarrow> 'a option" where
  "node_data_of h a = Option.bind (h a) n_data"

definition mpsc_shape ::
  "'a mpsc \<Rightarrow> (naddr \<times> naddr) set \<Rightarrow> naddr list \<Rightarrow> 'a list \<Rightarrow> bool" where
  "mpsc_shape q P ns xs \<longleftrightarrow>
     linked (mp_heap q) P ns \<and> distinct ns \<and> hd ns = mp_tail q \<and> last ns = mp_head q \<and>
     map (node_data_of (mp_heap q)) (tl ns) = map Some xs \<and>
     P \<subseteq> set (zip ns (tl ns))"

lemma linked_nonempty: "linked h P ns \<Longrightarrow> ns \<noteq> []"
  by (cases ns) auto

lemma linked_live: "linked h P ns \<Longrightarrow> set ns \<subseteq> dom h"
  by (induction h P ns rule: linked.induct) auto

lemma linked_cong:
  "(\<And>a. a \<in> set ns \<Longrightarrow> h' a = h a) \<Longrightarrow>
   (\<And>a b. a \<in> set ns \<Longrightarrow> b \<in> set ns \<Longrightarrow> (a, b) \<in> P' \<longleftrightarrow> (a, b) \<in> P) \<Longrightarrow>
   linked h' P' ns = linked h P ns"
  by (induction h P ns rule: linked.induct) auto

lemma linked_snoc:
  assumes "linked h P ns" "distinct ns" "a \<notin> set ns"
    and "\<And>b. (b, a) \<notin> P" and "n_next n = None"
  shows "linked (h(a \<mapsto> n)) (insert (last ns, a) P) (ns @ [a])"
  using assms
proof (induction h P ns rule: linked.induct)
  case (3 h P c b ns)
  then have "linked (h(a \<mapsto> n)) (insert (last (b # ns), a) P) ((b # ns) @ [a])"
    by (simp del: fun_upd_apply)
  moreover have "c \<noteq> a" "b \<noteq> a" "c \<noteq> last (b # ns)" using "3.prems" by auto
  ultimately show ?case using "3.prems" by (simp del: fun_upd_apply add: fun_upd_other)
qed auto

lemma linked_link:
  assumes "linked h P ns" "distinct ns" "(p, b) \<in> set (zip ns (tl ns))" "h p = Some n"
  shows "linked (h(p \<mapsto> n\<lparr>n_next := Some b\<rparr>)) (P - {(p, b)}) ns"
  using assms
proof (induction h P ns rule: linked.induct)
  case (3 h P c d ns)
  show ?case
  proof (cases "p = c")
    case True
    with "3.prems" have "b = d" by (auto dest: set_zip_leftD)
    moreover have "linked (h(p \<mapsto> n\<lparr>n_next := Some b\<rparr>)) (P - {(p, b)}) (d # ns) = linked h P (d # ns)"
      using True "3.prems" by (intro linked_cong) auto
    ultimately show ?thesis using True "3.prems"
      by (simp del: fun_upd_apply add: fun_upd_same)
  next
    case False
    with "3.prems" have "(p, b) \<in> set (zip (d # ns) (tl (d # ns)))" by auto
    with "3.prems" "3.IH"
    have "linked (h(p \<mapsto> n\<lparr>n_next := Some b\<rparr>)) (P - {(p, b)}) (d # ns)"
      by (simp del: fun_upd_apply)
    with False "3.prems" show ?thesis by (simp del: fun_upd_apply add: fun_upd_other)
  qed
qed auto

lemma node_data_of_upd:
  "node_data_of (h(a \<mapsto> n)) b = (if b = a then n_data n else node_data_of h b)"
  by (simp add: node_data_of_def)

lemma node_data_of_delete:
  "b \<noteq> a \<Longrightarrow> node_data_of (h(a := None)) b = node_data_of h b"
  by (simp add: node_data_of_def)

lemma set_zip_tl_snoc:
  "ns \<noteq> [] \<Longrightarrow> set (zip (ns @ [a]) (tl (ns @ [a]))) = insert (last ns, a) (set (zip ns (tl ns)))"
  by (induction ns rule: induct_list012) auto

section \<open>Each atomic step keeps the shape\<close>

lemma mpsc_shape_exchange:
  assumes "mpsc_shape q P ns xs" "a \<notin> dom (mp_heap q)"
    and "mpsc_exchange a x q = (p, q')"
  shows "p = last ns \<and> mpsc_shape q' (insert (p, a) P) (ns @ [a]) (xs @ [x])"
proof -
  have l: "linked (mp_heap q) P ns" and d: "distinct ns" and P: "P \<subseteq> set (zip ns (tl ns))"
    using assms(1) by (auto simp: mpsc_shape_def)
  have ne: "ns \<noteq> []" and fresh: "a \<notin> set ns"
    using linked_nonempty [OF l] linked_live [OF l] assms(2) by auto
  have nP: "\<And>b. (b, a) \<notin> P"
  proof
    fix b assume "(b, a) \<in> P"
    with P have "(b, a) \<in> set (zip ns (tl ns))" by auto
    then have "a \<in> set (tl ns)" by (rule set_zip_rightD)
    with fresh ne show False by (auto dest: list.set_sel(2))
  qed
  let ?h = "(mp_heap q)(a \<mapsto> \<lparr>n_data = Some x, n_next = None\<rparr>)"
  have q': "p = last ns" "q' = q\<lparr>mp_heap := ?h, mp_head := a\<rparr>"
    using assms(1,3) by (auto simp: mpsc_exchange_def mpsc_shape_def)
  have "map (node_data_of ?h) (tl ns) = map (node_data_of (mp_heap q)) (tl ns)"
    using fresh ne by (auto simp: node_data_of_upd dest: list.set_sel(2))
  also have "\<dots> = map Some xs" using assms(1) by (simp add: mpsc_shape_def)
  finally have "map (node_data_of ?h) (tl (ns @ [a])) = map Some (xs @ [x])"
    using ne by (simp add: node_data_of_upd)
  moreover have "linked ?h (insert (last ns, a) P) (ns @ [a])"
    using l d fresh nP by (rule linked_snoc) simp
  moreover have "insert (last ns, a) P \<subseteq> set (zip (ns @ [a]) (tl (ns @ [a])))"
    using P ne unfolding set_zip_tl_snoc [OF ne] by blast
  ultimately show ?thesis
    using assms(1) q' ne fresh unfolding mpsc_shape_def by simp
qed

lemma mpsc_shape_link:
  assumes "mpsc_shape q P ns xs" "(p, a) \<in> P"
  shows "\<exists>q'. mpsc_link p a q = Done q' \<and> mpsc_shape q' (P - {(p, a)}) ns xs"
proof -
  have l: "linked (mp_heap q) P ns" and d: "distinct ns" and adj: "(p, a) \<in> set (zip ns (tl ns))"
    using assms by (auto simp: mpsc_shape_def)
  then have "p \<in> set ns" by (metis set_zip_leftD)
  then obtain n where n: "mp_heap q p = Some n" using linked_live [OF l] by auto
  have "node_data_of ((mp_heap q)(p \<mapsto> n\<lparr>n_next := Some a\<rparr>)) = node_data_of (mp_heap q)"
    using n by (auto simp: node_data_of_def)
  then show ?thesis using assms n linked_link [OF l d adj n]
    by (auto simp: mpsc_shape_def mpsc_link_def simp del: fun_upd_apply)
qed

text \<open>
  \<open>Dequeue\<close> answers false exactly when nothing is queued or the first queued item is not
  linked yet; otherwise it delivers the first item.
\<close>

lemma mpsc_shape_dequeue:
  assumes "mpsc_shape q P ns xs"
  shows "(case xs of
      [] \<Rightarrow> mpsc_dequeue q = Done (None, q)
    | y # ys \<Rightarrow>
        if (mp_tail q, hd (tl ns)) \<in> P then mpsc_dequeue q = Done (None, q)
        else \<exists>q'. mpsc_dequeue q = Done (Some y, q') \<and> mpsc_shape q' P (tl ns) ys)"
proof -
  have l: "linked (mp_heap q) P ns" and d: "distinct ns" and P: "P \<subseteq> set (zip ns (tl ns))"
    and hd: "hd ns = mp_tail q" and last: "last ns = mp_head q"
    and data: "map (node_data_of (mp_heap q)) (tl ns) = map Some xs"
    using assms by (auto simp: mpsc_shape_def)
  show ?thesis
  proof (cases ns rule: list.exhaust)
    case Nil
    with l show ?thesis by simp
  next
    case (Cons t ms)
    show ?thesis
    proof (cases ms)
      case Nil
      with Cons l hd data show ?thesis by (auto simp: mpsc_dequeue_def)
    next
      case (Cons m ms')
      with \<open>ns = t # ms\<close> have ns: "ns = t # m # ms'" by simp
      with data obtain y ys where xs: "xs = y # ys" "node_data_of (mp_heap q) m = Some y"
        "map (node_data_of (mp_heap q)) ms' = map Some ys" by (cases xs) auto
      from l ns obtain nt where nt: "mp_heap q t = Some nt"
        "n_next nt = (if (t, m) \<in> P then None else Some m)" "linked (mp_heap q) P (m # ms')" by auto
      show ?thesis
      proof (cases "(t, m) \<in> P")
        case True
        with ns xs nt hd show ?thesis by (simp add: mpsc_dequeue_def)
      next
        case False
        let ?h = "(mp_heap q)(t := None)"
        have "linked ?h P (m # ms') = linked (mp_heap q) P (m # ms')"
          using d ns by (intro linked_cong) auto
        moreover have "map (node_data_of ?h) ms' = map (node_data_of (mp_heap q)) ms'"
          using d ns by (auto simp: node_data_of_def)
        moreover have "P \<subseteq> set (zip (m # ms') ms')" using P ns False by auto
        ultimately show ?thesis using False ns xs nt hd last d
          by (auto simp: mpsc_dequeue_def mpsc_shape_def node_data_of_def bind_eq_Some_conv
              simp del: fun_upd_apply)
      qed
    qed
  qed
qed

section \<open>Any interleaving of producers and the consumer\<close>

text \<open>
  \<open>pending\<close>: the producers between the exchange and the link, as (previous head, node).
  \<open>enqd\<close> and \<open>deqd\<close> record the items in the order of the exchanges and of the
  successful \<open>Dequeue\<close>s. A node may be placed at any address that is not live, also at
  one that was freed before.
\<close>

record 'a mpsc_sys =
  mq :: "'a mpsc"
  pending :: "(naddr \<times> naddr) set"
  enqd :: "'a list"
  deqd :: "'a list"

definition mpsc_init :: "'a mpsc_sys" where
  "mpsc_init = \<lparr>mq = mpsc_new, pending = {}, enqd = [], deqd = []\<rparr>"

inductive mpsc_step :: "'a mpsc_sys \<Rightarrow> 'a mpsc_sys \<Rightarrow> bool" where
  exchange: "a \<notin> dom (mp_heap (mq s)) \<Longrightarrow> mpsc_exchange a x (mq s) = (p, q') \<Longrightarrow>
     mpsc_step s (s\<lparr>mq := q', pending := insert (p, a) (pending s), enqd := enqd s @ [x]\<rparr>)"
| link: "(p, a) \<in> pending s \<Longrightarrow> mpsc_link p a (mq s) = Done q' \<Longrightarrow>
     mpsc_step s (s\<lparr>mq := q', pending := pending s - {(p, a)}\<rparr>)"
| dequeue: "mpsc_dequeue (mq s) = Done (Some x, q') \<Longrightarrow>
     mpsc_step s (s\<lparr>mq := q', deqd := deqd s @ [x]\<rparr>)"

inductive mpsc_reachable :: "'a mpsc_sys \<Rightarrow> bool" where
  start: "mpsc_reachable mpsc_init"
| step: "mpsc_reachable s \<Longrightarrow> mpsc_step s t \<Longrightarrow> mpsc_reachable t"

definition mpsc_inv :: "'a mpsc_sys \<Rightarrow> bool" where
  "mpsc_inv s \<longleftrightarrow> (\<exists>ns xs. mpsc_shape (mq s) (pending s) ns xs \<and> enqd s = deqd s @ xs)"

lemma mpsc_shape_new: "mpsc_shape mpsc_new {} [0] []"
  by (simp add: mpsc_shape_def mpsc_new_def)

lemma mpsc_shape_dequeue_Some:
  assumes "mpsc_shape q P ns xs" "mpsc_dequeue q = Done (Some x, q')"
  obtains ys where "xs = x # ys" "mpsc_shape q' P (tl ns) ys"
  using mpsc_shape_dequeue [OF assms(1)] assms(2)
  by (auto split: list.splits if_splits)

lemma mpsc_step_inv: "mpsc_step s t \<Longrightarrow> mpsc_inv s \<Longrightarrow> mpsc_inv t"
proof (induction rule: mpsc_step.induct)
  case (exchange a s x p q')
  then obtain ns xs where "mpsc_shape (mq s) (pending s) ns xs" "enqd s = deqd s @ xs"
    by (auto simp: mpsc_inv_def)
  with mpsc_shape_exchange [OF this(1) exchange(1,2)] show ?case
    by (auto simp: mpsc_inv_def)
next
  case (link p a s q')
  then obtain ns xs where "mpsc_shape (mq s) (pending s) ns xs" "enqd s = deqd s @ xs"
    by (auto simp: mpsc_inv_def)
  with mpsc_shape_link [OF this(1) link(1)] link(2) show ?case
    by (auto simp: mpsc_inv_def)
next
  case (dequeue s x q')
  then obtain ns xs where "mpsc_shape (mq s) (pending s) ns xs" "enqd s = deqd s @ xs"
    by (auto simp: mpsc_inv_def)
  then obtain ys where "mpsc_shape q' (pending s) (tl ns) ys" "enqd s = (deqd s @ [x]) @ ys"
    using mpsc_shape_dequeue_Some [OF _ dequeue(1)] by (metis append.assoc append_Cons append_Nil)
  then have "mpsc_shape (mq t') (pending t') (tl ns) ys \<and> enqd t' = deqd t' @ ys"
    if "t' = s\<lparr>mq := q', deqd := deqd s @ [x]\<rparr>" for t'
    using that by simp
  then show ?case unfolding mpsc_inv_def by blast
qed

lemma mpsc_reachable_inv: "mpsc_reachable s \<Longrightarrow> mpsc_inv s"
proof (induction rule: mpsc_reachable.induct)
  case start
  show ?case using mpsc_shape_new by (auto simp: mpsc_inv_def mpsc_init_def)
next
  case (step s t)
  then show ?case by (blast intro: mpsc_step_inv)
qed

text \<open>
  C1. \<open>MPSCQueueNonIntrusive\<close> under any interleaving of any number of producers with the
  consumer: items are dequeued in the order of the producers' exchanges of \<open>_head\<close>, each
  at most once; no access touches a freed node (a producer's store to \<open>prevHead->Next\<close> and
  the consumer's reads are defined); and when no producer is between its two accesses
  \<open>Dequeue\<close> answers false only if every item enqueued was dequeued.
\<close>

theorem mpsc_linearizable:
  assumes "mpsc_reachable s"
  shows "\<exists>rest. enqd s = deqd s @ rest \<and>
    (\<exists>r q'. mpsc_dequeue (mq s) = Done (r, q') \<and>
      (r = None \<longrightarrow> rest = [] \<or> pending s \<noteq> {}) \<and>
      (\<forall>x. r = Some x \<longrightarrow> rest \<noteq> [] \<and> x = hd rest)) \<and>
    (\<forall>(p, a) \<in> pending s. mpsc_link p a (mq s) \<noteq> Undefined)"
proof -
  obtain ns xs where sh: "mpsc_shape (mq s) (pending s) ns xs" and eq: "enqd s = deqd s @ xs"
    using mpsc_reachable_inv [OF assms] by (auto simp: mpsc_inv_def)
  have "mpsc_link p a (mq s) \<noteq> Undefined" if "(p, a) \<in> pending s" for p a
    using mpsc_shape_link [OF sh that] by auto
  moreover have "\<exists>r q'. mpsc_dequeue (mq s) = Done (r, q') \<and>
      (r = None \<longrightarrow> xs = [] \<or> pending s \<noteq> {}) \<and> (\<forall>x. r = Some x \<longrightarrow> xs \<noteq> [] \<and> x = hd xs)"
    using mpsc_shape_dequeue [OF sh] by (auto split: list.splits if_splits)
  ultimately show ?thesis using eq by (intro exI [of _ xs]) auto
qed

text \<open>The witness: a producer has put 5 in place of the head but has not linked it yet.\<close>

definition mpsc_demo :: "nat mpsc_sys" where
  "mpsc_demo =
     \<lparr>mq = \<lparr>mp_heap = [0 \<mapsto> \<lparr>n_data = None, n_next = None\<rparr>,
                        1 \<mapsto> \<lparr>n_data = Some 5, n_next = None\<rparr>],
            mp_head = 1, mp_tail = 0, mp_free = 1\<rparr>,
      pending = {(0, 1)}, enqd = [5], deqd = []\<rparr>"

lemma mpsc_demo_reachable: "mpsc_reachable mpsc_demo"
proof -
  have "mpsc_step (mpsc_init :: nat mpsc_sys) mpsc_demo"
    using mpsc_step.exchange [of 1 "mpsc_init :: nat mpsc_sys" 5 0 "mq mpsc_demo"]
    by (simp add: mpsc_init_def mpsc_new_def mpsc_demo_def mpsc_exchange_def)
  then show ?thesis by (rule mpsc_reachable.step [OF mpsc_reachable.start])
qed

theorem mpsc_linearizable_witness:
  "mpsc_reachable mpsc_demo \<and> (\<exists>rest. enqd mpsc_demo = deqd mpsc_demo @ rest) \<and>
    mpsc_link 0 1 (mq mpsc_demo) \<noteq> Undefined"
proof -
  have "(0, 1) \<in> pending mpsc_demo" by (simp add: mpsc_demo_def)
  then show ?thesis
    using mpsc_linearizable [OF mpsc_demo_reachable] mpsc_demo_reachable by auto
qed

section \<open>One thread: the FIFO contract, and the destructor\<close>

text \<open>
  With no producer in between, the items are read off the list by following the links.
  Every address is below \<open>mp_free\<close>, so that is enough fuel.
\<close>

fun walk :: "nat \<Rightarrow> (naddr \<rightharpoonup> 'a mp_node) \<Rightarrow> naddr option \<Rightarrow> 'a list" where
  "walk 0 h p = []"
| "walk (Suc k) h None = []"
| "walk (Suc k) h (Some a) =
     (case h a of
        None \<Rightarrow> []
      | Some n \<Rightarrow> (case n_data n of None \<Rightarrow> [] | Some x \<Rightarrow> x # walk k h (n_next n)))"

definition mpsc_items :: "'a mpsc \<Rightarrow> 'a list" where
  "mpsc_items q =
     (case mp_heap q (mp_tail q) of
        None \<Rightarrow> []
      | Some t \<Rightarrow> walk (mp_free q) (mp_heap q) (n_next t))"

definition mpsc_quiet :: "'a mpsc \<Rightarrow> bool" where
  "mpsc_quiet q \<longleftrightarrow> dom (mp_heap q) \<subseteq> {..<mp_free q} \<and> (\<exists>ns xs. mpsc_shape q {} ns xs)"

lemma walk_linked:
  "linked h {} (a # ns) \<Longrightarrow> map (node_data_of h) ns = map Some xs \<Longrightarrow> length ns \<le> k \<Longrightarrow>
   h a = Some n \<Longrightarrow> walk k h (n_next n) = xs"
proof (induction ns arbitrary: a k xs n)
  case Nil
  then show ?case by (cases k) auto
next
  case (Cons b ns)
  from Cons.prems obtain k' where k: "k = Suc k'" by (cases k) auto
  from Cons.prems obtain m where m: "h b = Some m" by (cases ns) auto
  from Cons.prems obtain x xs' where xs: "xs = x # xs'" "n_data m = Some x"
    "map (node_data_of h) ns = map Some xs'"
    using m by (cases xs) (auto simp: node_data_of_def [of h b])
  have "walk k' h (n_next m) = xs'" using Cons.prems k xs m by (intro Cons.IH [of b]) auto
  then show ?case using Cons.prems(1,4) k m xs by simp
qed

lemma mpsc_items_shape:
  assumes "mpsc_shape q {} ns xs" "dom (mp_heap q) \<subseteq> {..<mp_free q}"
  shows "mpsc_items q = xs"
proof -
  have l: "linked (mp_heap q) {} ns" and d: "distinct ns" and hd: "hd ns = mp_tail q"
    and data: "map (node_data_of (mp_heap q)) (tl ns) = map Some xs"
    using assms(1) by (auto simp: mpsc_shape_def)
  obtain ns' where ns: "ns = mp_tail q # ns'" using linked_nonempty [OF l] hd by (cases ns) auto
  have "set ns \<subseteq> {..<mp_free q}" using linked_live [OF l] assms(2) by auto
  then have "card (set ns) \<le> mp_free q" by (metis card_lessThan card_mono finite_lessThan)
  then have len: "length ns' \<le> mp_free q" using d ns by (simp add: distinct_card)
  obtain t where t: "mp_heap q (mp_tail q) = Some t" using linked_live [OF l] ns by auto
  have "walk (mp_free q) (mp_heap q) (n_next t) = xs"
    using walk_linked [of "mp_heap q" "mp_tail q" ns' xs "mp_free q" t] l ns data len t by simp
  then show ?thesis using t by (simp add: mpsc_items_def)
qed

lemma mpsc_link_frame:
  "mpsc_link p a q = Done q' \<Longrightarrow> mp_free q' = mp_free q \<and> dom (mp_heap q') = dom (mp_heap q)"
  by (auto simp: mpsc_link_def split: option.splits if_splits)

lemma mpsc_exchange_frame:
  "mpsc_exchange a x q = (p, q') \<Longrightarrow>
   mp_free q' = mp_free q \<and> dom (mp_heap q') = insert a (dom (mp_heap q))"
  by (auto simp: mpsc_exchange_def)

lemma mpsc_enqueue_shape:
  assumes "mpsc_shape q {} ns xs" "dom (mp_heap q) \<subseteq> {..<mp_free q}"
  shows "\<exists>q'. mpsc_enqueue x q = Done q' \<and> mpsc_shape q' {} (ns @ [mp_free q]) (xs @ [x]) \<and>
    dom (mp_heap q') \<subseteq> {..<mp_free q'}"
proof -
  let ?q = "q\<lparr>mp_free := Suc (mp_free q)\<rparr>"
  have sh: "mpsc_shape ?q {} ns xs" using assms(1) by (simp add: mpsc_shape_def)
  have fresh: "mp_free q \<notin> dom (mp_heap ?q)" using assms(2) by auto
  obtain p q1 where e: "mpsc_exchange (mp_free q) x ?q = (p, q1)" by fastforce
  have s1: "mpsc_shape q1 {(p, mp_free q)} (ns @ [mp_free q]) (xs @ [x])"
    by (rule mpsc_shape_exchange [OF sh fresh e, THEN conjunct2])
  then obtain q' where q': "mpsc_link p (mp_free q) q1 = Done q'"
    "mpsc_shape q' {} (ns @ [mp_free q]) (xs @ [x])"
    using mpsc_shape_link [OF s1, of p "mp_free q"] by auto
  have "dom (mp_heap q') = insert (mp_free q) (dom (mp_heap q))" "mp_free q' = Suc (mp_free q)"
    using mpsc_link_frame [OF q'(1)] mpsc_exchange_frame [OF e] by simp_all
  then have "dom (mp_heap q') \<subseteq> {..<mp_free q'}" using assms(2) by auto
  then show ?thesis using q' e by (auto simp: mpsc_enqueue_def)
qed

lemma mpsc_dequeue_frame:
  "mpsc_dequeue q = Done (r, q') \<Longrightarrow> mp_free q' = mp_free q \<and> dom (mp_heap q') \<subseteq> dom (mp_heap q)"
  by (auto simp: mpsc_dequeue_def split: option.splits if_splits)

lemma mpsc_quietE:
  assumes "mpsc_quiet q"
  obtains ns where "mpsc_shape q {} ns (mpsc_items q)" "dom (mp_heap q) \<subseteq> {..<mp_free q}"
proof -
  obtain ns xs where "mpsc_shape q {} ns xs" "dom (mp_heap q) \<subseteq> {..<mp_free q}"
    using assms by (auto simp: mpsc_quiet_def)
  moreover from this have "mpsc_items q = xs" by (rule mpsc_items_shape)
  ultimately show thesis using that by simp
qed

lemma mpsc_dequeue_frees:
  "mpsc_dequeue q = Done (Some x, q') \<Longrightarrow> dom (mp_heap q') = dom (mp_heap q) - {mp_tail q}"
  by (auto simp: mpsc_dequeue_def split: option.splits if_splits)

interpretation mpsc: fifo_queue mpsc_items mpsc_quiet mpsc_enqueue mpsc_dequeue
proof unfold_locales
  fix q :: "'a mpsc" and x
  assume "mpsc_quiet q"
  then obtain ns where "mpsc_shape q {} ns (mpsc_items q)" "dom (mp_heap q) \<subseteq> {..<mp_free q}"
    by (rule mpsc_quietE)
  then obtain q' where q': "mpsc_enqueue x q = Done q'" "dom (mp_heap q') \<subseteq> {..<mp_free q'}"
    "mpsc_shape q' {} (ns @ [mp_free q]) (mpsc_items q @ [x])"
    using mpsc_enqueue_shape [of q ns "mpsc_items q" x] by metis
  have "mpsc_items q' = mpsc_items q @ [x]" using q'(3,2) by (rule mpsc_items_shape)
  moreover have "mpsc_quiet q'" using q'(2,3) unfolding mpsc_quiet_def by blast
  ultimately show "\<exists>q'. mpsc_enqueue x q = Done q' \<and> mpsc_quiet q' \<and>
      mpsc_items q' = mpsc_items q @ [x]"
    using q'(1) by blast
next
  fix q :: "'a mpsc"
  assume "mpsc_quiet q" and "mpsc_items q = []"
  then obtain ns where "mpsc_shape q {} ns []" by (metis mpsc_quietE)
  then show "\<exists>q'. mpsc_dequeue q = Done (None, q') \<and> mpsc_quiet q' \<and> mpsc_items q' = []"
    using mpsc_shape_dequeue [of q "{}" ns "[]"] \<open>mpsc_quiet q\<close> \<open>mpsc_items q = []\<close> by auto
next
  fix q :: "'a mpsc" and x xs
  assume q: "mpsc_quiet q" and i: "mpsc_items q = x # xs"
  then obtain ns where ns: "mpsc_shape q {} ns (x # xs)" by (metis mpsc_quietE)
  then obtain q' where q': "mpsc_dequeue q = Done (Some x, q')" "mpsc_shape q' {} (tl ns) xs"
    using mpsc_shape_dequeue [OF ns] by auto
  moreover have d: "dom (mp_heap q') \<subseteq> {..<mp_free q'}"
    using mpsc_dequeue_frame [OF q'(1)] q by (auto simp: mpsc_quiet_def)
  moreover have "mpsc_items q' = xs" using q'(2) d by (rule mpsc_items_shape)
  moreover have "mpsc_quiet q'" using q'(2) d unfolding mpsc_quiet_def by blast
  ultimately show "\<exists>q'. mpsc_dequeue q = Done (Some x, q') \<and> mpsc_quiet q' \<and> mpsc_items q' = xs"
    by blast
qed

lemma mpsc_destroy_shape:
  assumes "mpsc_shape q {} ns xs" "length xs < fuel"
  shows "\<exists>q'. mpsc_destroy fuel q = Some (Done (xs, q')) \<and> dom (mp_heap q') = dom (mp_heap q) - set ns"
  using assms
proof (induction xs arbitrary: q ns fuel)
  case Nil
  then obtain f where f: "fuel = Suc f" by (cases fuel) auto
  have d: "mpsc_dequeue q = Done (None, q)" using mpsc_shape_dequeue [OF Nil.prems(1)] by simp
  obtain t where "ns = [t]" "mp_head q = t"
    using Nil.prems(1) linked_nonempty by (cases ns) (auto simp: mpsc_shape_def)
  moreover have "set ns \<subseteq> dom (mp_heap q)"
    using Nil.prems(1) linked_live unfolding mpsc_shape_def by blast
  ultimately show ?case using d f by (auto split: if_splits)
next
  case (Cons x xs)
  then obtain f where f: "fuel = Suc f" by (cases fuel) auto
  obtain q1 where q1: "mpsc_dequeue q = Done (Some x, q1)" "mpsc_shape q1 {} (tl ns) xs"
    using mpsc_shape_dequeue [OF Cons.prems(1)] by auto
  obtain q' where q': "mpsc_destroy f q1 = Some (Done (xs, q'))"
    "dom (mp_heap q') = dom (mp_heap q1) - set (tl ns)"
    using Cons.IH [OF q1(2), of f] Cons.prems(2) f by auto
  have "ns = mp_tail q # tl ns"
    using Cons.prems(1) linked_nonempty by (cases ns) (auto simp: mpsc_shape_def)
  then have "set ns = insert (mp_tail q) (set (tl ns))" by (metis list.simps(15))
  then have "dom (mp_heap q') = dom (mp_heap q) - set ns"
    using q'(2) mpsc_dequeue_frees [OF q1(1)] by auto
  then show ?case using f q1(1) q'(1) by simp
qed

text \<open>
  C29. The destructor of \<open>MPSCQueueNonIntrusive\<close> terminates, deletes every queued item
  exactly once and in order, and frees every node of the list, the dummy included: nothing
  else of the heap changes. (Fuel: one more than the number of queued items.)
\<close>

theorem mpsc_destroy_frees_all:
  assumes "mpsc_shape q {} ns xs"
  shows "\<exists>q'. mpsc_destroy (Suc (length xs)) q = Some (Done (xs, q')) \<and>
    dom (mp_heap q') = dom (mp_heap q) - set ns"
  using assms by (rule mpsc_destroy_shape) simp

theorem mpsc_destroy_frees_all_witness:
  "\<exists>q'. mpsc_destroy 1 (mpsc_new :: nat mpsc) = Some (Done ([], q')) \<and> dom (mp_heap q') = {}"
  using mpsc_destroy_frees_all [OF mpsc_shape_new [where 'a = nat]]
  by (auto simp: mpsc_new_def)

end
