(* ===== verification/MPSC_Intrusive.thy ===== *)
theory MPSC_Intrusive
  imports MPSC_Queue
begin

text \<open>
  Self-Study/Threading/MPSCQueue.h, the intrusive queue of Dmitry Vyukov: the objects that
  are queued carry their link, the queue owns a dummy object, and \<open>Dequeue\<close> puts the dummy
  back behind the last object before it hands that one out. \<open>Enqueue\<close> is the exchange of
  \<open>_head\<close> and the store of the link; \<open>Dequeue\<close> reads or writes shared memory up to six
  times, and each of these accesses is one step here (what it does to \<open>_tail\<close>, which only
  the consumer uses, goes with the access before it). The caller gets the ownership of an
  object that is handed out and may delete it: the model does so at once, so that any later
  access of the queue to it would be undefined.
\<close>

section \<open>The queue and its operations\<close>

text \<open>
  The objects are \<open>mp_node\<close>s: \<open>n_next\<close> is the member \<open>IntrusiveLink\<close>, \<open>n_data\<close> the rest of
  the object, which the dummy does not have.
\<close>

record 'a mpsci =
  mi_heap :: "naddr \<rightharpoonup> 'a mp_node"
  mi_dummy :: naddr
  mi_head :: naddr
  mi_tail :: naddr

definition mpsci_new :: "naddr \<Rightarrow> 'a mpsci" where
  "mpsci_new d = \<lparr>mi_heap = [d \<mapsto> \<lparr>n_data = None, n_next = None\<rparr>], mi_dummy = d, mi_head = d, mi_tail = d\<rparr>"

definition set_link :: "naddr \<Rightarrow> naddr option \<Rightarrow> 'a mpsci \<Rightarrow> 'a mpsci outcome" where
  "set_link a v q =
     (case mi_heap q a of
        None \<Rightarrow> Undefined
      | Some n \<Rightarrow> Done (q\<lparr>mi_heap := (mi_heap q)(a \<mapsto> n\<lparr>n_next := v\<rparr>)\<rparr>))"

text \<open>\<open>Enqueue\<close>: the link of \<open>input\<close> is cleared, \<open>_head\<close> is exchanged; then the previous head is linked.\<close>

definition mpsci_exchange :: "naddr \<Rightarrow> 'a mpsci \<Rightarrow> (naddr \<times> 'a mpsci) outcome" where
  "mpsci_exchange input q =
     bind_outcome (set_link input None q) (\<lambda>q1. Done (mi_head q1, q1\<lparr>mi_head := input\<rparr>))"

definition mpsci_enqueue :: "naddr \<Rightarrow> 'a mpsci \<Rightarrow> 'a mpsci outcome" where
  "mpsci_enqueue input q =
     bind_outcome (mpsci_exchange input q) (\<lambda>(prevHead, q1). set_link prevHead (Some input) q1)"

text \<open>
  \<open>Dequeue\<close>: where the consumer is, and its next access. \<open>Returned\<close> has the answer, the
  object for true and nothing for false.
\<close>

datatype dq_pc =
    AtFirst
  | AtSecond naddr          \<comment> \<open>before the load of \<open>next\<close> behind the dummy\<close>
  | AtHead naddr            \<comment> \<open>before the load of \<open>_head\<close>\<close>
  | AtExchange naddr        \<comment> \<open>before the exchange in \<open>Enqueue(_dummyPtr)\<close>\<close>
  | AtLink naddr naddr      \<comment> \<open>before the store of the link in \<open>Enqueue(_dummyPtr)\<close>\<close>
  | AtThird naddr           \<comment> \<open>before the last load of \<open>next\<close>\<close>
  | Returned "naddr option"

definition load_link :: "naddr \<Rightarrow> 'a mpsci \<Rightarrow> naddr option outcome" where
  "load_link a q = (case mi_heap q a of None \<Rightarrow> Undefined | Some n \<Rightarrow> Done (n_next n))"

fun dq_access :: "dq_pc \<Rightarrow> 'a mpsci \<Rightarrow> (dq_pc \<times> 'a mpsci) outcome" where
  "dq_access AtFirst q =
     (let tail = mi_tail q in
      bind_outcome (load_link tail q) (\<lambda>next.
        if tail = mi_dummy q then
          (case next of
             None \<Rightarrow> Done (Returned None, q)
           | Some n \<Rightarrow> Done (AtSecond n, q\<lparr>mi_tail := n\<rparr>))
        else
          (case next of
             None \<Rightarrow> Done (AtHead tail, q)
           | Some n \<Rightarrow> Done (Returned (Some tail), q\<lparr>mi_tail := n\<rparr>))))"
| "dq_access (AtSecond tail) q =
     bind_outcome (load_link tail q) (\<lambda>next.
       case next of
         None \<Rightarrow> Done (AtHead tail, q)
       | Some n \<Rightarrow> Done (Returned (Some tail), q\<lparr>mi_tail := n\<rparr>))"
| "dq_access (AtHead tail) q =
     Done (if tail \<noteq> mi_head q then Returned None else AtExchange tail, q)"
| "dq_access (AtExchange tail) q =
     bind_outcome (mpsci_exchange (mi_dummy q) q) (\<lambda>(prevHead, q1). Done (AtLink tail prevHead, q1))"
| "dq_access (AtLink tail prevHead) q =
     bind_outcome (set_link prevHead (Some (mi_dummy q)) q) (\<lambda>q1. Done (AtThird tail, q1))"
| "dq_access (AtThird tail) q =
     bind_outcome (load_link tail q) (\<lambda>next.
       case next of
         None \<Rightarrow> Done (Returned None, q)
       | Some n \<Rightarrow> Done (Returned (Some tail), q\<lparr>mi_tail := n\<rparr>))"
| "dq_access (Returned r) q = Done (Returned r, q)"

fun dq_rank :: "dq_pc \<Rightarrow> nat" where
  "dq_rank AtFirst = 6"
| "dq_rank (AtSecond t) = 5"
| "dq_rank (AtHead t) = 4"
| "dq_rank (AtExchange t) = 3"
| "dq_rank (AtLink t p) = 2"
| "dq_rank (AtThird t) = 1"
| "dq_rank (Returned r) = 0"

lemma dq_access_rank: "dq_access pc q = Done (pc', q') \<Longrightarrow> 0 < dq_rank pc \<Longrightarrow> dq_rank pc' < dq_rank pc"
  by (cases pc) (auto simp: Let_def split: if_splits option.splits)

lemma bind_outcome_cong [fundef_cong]:
  "m = n \<Longrightarrow> (\<And>x. n = Done x \<Longrightarrow> f x = g x) \<Longrightarrow> bind_outcome m f = bind_outcome n g"
  by (cases n) auto

text \<open>\<open>Dequeue\<close> with no other thread in between.\<close>

function dq_run :: "dq_pc \<Rightarrow> 'a mpsci \<Rightarrow> (naddr option \<times> 'a mpsci) outcome" where
  "dq_run pc q =
     (if dq_rank pc = 0 then Done (case pc of Returned r \<Rightarrow> r | _ \<Rightarrow> None, q)
      else bind_outcome (dq_access pc q) (\<lambda>(pc', q'). dq_run pc' q'))"
  by pat_completeness auto
termination
  by (relation "measure (\<lambda>(pc, q). dq_rank pc)") (auto dest: dq_access_rank)

declare dq_run.simps [simp del]

lemma dq_run_simps [simp]:
  "dq_run (Returned r) q = Done (r, q)"
  "0 < dq_rank pc \<Longrightarrow> dq_run pc q = bind_outcome (dq_access pc q) (\<lambda>(pc', q'). dq_run pc' q')"
  by (simp_all add: dq_run.simps [of pc] dq_run.simps [of "Returned r"])

definition mpsci_dequeue :: "'a mpsci \<Rightarrow> (naddr option \<times> 'a mpsci) outcome" where
  "mpsci_dequeue q = dq_run AtFirst q"

text \<open>
  \<open>delete\<close> by the caller, and the destructor: \<open>while (Dequeue(output)) delete output;\<close> with
  the objects it deletes. Fuel as for the other queue.
\<close>

definition delete_node :: "naddr \<Rightarrow> 'a mpsci \<Rightarrow> 'a mpsci outcome" where
  "delete_node a q =
     (if mi_heap q a = None then Undefined else Done (q\<lparr>mi_heap := (mi_heap q)(a := None)\<rparr>))"

fun mpsci_destroy :: "nat \<Rightarrow> 'a mpsci \<Rightarrow> (naddr list \<times> 'a mpsci) outcome option" where
  "mpsci_destroy 0 q = None"
| "mpsci_destroy (Suc fuel) q =
     (case mpsci_dequeue q of
        Done (Some a, q1) \<Rightarrow>
          (case delete_node a q1 of
             Done q2 \<Rightarrow> map_option (\<lambda>r. bind_outcome r (\<lambda>(as, q3). Done (a # as, q3))) (mpsci_destroy fuel q2)
           | _ \<Rightarrow> Some Undefined)
      | Done (None, q1) \<Rightarrow> Some (Done ([], q1))
      | Blocks \<Rightarrow> Some Blocks
      | Undefined \<Rightarrow> Some Undefined)"

section \<open>The shape of the list\<close>

definition mpsci_shape :: "'a mpsci \<Rightarrow> (naddr \<times> naddr) set \<Rightarrow> naddr list \<Rightarrow> bool" where
  "mpsci_shape q P ns \<longleftrightarrow>
     linked (mi_heap q) P ns \<and> distinct ns \<and> hd ns = mi_tail q \<and> last ns = mi_head q \<and>
     P \<subseteq> set (zip ns (tl ns)) \<and> mi_dummy q \<in> dom (mi_heap q)"

definition queued :: "'a mpsci \<Rightarrow> naddr list \<Rightarrow> naddr list" where
  "queued q ns = filter (\<lambda>a. a \<noteq> mi_dummy q) ns"

lemma shape_new: "mpsci_shape (mpsci_new d) {} [d]"
  by (simp add: mpsci_shape_def mpsci_new_def)

lemma shapeE:
  assumes "mpsci_shape q P ns"
  obtains ms where "ns = mi_tail q # ms" "linked (mi_heap q) P (mi_tail q # ms)" "distinct (mi_tail q # ms)"
    "last (mi_tail q # ms) = mi_head q" "P \<subseteq> set (zip (mi_tail q # ms) ms)"
  using assms by (cases ns) (auto simp: mpsci_shape_def)

text \<open>What a load of the link of the first node finds.\<close>

lemma shape_load:
  assumes "mpsci_shape q P ns" "ns = t # ms"
  shows "load_link t q = Done (case ms of [] \<Rightarrow> None | m # _ \<Rightarrow> if (t, m) \<in> P then None else Some m)"
  using assms by (auto simp: mpsci_shape_def load_link_def split: list.splits)

lemma shape_advance:
  assumes "mpsci_shape q P (t # m # ms)" "(t, m) \<notin> P"
  shows "mpsci_shape (q\<lparr>mi_tail := m\<rparr>) P (m # ms)"
  using assms by (auto simp: mpsci_shape_def)

lemma shape_delete:
  assumes "mpsci_shape q P ns" "a \<notin> set ns" "a \<noteq> mi_dummy q"
  shows "mpsci_shape (q\<lparr>mi_heap := (mi_heap q)(a := None)\<rparr>) P ns"
proof -
  have "linked ((mi_heap q)(a := None)) P ns = linked (mi_heap q) P ns"
    by (rule linked_cong) (use assms(2) in auto)
  then show ?thesis using assms by (simp add: mpsci_shape_def)
qed

lemma shape_exchange:
  assumes "mpsci_shape q P ns" "a \<notin> set ns" "a \<in> dom (mi_heap q)"
  shows "\<exists>q'. mpsci_exchange a q = Done (last ns, q') \<and> mpsci_shape q' (insert (last ns, a) P) (ns @ [a]) \<and>
    mi_dummy q' = mi_dummy q \<and> mi_tail q' = mi_tail q \<and> dom (mi_heap q') = dom (mi_heap q) \<and>
    node_data_of (mi_heap q') = node_data_of (mi_heap q)"
proof -
  have l: "linked (mi_heap q) P ns" "distinct ns" "P \<subseteq> set (zip ns (tl ns))" using assms(1) by (auto simp: mpsci_shape_def)
  note ne = linked_nonempty [OF l(1)]
  obtain n where n: "mi_heap q a = Some n" using assms(3) by auto
  have "(b, a) \<notin> P" for b
    using l(3) assms(2) ne by (auto dest!: set_zip_rightD list.set_sel(2))
  then have "linked ((mi_heap q)(a \<mapsto> n\<lparr>n_next := None\<rparr>)) (insert (last ns, a) P) (ns @ [a])"
    using l assms(2) by (intro linked_snoc) auto
  moreover have "insert (last ns, a) P \<subseteq> set (zip (ns @ [a]) (tl (ns @ [a])))"
    unfolding set_zip_tl_snoc [OF ne] using l(3) by blast
  moreover have "node_data_of ((mi_heap q)(a \<mapsto> n\<lparr>n_next := None\<rparr>)) = node_data_of (mi_heap q)"
    using n by (auto simp: node_data_of_def)
  ultimately show ?thesis
    using assms n ne by (auto simp: mpsci_exchange_def set_link_def mpsci_shape_def simp del: fun_upd_apply)
qed

lemma shape_link:
  assumes "mpsci_shape q P ns" "(p, a) \<in> P"
  shows "\<exists>q'. set_link p (Some a) q = Done q' \<and> mpsci_shape q' (P - {(p, a)}) ns \<and>
    mi_dummy q' = mi_dummy q \<and> mi_tail q' = mi_tail q \<and> dom (mi_heap q') = dom (mi_heap q) \<and>
    node_data_of (mi_heap q') = node_data_of (mi_heap q)"
proof -
  have l: "linked (mi_heap q) P ns" "distinct ns" "(p, a) \<in> set (zip ns (tl ns))"
    using assms by (auto simp: mpsci_shape_def)
  then have "p \<in> set ns" by (metis set_zip_leftD)
  then obtain n where n: "mi_heap q p = Some n" using linked_live [OF l(1)] by auto
  have "node_data_of ((mi_heap q)(p \<mapsto> n\<lparr>n_next := Some a\<rparr>)) = node_data_of (mi_heap q)"
    using n by (auto simp: node_data_of_def)
  then show ?thesis using assms n linked_link [OF l n]
    by (auto simp: mpsci_shape_def set_link_def simp del: fun_upd_apply)
qed

section \<open>Any interleaving of producers and the consumer\<close>

text \<open>
  \<open>i_pending\<close>: the producers between their two accesses; \<open>i_pc\<close>: where the consumer is in its
  current call of \<open>Dequeue\<close>. A producer enqueues an object it has just made; an object that
  \<open>Dequeue\<close> hands out is deleted at once. \<open>i_enqd\<close> and \<open>i_deqd\<close> record what was enqueued and
  handed out.
\<close>

record 'a mpsci_sys =
  iq :: "'a mpsci"
  i_pending :: "(naddr \<times> naddr) set"
  i_pc :: dq_pc
  i_enqd :: "'a list"
  i_deqd :: "'a list"

definition mpsci_init :: "naddr \<Rightarrow> 'a mpsci_sys" where
  "mpsci_init d = \<lparr>iq = mpsci_new d, i_pending = {}, i_pc = AtFirst, i_enqd = [], i_deqd = []\<rparr>"

definition new_node :: "naddr \<Rightarrow> 'a \<Rightarrow> 'a mpsci \<Rightarrow> 'a mpsci" where
  "new_node a x q = q\<lparr>mi_heap := (mi_heap q)(a \<mapsto> \<lparr>n_data = Some x, n_next = None\<rparr>)\<rparr>"

inductive mpsci_step :: "'a mpsci_sys \<Rightarrow> 'a mpsci_sys \<Rightarrow> bool" where
  exchange: "a \<notin> dom (mi_heap (iq s)) \<Longrightarrow> mpsci_exchange a (new_node a x (iq s)) = Done (p, q') \<Longrightarrow>
     mpsci_step s (s\<lparr>iq := q', i_pending := insert (p, a) (i_pending s), i_enqd := i_enqd s @ [x]\<rparr>)"
| link: "(p, a) \<in> i_pending s \<Longrightarrow> set_link p (Some a) (iq s) = Done q' \<Longrightarrow>
     mpsci_step s (s\<lparr>iq := q', i_pending := i_pending s - {(p, a)}\<rparr>)"
| access: "dq_access (i_pc s) (iq s) = Done (pc', q') \<Longrightarrow> 0 < dq_rank (i_pc s) \<Longrightarrow>
     mpsci_step s (s\<lparr>iq := q', i_pc := pc'\<rparr>)"
| answer_false: "i_pc s = Returned None \<Longrightarrow> mpsci_step s (s\<lparr>i_pc := AtFirst\<rparr>)"
| answer_true: "i_pc s = Returned (Some t) \<Longrightarrow> node_data_of (mi_heap (iq s)) t = Some x \<Longrightarrow>
     delete_node t (iq s) = Done q' \<Longrightarrow>
     mpsci_step s (s\<lparr>iq := q', i_pc := AtFirst, i_deqd := i_deqd s @ [x]\<rparr>)"

inductive mpsci_reachable :: "naddr \<Rightarrow> 'a mpsci_sys \<Rightarrow> bool" for d where
  start: "mpsci_reachable d (mpsci_init d)"
| step: "mpsci_reachable d s \<Longrightarrow> mpsci_step s t \<Longrightarrow> mpsci_reachable d t"

text \<open>The consumer's own pending link, and what it knows at each place.\<close>

definition gaps :: "'a mpsci_sys \<Rightarrow> (naddr \<times> naddr) set" where
  "gaps s = i_pending s \<union> (case i_pc s of AtLink t p \<Rightarrow> {(p, mi_dummy (iq s))} | _ \<Rightarrow> {})"

text \<open>The object handed out but not deleted yet.\<close>

definition in_hand :: "dq_pc \<Rightarrow> naddr list" where
  "in_hand pc = (case pc of Returned (Some t) \<Rightarrow> [t] | _ \<Rightarrow> [])"

fun pc_ok :: "naddr \<Rightarrow> naddr list \<Rightarrow> (naddr \<times> naddr) set \<Rightarrow> dq_pc \<Rightarrow> bool" where
  "pc_ok d ns P AtFirst \<longleftrightarrow> True"
| "pc_ok d ns P (AtSecond t) \<longleftrightarrow> hd ns = t \<and> d \<notin> set ns"
| "pc_ok d ns P (AtHead t) \<longleftrightarrow> hd ns = t \<and> t \<noteq> d"
| "pc_ok d ns P (AtExchange t) \<longleftrightarrow> hd ns = t \<and> d \<notin> set ns"
| "pc_ok d ns P (AtLink t p) \<longleftrightarrow> hd ns = t \<and> t \<noteq> d \<and> (p, d) \<notin> P \<and> (p, d) \<in> set (zip ns (tl ns))"
| "pc_ok d ns P (AtThird t) \<longleftrightarrow> hd ns = t \<and> t \<noteq> d"
| "pc_ok d ns P (Returned r) \<longleftrightarrow> (case r of None \<Rightarrow> True | Some t \<Rightarrow> t \<notin> set ns \<and> t \<noteq> d)"

definition mpsci_inv :: "naddr \<Rightarrow> 'a mpsci_sys \<Rightarrow> naddr list \<Rightarrow> 'a list \<Rightarrow> bool" where
  "mpsci_inv d s ns xs \<longleftrightarrow>
     mpsci_shape (iq s) (gaps s) ns \<and> mi_dummy (iq s) = d \<and> pc_ok d ns (i_pending s) (i_pc s) \<and>
     set (in_hand (i_pc s)) \<subseteq> dom (mi_heap (iq s)) \<and>
     map (node_data_of (mi_heap (iq s))) (in_hand (i_pc s) @ queued (iq s) ns) = map Some xs \<and>
     i_enqd s = i_deqd s @ xs"

text \<open>The ways the consumer moves.\<close>

lemma inv_shape:
  assumes "mpsci_inv d s ns xs" "gaps s = P"
  shows "mpsci_shape (iq s) P ns" "mi_dummy (iq s) = d"
    "\<exists>ms. ns = mi_tail (iq s) # ms" "P \<subseteq> set (zip ns (tl ns))" "distinct ns"
  using assms shapeE [of "iq s" P ns] by (auto simp: mpsci_inv_def mpsci_shape_def)

lemma inv_stay:
  assumes "mpsci_inv d s ns xs" "gaps s = i_pending s" "in_hand (i_pc s) = []"
    and "pc_ok d ns (i_pending s) pc'" "in_hand pc' = []" "\<And>t p. pc' \<noteq> AtLink t p"
  shows "mpsci_inv d (s\<lparr>i_pc := pc'\<rparr>) ns xs"
  using assms by (cases pc') (auto simp: mpsci_inv_def gaps_def split: dq_pc.splits)

lemma gaps_simps:
  "i_pc s = AtFirst \<Longrightarrow> gaps s = i_pending s" "i_pc s = AtSecond t \<Longrightarrow> gaps s = i_pending s"
  "i_pc s = AtHead t \<Longrightarrow> gaps s = i_pending s" "i_pc s = AtExchange t \<Longrightarrow> gaps s = i_pending s"
  "i_pc s = AtThird t \<Longrightarrow> gaps s = i_pending s" "i_pc s = Returned r \<Longrightarrow> gaps s = i_pending s"
  "i_pc s = AtLink t p \<Longrightarrow> gaps s = insert (p, mi_dummy (iq s)) (i_pending s)"
  by (simp_all add: gaps_def)

lemma inv_skip_dummy:
  assumes "mpsci_inv d s (d # m # ms) xs" "gaps s = i_pending s" "in_hand (i_pc s) = []" "(d, m) \<notin> i_pending s"
  shows "mpsci_inv d (s\<lparr>iq := (iq s)\<lparr>mi_tail := m\<rparr>, i_pc := AtSecond m\<rparr>) (m # ms) xs"
  using assms shape_advance [of "iq s" "i_pending s" d m ms]
  by (auto simp: mpsci_inv_def gaps_simps in_hand_def queued_def mpsci_shape_def)

lemma inv_hand_out:
  assumes "mpsci_inv d s (t # m # ms) xs" "gaps s = i_pending s" "in_hand (i_pc s) = []"
    "(t, m) \<notin> i_pending s" "t \<noteq> d"
  shows "mpsci_inv d (s\<lparr>iq := (iq s)\<lparr>mi_tail := m\<rparr>, i_pc := Returned (Some t)\<rparr>) (m # ms) xs"
proof -
  have sh: "mpsci_shape (iq s) (i_pending s) (t # m # ms)" and d: "mi_dummy (iq s) = d"
    using assms by (auto simp: mpsci_inv_def)
  have "set (t # m # ms) \<subseteq> dom (mi_heap (iq s))" "distinct (t # m # ms)"
    using sh linked_live unfolding mpsci_shape_def by blast+
  then show ?thesis
    using assms shape_advance [OF sh assms(4)] d
    by (auto simp: mpsci_inv_def gaps_simps in_hand_def queued_def)
qed

text \<open>A load of the link of the first object, which is not the dummy.\<close>

lemma inv_load:
  assumes inv: "mpsci_inv d s ns xs" and "gaps s = i_pending s" "in_hand (i_pc s) = []" "hd ns = t" "t \<noteq> d"
    and "bind_outcome (load_link t (iq s)) (\<lambda>next. case next of
        None \<Rightarrow> Done (pcn, iq s) | Some n \<Rightarrow> Done (Returned (Some t), (iq s)\<lparr>mi_tail := n\<rparr>)) = Done (pc', q')"
    and "pcn = AtHead t \<or> pcn = Returned None"
  shows "\<exists>ns'. mpsci_inv d (s\<lparr>iq := q', i_pc := pc'\<rparr>) ns' xs"
proof -
  note sh = inv_shape [OF inv assms(2)]
  obtain ms where ns: "ns = t # ms" using sh(3) assms(4) by auto
  note ld = shape_load [OF sh(1) ns]
  show ?thesis
  proof (cases "load_link t (iq s) = Done None")
    case True
    then have "pc' = pcn" "q' = iq s" using assms(6) by auto
    then have "mpsci_inv d (s\<lparr>i_pc := pc'\<rparr>) ns xs"
      using assms(4,5,7) by (intro inv_stay [OF inv assms(2,3)]) (auto simp: in_hand_def)
    then show ?thesis using \<open>q' = iq s\<close> by auto
  next
    case False
    then obtain m ms' where m: "ms = m # ms'" "(t, m) \<notin> i_pending s" "load_link t (iq s) = Done (Some m)"
      using ld by (cases ms) (auto split: if_splits)
    then have "pc' = Returned (Some t)" "q' = (iq s)\<lparr>mi_tail := m\<rparr>" using assms(6) by auto
    then show ?thesis using inv_hand_out [of d s t m ms' xs] inv ns m assms(2,3,5) by auto
  qed
qed

lemma inv_access:
  assumes inv: "mpsci_inv d s ns xs" and acc: "dq_access (i_pc s) (iq s) = Done (pc', q')"
    and "0 < dq_rank (i_pc s)"
  shows "\<exists>ns'. mpsci_inv d (s\<lparr>iq := q', i_pc := pc'\<rparr>) ns' xs"
proof (cases "i_pc s")
  case AtFirst
  then have g: "gaps s = i_pending s" "in_hand (i_pc s) = []" by (simp_all add: gaps_def in_hand_def)
  note sh = inv_shape [OF inv g(1)]
  show ?thesis
  proof (cases "mi_tail (iq s) = d")
    case False
    then show ?thesis
      using acc AtFirst sh(2,3) by (intro inv_load [OF inv g, of _ "AtHead (mi_tail (iq s))"]) (auto simp: Let_def)
  next
    case True
    then obtain ms where ns: "ns = d # ms" using sh(3) by auto
    note ld = shape_load [OF sh(1) ns]
    show ?thesis
    proof (cases "load_link d (iq s) = Done None")
      case None: True
      then have "pc' = Returned None" "q' = iq s" using acc AtFirst True sh(2) by (auto simp: Let_def)
      moreover have "mpsci_inv d (s\<lparr>i_pc := Returned None\<rparr>) ns xs"
        by (rule inv_stay [OF inv g]) (auto simp: in_hand_def)
      ultimately show ?thesis by auto
    next
      case False
      then obtain m ms' where m: "ms = m # ms'" "(d, m) \<notin> i_pending s" "load_link d (iq s) = Done (Some m)"
        using ld by (cases ms) (auto split: if_splits)
      then have "pc' = AtSecond m" "q' = (iq s)\<lparr>mi_tail := m\<rparr>" using acc AtFirst True sh(2) by (auto simp: Let_def)
      then show ?thesis using inv_skip_dummy [of d s m ms' xs] inv ns m g by auto
    qed
  qed
next
  case (AtSecond t)
  then have g: "gaps s = i_pending s" "in_hand (i_pc s) = []" by (simp_all add: gaps_def in_hand_def)
  have "hd ns = t" "t \<noteq> d"
    using inv AtSecond inv_shape(3) [OF inv g(1)] by (auto simp: mpsci_inv_def)
  then show ?thesis using acc AtSecond by (intro inv_load [OF inv g, of t "AtHead t"]) auto
next
  case (AtThird t)
  then have g: "gaps s = i_pending s" "in_hand (i_pc s) = []" by (simp_all add: gaps_def in_hand_def)
  have "hd ns = t" "t \<noteq> d" using inv AtThird by (auto simp: mpsci_inv_def)
  then show ?thesis using acc AtThird by (intro inv_load [OF inv g, of t "Returned None"]) auto
next
  case (AtHead t)
  then have g: "gaps s = i_pending s" "in_hand (i_pc s) = []" by (simp_all add: gaps_def in_hand_def)
  note sh = inv_shape [OF inv g(1)]
  have t: "hd ns = t" "t \<noteq> d" using inv AtHead by (auto simp: mpsci_inv_def)
  have "d \<notin> set ns" if "t = mi_head (iq s)"
  proof -
    obtain ms where "ns = t # ms" using sh(3) t(1) by auto
    moreover have "last ns = t" using sh(1) that by (simp add: mpsci_shape_def)
    ultimately show ?thesis using sh(5) t(2) by (cases ms) (auto split: if_splits)
  qed
  then have "mpsci_inv d (s\<lparr>i_pc := pc'\<rparr>) ns xs"
    using acc AtHead t by (intro inv_stay [OF inv g]) (auto simp: in_hand_def split: if_splits)
  then show ?thesis using acc AtHead by (auto split: if_splits)
next
  case (AtExchange t)
  then have g: "gaps s = i_pending s" "in_hand (i_pc s) = []" by (simp_all add: gaps_def in_hand_def)
  note sh = inv_shape [OF inv g(1)]
  have t: "hd ns = t" "d \<notin> set ns" using inv AtExchange by (auto simp: mpsci_inv_def)
  obtain ms where ns: "ns = t # ms" using sh(3) t(1) by auto
  have "d \<in> dom (mi_heap (iq s))" using sh(1,2) by (auto simp: mpsci_shape_def)
  then obtain q2 where q2: "mpsci_exchange d (iq s) = Done (last ns, q2)"
    "mpsci_shape q2 (insert (last ns, d) (i_pending s)) (ns @ [d])" "mi_dummy q2 = d"
    "node_data_of (mi_heap q2) = node_data_of (mi_heap (iq s))"
    using shape_exchange [OF sh(1) t(2)] sh(2) by auto
  have "(last ns, d) \<notin> i_pending s"
    using sh(4) t(2) ns by (auto dest!: set_zip_rightD)
  moreover have "(last ns, d) \<in> set (zip (ns @ [d]) (tl (ns @ [d])))"
    using set_zip_tl_snoc [of ns d] ns by simp
  ultimately have "mpsci_inv d (s\<lparr>iq := q2, i_pc := AtLink t (last ns)\<rparr>) (ns @ [d]) xs"
    using inv q2 t ns sh(2) AtExchange by (auto simp: mpsci_inv_def gaps_def in_hand_def queued_def)
  moreover have "pc' = AtLink t (last ns)" "q' = q2" using acc AtExchange q2(1) sh(2) by auto
  ultimately show ?thesis by auto
next
  case (AtLink t p)
  then have g: "gaps s = insert (p, d) (i_pending s)" "in_hand (i_pc s) = []"
    using inv by (auto simp: gaps_def in_hand_def mpsci_inv_def)
  note sh = inv_shape [OF inv g(1)]
  have t: "hd ns = t" "t \<noteq> d" "(p, d) \<notin> i_pending s" using inv AtLink by (auto simp: mpsci_inv_def)
  obtain q2 where q2: "set_link p (Some d) (iq s) = Done q2" "mpsci_shape q2 (i_pending s) ns" "mi_dummy q2 = d"
    "node_data_of (mi_heap q2) = node_data_of (mi_heap (iq s))"
    using shape_link [OF sh(1), of p d] sh(2) t(3) by auto
  then have "mpsci_inv d (s\<lparr>iq := q2, i_pc := AtThird t\<rparr>) ns xs"
    using inv t AtLink sh(2) by (auto simp: mpsci_inv_def gaps_def in_hand_def queued_def)
  moreover have "pc' = AtThird t" "q' = q2" using acc AtLink q2(1) sh(2) by auto
  ultimately show ?thesis by auto
qed (use assms(3) in simp)


text \<open>The moves of the producers and of the caller of \<open>Dequeue\<close>.\<close>

lemma inv_exchange:
  assumes inv: "mpsci_inv d s ns xs" and a: "a \<notin> dom (mi_heap (iq s))"
    and ex: "mpsci_exchange a (new_node a x (iq s)) = Done (p, q')"
  shows "mpsci_inv d (s\<lparr>iq := q', i_pending := insert (p, a) (i_pending s), i_enqd := i_enqd s @ [x]\<rparr>)
    (ns @ [a]) (xs @ [x])"
proof -
  let ?q = "new_node a x (iq s)"
  have sh: "mpsci_shape (iq s) (gaps s) ns" and d: "mi_dummy (iq s) = d" "d \<in> dom (mi_heap (iq s))"
    using inv by (auto simp: mpsci_inv_def mpsci_shape_def)
  have live: "set ns \<subseteq> dom (mi_heap (iq s))" and ne: "ns \<noteq> []"
    using sh linked_live linked_nonempty unfolding mpsci_shape_def by blast+
  have "linked (mi_heap ?q) (gaps s) ns = linked (mi_heap (iq s)) (gaps s) ns"
    using live a by (intro linked_cong) (auto simp: new_node_def)
  then have sh1: "mpsci_shape ?q (gaps s) ns" using sh by (auto simp: mpsci_shape_def new_node_def)
  have fresh: "a \<notin> set ns" "a \<noteq> d" "a \<notin> set (in_hand (i_pc s))"
    using live a d inv by (auto simp: mpsci_inv_def)
  obtain q2 where q2: "mpsci_exchange a ?q = Done (last ns, q2)" "mpsci_shape q2 (insert (last ns, a) (gaps s)) (ns @ [a])"
    "mi_dummy q2 = d" "dom (mi_heap q2) = dom (mi_heap ?q)" "node_data_of (mi_heap q2) = node_data_of (mi_heap ?q)"
    using shape_exchange [OF sh1 fresh(1)] d by (auto simp: new_node_def)
  have q': "p = last ns" "q' = q2" using ex q2(1) by auto
  have "gaps (s\<lparr>iq := q', i_pending := insert (p, a) (i_pending s), i_enqd := i_enqd s @ [x]\<rparr>) = insert (p, a) (gaps s)"
    using q' q2(3) d by (auto simp: gaps_def split: dq_pc.splits)
  moreover have "pc_ok d (ns @ [a]) (insert (p, a) (i_pending s)) (i_pc s)"
    using inv fresh ne set_zip_tl_snoc [OF ne, of a]
    by (cases "i_pc s") (auto simp: mpsci_inv_def in_hand_def split: option.splits)
  moreover have "map (node_data_of (mi_heap q2)) (in_hand (i_pc s) @ queued q2 (ns @ [a])) = map Some (xs @ [x])"
  proof -
    have "map (node_data_of (mi_heap q2)) (in_hand (i_pc s) @ queued (iq s) ns) =
        map (node_data_of (mi_heap (iq s))) (in_hand (i_pc s) @ queued (iq s) ns)"
      using fresh unfolding q2(5) by (auto simp: new_node_def node_data_of_def queued_def)
    also have "\<dots> = map Some xs" using inv by (simp add: mpsci_inv_def)
    finally show ?thesis
      using q2(3) d fresh unfolding q2(5) by (simp add: queued_def new_node_def node_data_of_def)
  qed
  moreover have "set (in_hand (i_pc s)) \<subseteq> dom (mi_heap q2)" "i_enqd s @ [x] = i_deqd s @ xs @ [x]"
    using inv q2(4) by (auto simp: mpsci_inv_def new_node_def)
  ultimately show ?thesis
    using q' q2(2,3) by (simp add: mpsci_inv_def)
qed

lemma inv_link:
  assumes inv: "mpsci_inv d s ns xs" and "(p, a) \<in> i_pending s" "set_link p (Some a) (iq s) = Done q'"
  shows "mpsci_inv d (s\<lparr>iq := q', i_pending := i_pending s - {(p, a)}\<rparr>) ns xs"
proof -
  have sh: "mpsci_shape (iq s) (gaps s) ns" and d: "mi_dummy (iq s) = d"
    using inv by (auto simp: mpsci_inv_def)
  have "(p, a) \<in> gaps s" using assms(2) by (simp add: gaps_def)
  from shape_link [OF sh this] assms(3)
  have q': "mpsci_shape q' (gaps s - {(p, a)}) ns" "mi_dummy q' = mi_dummy (iq s)"
    "dom (mi_heap q') = dom (mi_heap (iq s))" "node_data_of (mi_heap q') = node_data_of (mi_heap (iq s))"
    by simp_all
  have "gaps (s\<lparr>iq := q', i_pending := i_pending s - {(p, a)}\<rparr>) = gaps s - {(p, a)}"
    using inv assms(2) q'(2) d by (cases "i_pc s") (auto simp: gaps_def mpsci_inv_def)
  moreover have "pc_ok d ns (i_pending s - {(p, a)}) (i_pc s)"
    using inv by (cases "i_pc s") (auto simp: mpsci_inv_def)
  ultimately show ?thesis using inv q' d by (auto simp: mpsci_inv_def queued_def)
qed

lemma inv_answer_true:
  assumes inv: "mpsci_inv d s ns xs" and pc: "i_pc s = Returned (Some t)"
    and "node_data_of (mi_heap (iq s)) t = Some x" "delete_node t (iq s) = Done q'"
  shows "mpsci_inv d (s\<lparr>iq := q', i_pc := AtFirst, i_deqd := i_deqd s @ [x]\<rparr>) ns (tl xs)"
proof -
  have t: "t \<notin> set ns" "t \<noteq> d" "mi_dummy (iq s) = d" using inv pc by (auto simp: mpsci_inv_def)
  have q': "q' = (iq s)\<lparr>mi_heap := (mi_heap (iq s))(t := None)\<rparr>"
    using assms(4) by (auto simp: delete_node_def split: if_splits)
  have "map Some xs = Some x # map (node_data_of (mi_heap (iq s))) (queued (iq s) ns)"
    using inv pc assms(3) by (simp add: mpsci_inv_def in_hand_def)
  then have xs: "xs = x # tl xs" "map (node_data_of (mi_heap (iq s))) (queued (iq s) ns) = map Some (tl xs)"
    by (cases xs; auto)+
  moreover have "map (node_data_of (mi_heap q')) (queued (iq s) ns) = map (node_data_of (mi_heap (iq s))) (queued (iq s) ns)"
    using t(1) unfolding q' by (intro map_cong refl) (auto simp: node_data_of_def queued_def)
  moreover have "mpsci_shape q' (i_pending s) ns"
    using shape_delete [of "iq s" "i_pending s" ns t] inv pc t by (simp add: mpsci_inv_def gaps_simps q')
  ultimately show ?thesis
    using inv pc by (auto simp: mpsci_inv_def gaps_simps in_hand_def queued_def q')
qed

lemma mpsci_step_inv:
  assumes "mpsci_step s s'" "mpsci_inv d s ns xs"
  shows "\<exists>ns' xs'. mpsci_inv d s' ns' xs'"
  using assms
proof cases
  case (exchange a x p q')
  then show ?thesis using inv_exchange [OF assms(2)] by blast
next
  case (link p a q')
  then show ?thesis using inv_link [OF assms(2)] by blast
next
  case (access pc' q')
  then show ?thesis using inv_access [OF assms(2)] by blast
next
  case answer_false
  then have "mpsci_inv d s' ns xs"
    using inv_stay [OF assms(2), of AtFirst] by (simp add: gaps_simps in_hand_def)
  then show ?thesis by blast
next
  case (answer_true t x q')
  then show ?thesis using inv_answer_true [OF assms(2)] by blast
qed

lemma init_inv: "mpsci_inv d (mpsci_init d) [d] []"
  using shape_new [of d] by (simp add: mpsci_inv_def mpsci_init_def gaps_def in_hand_def queued_def mpsci_new_def)

lemma mpsci_reachable_inv: "mpsci_reachable d s \<Longrightarrow> \<exists>ns xs. mpsci_inv d s ns xs"
  by (induction rule: mpsci_reachable.induct) (use init_inv mpsci_step_inv in blast)+

text \<open>No access of a reachable queue is to an object that is gone.\<close>

lemma inv_access_defined:
  assumes inv: "mpsci_inv d s ns xs"
  shows "\<exists>pc' q'. dq_access (i_pc s) (iq s) = Done (pc', q')"
proof -
  have sh: "mpsci_shape (iq s) (gaps s) ns" and d: "mi_dummy (iq s) = d" "d \<in> dom (mi_heap (iq s))"
    using inv by (auto simp: mpsci_inv_def mpsci_shape_def)
  obtain ms where ns: "ns = mi_tail (iq s) # ms" using shapeE [OF sh] by blast
  have live: "set ns \<subseteq> dom (mi_heap (iq s))" using sh linked_live unfolding mpsci_shape_def by blast
  obtain v where ld: "load_link (hd ns) (iq s) = Done v" using shape_load [OF sh ns] ns by auto
  show ?thesis
  proof (cases "i_pc s")
    case AtFirst
    then show ?thesis using ld ns by (cases v; cases "mi_tail (iq s) = mi_dummy (iq s)") (auto simp: Let_def)
  next
    case (AtLink t p)
    then have "(p, d) \<in> set (zip ns (tl ns))" using inv by (simp add: mpsci_inv_def)
    then have "p \<in> dom (mi_heap (iq s))" using live by (blast dest: set_zip_leftD)
    then show ?thesis using AtLink by (auto simp: set_link_def)
  next
    case (AtExchange t)
    then show ?thesis using d by (auto simp: mpsci_exchange_def set_link_def)
  qed (use ld inv in \<open>cases v; auto simp: mpsci_inv_def\<close>)+
qed


section \<open>One thread: the queue is a list\<close>

text \<open>With no producer in between, \<open>Dequeue\<close> from an object that is not the dummy hands it out.\<close>

lemma dq_run_object:
  assumes sh: "mpsci_shape q {} (t # ms)" and t: "t \<noteq> mi_dummy q"
  shows "\<exists>q'. dq_run (AtSecond t) q = Done (Some t, q') \<and>
    mpsci_shape q' {} (if ms = [] then [mi_dummy q] else ms) \<and> mi_dummy q' = mi_dummy q \<and>
    dom (mi_heap q') = dom (mi_heap q) \<and> node_data_of (mi_heap q') = node_data_of (mi_heap q)"
proof (cases ms)
  case (Cons m ms')
  then show ?thesis using shape_load [OF sh refl] shape_advance [of q "{}" t m ms'] sh by auto
next
  case Nil
  have sh: "mpsci_shape q {} [t]" using sh Nil by simp
  have "mi_dummy q \<notin> set [t]" "mi_dummy q \<in> dom (mi_heap q)" using t sh by (auto simp: mpsci_shape_def)
  then obtain q1 where q1: "mpsci_exchange (mi_dummy q) q = Done (t, q1)"
    "mpsci_shape q1 {(t, mi_dummy q)} [t, mi_dummy q]" "mi_dummy q1 = mi_dummy q"
    "dom (mi_heap q1) = dom (mi_heap q)" "node_data_of (mi_heap q1) = node_data_of (mi_heap q)"
    using shape_exchange [OF sh] by auto
  obtain q2 where q2: "set_link t (Some (mi_dummy q)) q1 = Done q2" "mpsci_shape q2 {} [t, mi_dummy q]"
    "mi_dummy q2 = mi_dummy q" "dom (mi_heap q2) = dom (mi_heap q)" "node_data_of (mi_heap q2) = node_data_of (mi_heap q)"
    using shape_link [OF q1(2), of t "mi_dummy q"] q1 by auto
  have "load_link t q = Done None" "load_link t q2 = Done (Some (mi_dummy q))"
    using shape_load [OF sh refl] shape_load [OF q2(2) refl] by simp_all
  moreover have "mi_head q = t" using sh by (simp add: mpsci_shape_def)
  ultimately show ?thesis
    using Nil q1 q2 shape_advance [OF q2(2)] by auto
qed

lemma mpsci_dequeue_shape:
  assumes sh: "mpsci_shape q {} ns"
  shows "case queued q ns of
      [] \<Rightarrow> mpsci_dequeue q = Done (None, q)
    | t # ts \<Rightarrow> \<exists>q' ns'. mpsci_dequeue q = Done (Some t, q') \<and> mpsci_shape q' {} ns' \<and> queued q' ns' = ts \<and>
        t \<notin> set ns' \<and> mi_dummy q' = mi_dummy q \<and> dom (mi_heap q') = dom (mi_heap q) \<and>
        node_data_of (mi_heap q') = node_data_of (mi_heap q)"
proof -
  obtain ms where ns: "ns = mi_tail q # ms" and di: "distinct (mi_tail q # ms)" using shapeE [OF sh] by blast
  note ld = shape_load [OF sh ns]
  show ?thesis
  proof (cases "mi_tail q = mi_dummy q")
    case False
    then have "mpsci_dequeue q = dq_run (AtSecond (mi_tail q)) q" by (simp add: mpsci_dequeue_def Let_def)
    moreover obtain q' where "dq_run (AtSecond (mi_tail q)) q = Done (Some (mi_tail q), q')"
      "mpsci_shape q' {} (if ms = [] then [mi_dummy q] else ms)" "mi_dummy q' = mi_dummy q"
      "dom (mi_heap q') = dom (mi_heap q)" "node_data_of (mi_heap q') = node_data_of (mi_heap q)"
      using dq_run_object [OF sh [unfolded ns] False] by blast
    ultimately show ?thesis
      using False ns di
      by (cases "ms = []") (auto simp: queued_def intro!: exI [of _ "if ms = [] then [mi_dummy q] else ms"])
  next
    case True
    show ?thesis
    proof (cases ms)
      case Nil
      then show ?thesis using True ld ns by (simp add: mpsci_dequeue_def queued_def Let_def)
    next
      case (Cons m ms')
      then have m: "m \<noteq> mi_dummy q" "mi_dummy q \<notin> set ms" using di True by auto
      let ?q = "q\<lparr>mi_tail := m\<rparr>"
      have "mpsci_dequeue q = dq_run (AtSecond m) ?q"
        using True ld Cons by (simp add: mpsci_dequeue_def Let_def)
      moreover have s1: "mpsci_shape ?q {} (m # ms')"
        using shape_advance [of q "{}" "mi_tail q" m ms'] sh ns Cons by simp
      moreover have "m \<noteq> mi_dummy ?q" using m(1) by simp
      from dq_run_object [OF s1 this] obtain q' where "dq_run (AtSecond m) ?q = Done (Some m, q')"
        "mpsci_shape q' {} (if ms' = [] then [mi_dummy ?q] else ms')" "mi_dummy q' = mi_dummy ?q"
        "dom (mi_heap q') = dom (mi_heap ?q)" "node_data_of (mi_heap q') = node_data_of (mi_heap ?q)"
        by blast
      moreover have "queued q ns = m # ms'" using ns Cons True m by (auto simp: queued_def filter_id_conv)
      moreover have "queued q' (if ms' = [] then [mi_dummy q] else ms') = ms'" if "mi_dummy q' = mi_dummy q" for q'
        using that m(2) Cons by (auto simp: queued_def filter_id_conv)
      ultimately show ?thesis
        using m di Cons by (cases "ms' = []") (auto intro!: exI [of _ "if ms' = [] then [mi_dummy q] else ms'"])
    qed
  qed
qed



lemma mpsci_enqueue_shape:
  assumes sh: "mpsci_shape q {} ns" and a: "a \<notin> set ns" "a \<in> dom (mi_heap q)"
  shows "\<exists>q'. mpsci_enqueue a q = Done q' \<and> mpsci_shape q' {} (ns @ [a]) \<and> mi_dummy q' = mi_dummy q \<and>
    dom (mi_heap q') = dom (mi_heap q) \<and> node_data_of (mi_heap q') = node_data_of (mi_heap q)"
proof -
  obtain q1 where q1: "mpsci_exchange a q = Done (last ns, q1)" "mpsci_shape q1 {(last ns, a)} (ns @ [a])"
    "mi_dummy q1 = mi_dummy q" "dom (mi_heap q1) = dom (mi_heap q)" "node_data_of (mi_heap q1) = node_data_of (mi_heap q)"
    using shape_exchange [OF sh a] by blast
  then show ?thesis using shape_link [OF q1(2), of "last ns" a] by (auto simp: mpsci_enqueue_def)
qed

text \<open>
  A client of one thread: it makes an object where no object is, enqueues it, and deletes
  what it dequeues. The number beside the queue is above every address in use.
\<close>

definition mpsci_put :: "'a \<Rightarrow> naddr \<times> 'a mpsci \<Rightarrow> (naddr \<times> 'a mpsci) outcome" where
  "mpsci_put x kq =
     bind_outcome (mpsci_enqueue (fst kq) (new_node (fst kq) x (snd kq))) (\<lambda>q. Done (Suc (fst kq), q))"

definition mpsci_get :: "naddr \<times> 'a mpsci \<Rightarrow> ('a option \<times> naddr \<times> 'a mpsci) outcome" where
  "mpsci_get kq =
     bind_outcome (mpsci_dequeue (snd kq)) (\<lambda>(r, q1).
       case r of
         None \<Rightarrow> Done (None, fst kq, q1)
       | Some t \<Rightarrow>
           (case node_data_of (mi_heap q1) t of
              None \<Rightarrow> Undefined
            | Some x \<Rightarrow> bind_outcome (delete_node t q1) (\<lambda>q2. Done (Some x, fst kq, q2))))"

fun chain :: "nat \<Rightarrow> (naddr \<rightharpoonup> 'a mp_node) \<Rightarrow> naddr option \<Rightarrow> naddr list" where
  "chain (Suc k) h (Some a) = (case h a of None \<Rightarrow> [] | Some n \<Rightarrow> a # chain k h (n_next n))"
| "chain k h p = []"

definition mpsci_items :: "naddr \<times> 'a mpsci \<Rightarrow> 'a list" where
  "mpsci_items kq =
     map (\<lambda>a. the (node_data_of (mi_heap (snd kq)) a))
       (queued (snd kq) (chain (fst kq) (mi_heap (snd kq)) (Some (mi_tail (snd kq)))))"

definition holds :: "'a mpsci \<Rightarrow> naddr list \<Rightarrow> 'a list \<Rightarrow> bool" where
  "holds q ns xs \<longleftrightarrow> mpsci_shape q {} ns \<and> map (node_data_of (mi_heap q)) (queued q ns) = map Some xs"

definition mpsci_quiet :: "naddr \<times> 'a mpsci \<Rightarrow> bool" where
  "mpsci_quiet kq \<longleftrightarrow> dom (mi_heap (snd kq)) \<subseteq> {..<fst kq} \<and> (\<exists>ns xs. holds (snd kq) ns xs)"

lemma chain_None [simp]: "chain k h None = []"
  by (cases k) auto

lemma chain_linked: "linked h {} ns \<Longrightarrow> length ns \<le> k \<Longrightarrow> chain k h (Some (hd ns)) = ns"
proof (induction ns arbitrary: k)
  case (Cons a ns)
  then obtain k' where "k = Suc k'" by (cases k) auto
  then show ?case using Cons by (cases ns) auto
qed simp

lemma mpsci_items_holds:
  assumes "holds q ns xs" "dom (mi_heap q) \<subseteq> {..<k}"
  shows "mpsci_items (k, q) = xs"
proof -
  have l: "linked (mi_heap q) {} ns" "distinct ns" "hd ns = mi_tail q"
    using assms(1) by (auto simp: holds_def mpsci_shape_def)
  have "set ns \<subseteq> {..<k}" using linked_live [OF l(1)] assms(2) by auto
  then have "card (set ns) \<le> k" by (metis card_lessThan card_mono finite_lessThan)
  then have "chain k (mi_heap q) (Some (mi_tail q)) = ns"
    using chain_linked [OF l(1), of k] l(2,3) by (simp add: distinct_card)
  moreover have "map (\<lambda>a. the (node_data_of (mi_heap q) a)) (queued q ns) = xs"
    using arg_cong [of _ _ "map the", OF assms(1) [unfolded holds_def, THEN conjunct2]] by (simp add: comp_def)
  ultimately show ?thesis by (simp add: mpsci_items_def)
qed

lemma mpsci_quietE:
  assumes "mpsci_quiet kq"
  obtains k q ns where "kq = (k, q)" "holds q ns (mpsci_items kq)" "dom (mi_heap q) \<subseteq> {..<k}"
  using assms mpsci_items_holds by (cases kq) (fastforce simp: mpsci_quiet_def)

lemma mpsci_put_holds:
  assumes "holds q ns xs" "dom (mi_heap q) \<subseteq> {..<k}"
  shows "\<exists>q'. mpsci_put x (k, q) = Done (Suc k, q') \<and> holds q' (ns @ [k]) (xs @ [x]) \<and> dom (mi_heap q') \<subseteq> {..<Suc k}"
proof -
  let ?q = "new_node k x q"
  have sh: "mpsci_shape q {} ns" and nd: "map (node_data_of (mi_heap q)) (queued q ns) = map Some xs"
    using assms(1) by (auto simp: holds_def)
  have live: "set ns \<subseteq> dom (mi_heap q)" using sh linked_live unfolding mpsci_shape_def by blast
  then have k: "k \<notin> set ns" "k \<notin> dom (mi_heap q)" "k \<noteq> mi_dummy q"
    using assms(2) sh by (auto simp: mpsci_shape_def)
  have "linked (mi_heap ?q) {} ns = linked (mi_heap q) {} ns"
    using k by (intro linked_cong) (auto simp: new_node_def)
  then have "mpsci_shape ?q {} ns" using sh by (auto simp: mpsci_shape_def new_node_def)
  then obtain q' where q': "mpsci_enqueue k ?q = Done q'" "mpsci_shape q' {} (ns @ [k])" "mi_dummy q' = mi_dummy q"
    "dom (mi_heap q') = insert k (dom (mi_heap q))" "node_data_of (mi_heap q') = node_data_of (mi_heap ?q)"
    using mpsci_enqueue_shape [of ?q ns k] k by (auto simp: new_node_def)
  have "map (node_data_of (mi_heap q')) (queued q ns) = map (node_data_of (mi_heap q)) (queued q ns)"
    using k unfolding q'(5) by (auto simp: new_node_def node_data_of_def queued_def)
  with nd have "map (node_data_of (mi_heap q')) (queued q ns) = map Some xs" by simp
  moreover have "queued q' (ns @ [k]) = queued q ns @ [k]" using q'(3) k by (simp add: queued_def)
  moreover have "node_data_of (mi_heap q') k = Some x"
    unfolding q'(5) by (simp add: new_node_def node_data_of_def)
  ultimately have "holds q' (ns @ [k]) (xs @ [x])"
    using q'(2) by (simp add: holds_def)
  then show ?thesis using q' assms(2) by (auto simp: mpsci_put_def)
qed

lemma mpsci_get_holds:
  assumes "holds q ns xs"
  shows "case xs of
      [] \<Rightarrow> mpsci_get (k, q) = Done (None, k, q) \<and> mpsci_dequeue q = Done (None, q)
    | x # ys \<Rightarrow> \<exists>t q1 q' ns'. mpsci_dequeue q = Done (Some t, q1) \<and> delete_node t q1 = Done q' \<and>
        node_data_of (mi_heap q1) t = Some x \<and> mpsci_get (k, q) = Done (Some x, k, q') \<and> holds q' ns' ys \<and>
        dom (mi_heap q') = dom (mi_heap q) - {t} \<and> t = hd (queued q ns) \<and> queued q' ns' = tl (queued q ns) \<and>
        mi_dummy q' = mi_dummy q"
proof (cases xs)
  case Nil
  then show ?thesis
    using mpsci_dequeue_shape [of q ns] assms by (auto simp: holds_def mpsci_get_def)
next
  case (Cons x ys)
  then obtain t ts where ts: "queued q ns = t # ts" "node_data_of (mi_heap q) t = Some x"
    "map (node_data_of (mi_heap q)) ts = map Some ys" using assms by (auto simp: holds_def)
  then obtain q1 ns' where q1: "mpsci_dequeue q = Done (Some t, q1)" "mpsci_shape q1 {} ns'" "queued q1 ns' = ts"
    "t \<notin> set ns'" "mi_dummy q1 = mi_dummy q" "dom (mi_heap q1) = dom (mi_heap q)"
    "node_data_of (mi_heap q1) = node_data_of (mi_heap q)"
    using mpsci_dequeue_shape [of q ns] assms by (auto simp: holds_def)
  let ?q = "q1\<lparr>mi_heap := (mi_heap q1)(t := None)\<rparr>"
  have "t \<in> set (queued q ns)" using ts(1) by simp
  then have t: "t \<noteq> mi_dummy q1" using q1(5) by (simp add: queued_def)
  have "t \<in> dom (mi_heap q1)"
    using ts(2) unfolding q1(7) [symmetric] by (auto simp: node_data_of_def bind_eq_Some_conv)
  then have del: "delete_node t q1 = Done ?q" by (auto simp: delete_node_def)
  have "map (node_data_of (mi_heap ?q)) ts = map (node_data_of (mi_heap q1)) ts"
    using q1(3,4) by (auto simp: node_data_of_def queued_def)
  then have "holds ?q ns' ys"
    using shape_delete [OF q1(2,4) t] ts(3) q1(3,7) by (simp add: holds_def queued_def)
  then show ?thesis
    using Cons q1 ts del by (auto simp: mpsci_get_def queued_def simp del: fun_upd_apply)
qed

interpretation mpsci: fifo_queue mpsci_items mpsci_quiet mpsci_put mpsci_get
proof unfold_locales
  fix kq :: "naddr \<times> 'a mpsci" and x
  assume "mpsci_quiet kq"
  then obtain k q ns where q: "kq = (k, q)" "holds q ns (mpsci_items kq)" "dom (mi_heap q) \<subseteq> {..<k}"
    by (rule mpsci_quietE)
  obtain q' where "mpsci_put x kq = Done (Suc k, q')" "holds q' (ns @ [k]) (mpsci_items kq @ [x])"
    "dom (mi_heap q') \<subseteq> {..<Suc k}" using mpsci_put_holds [OF q(2,3)] q(1) by blast
  then show "\<exists>kq'. mpsci_put x kq = Done kq' \<and> mpsci_quiet kq' \<and> mpsci_items kq' = mpsci_items kq @ [x]"
    using mpsci_items_holds by (fastforce simp: mpsci_quiet_def)
next
  fix kq :: "naddr \<times> 'a mpsci"
  assume a: "mpsci_quiet kq" "mpsci_items kq = []"
  then obtain k q ns where q: "kq = (k, q)" "holds q ns []" by (metis mpsci_quietE)
  have "mpsci_get kq = Done (None, kq)" using mpsci_get_holds [OF q(2), of k] q(1) by simp
  then show "\<exists>kq'. mpsci_get kq = Done (None, kq') \<and> mpsci_quiet kq' \<and> mpsci_items kq' = []"
    using a by simp
next
  fix kq :: "naddr \<times> 'a mpsci" and x xs
  assume a: "mpsci_quiet kq" "mpsci_items kq = x # xs"
  then obtain k q ns where q: "kq = (k, q)" "holds q ns (x # xs)" "dom (mi_heap q) \<subseteq> {..<k}"
    by (metis mpsci_quietE)
  obtain t q' ns' where "mpsci_get kq = Done (Some x, k, q')" "holds q' ns' xs" "dom (mi_heap q') = dom (mi_heap q) - {t}"
    using mpsci_get_holds [OF q(2), of k] unfolding q(1) list.case by blast
  moreover from this(3) q(3) have "dom (mi_heap q') \<subseteq> {..<k}" by blast
  ultimately show "\<exists>kq'. mpsci_get kq = Done (Some x, kq') \<and> mpsci_quiet kq' \<and> mpsci_items kq' = xs"
    using mpsci_items_holds by (fastforce simp: mpsci_quiet_def)
qed



text \<open>The destructor deletes the queued objects, in order, and leaves only the dummy.\<close>

lemma mpsci_destroy_holds:
  assumes "holds q ns xs" "length xs < fuel"
  shows "\<exists>q'. mpsci_destroy fuel q = Some (Done (queued q ns, q')) \<and>
    dom (mi_heap q') = dom (mi_heap q) - set (queued q ns)"
  using assms
proof (induction xs arbitrary: q ns fuel)
  case Nil
  then obtain f where f: "fuel = Suc f" by (cases fuel) auto
  have "queued q ns = []" using Nil.prems(1) by (simp add: holds_def)
  then show ?case using f mpsci_get_holds [OF Nil.prems(1)] by simp
next
  case (Cons x xs)
  then obtain f where f: "fuel = Suc f" by (cases fuel) auto
  obtain t q1 q2 ns' where q: "mpsci_dequeue q = Done (Some t, q1)" "delete_node t q1 = Done q2" "holds q2 ns' xs"
    "dom (mi_heap q2) = dom (mi_heap q) - {t}" "t = hd (queued q ns)" "queued q2 ns' = tl (queued q ns)"
    using mpsci_get_holds [OF Cons.prems(1), of 0] unfolding list.case by blast
  obtain q' where q': "mpsci_destroy f q2 = Some (Done (queued q2 ns', q'))"
    "dom (mi_heap q') = dom (mi_heap q2) - set (queued q2 ns')"
    using Cons.IH [OF q(3), of f] Cons.prems(2) f by auto
  have "queued q ns \<noteq> []" using Cons.prems(1) by (auto simp: holds_def)
  then have "queued q ns = t # queued q2 ns'" using q(5,6) by simp
  then show ?case using f q(1,2,4) q' by auto
qed

section \<open>What the queue promises\<close>


text \<open>The witness: the producer of the object at 1 has not linked it yet.\<close>

definition mpsci_demo :: "nat mpsci_sys" where
  "mpsci_demo =
     \<lparr>iq = \<lparr>mi_heap = [0 \<mapsto> \<lparr>n_data = None, n_next = None\<rparr>, 1 \<mapsto> \<lparr>n_data = Some 5, n_next = None\<rparr>],
            mi_dummy = 0, mi_head = 1, mi_tail = 0\<rparr>,
      i_pending = {(0, 1)}, i_pc = AtFirst, i_enqd = [5], i_deqd = []\<rparr>"

lemma mpsci_demo_reachable: "mpsci_reachable 0 mpsci_demo"
proof -
  have "mpsci_step (mpsci_init 0 :: nat mpsci_sys) mpsci_demo"
    using mpsci_step.exchange [of 1 "mpsci_init 0 :: nat mpsci_sys" 5 0 "iq mpsci_demo"]
    by (simp add: mpsci_init_def mpsci_new_def mpsci_demo_def mpsci_exchange_def set_link_def new_node_def)
  then show ?thesis by (rule mpsci_reachable.step [OF mpsci_reachable.start])
qed



end
