(* ===== verification/Thread_Pool.thy ===== *)
theory Thread_Pool
  imports Prelude
begin

text \<open>
  Self-Study/ThreadPool.h: worker threads that take tasks from one queue under a mutex and
  a condition variable, \<open>commit\<close> which appends a task, and \<open>stop\<close> (run by the
  destructor), which sets the atomic \<open>stop_\<close>, notifies all and joins.

  A state has the shared members, the program counter of each worker, the commits in
  flight and how far \<open>stop\<close> has come. Each rule of \<open>pool_step\<close> is one atomic action of one
  thread: an access to an atomic, a critical section of \<open>cv_mt_\<close>, a notification. What the
  two halves of \<open>cv_lock_.wait(cv_mt, pred)\<close> do is kept apart: the predicate is evaluated
  with the mutex held (\<open>Testing\<close>), and then the thread releases the mutex and goes to sleep
  in one action (\<open>Going\<close>).
\<close>

section \<open>State\<close>

type_synonym task = nat

datatype worker =
    AtLoop           \<comment> \<open>before \<open>while (!stop_.load())\<close>\<close>
  | Acquiring        \<comment> \<open>wants the mutex: first lock, or woken inside wait\<close>
  | Testing          \<comment> \<open>holds the mutex, before the predicate\<close>
  | Going            \<comment> \<open>holds the mutex, predicate was false\<close>
  | Sleeping         \<comment> \<open>in wait, mutex released\<close>
  | Taken task       \<comment> \<open>mutex released, before \<open>thread_num_--\<close>\<close>
  | Running task     \<comment> \<open>before \<open>task()\<close>\<close>
  | Finished         \<comment> \<open>before \<open>thread_num_++\<close>\<close>
  | Exited

datatype stopper = NotStopping | Stored | Joining

record pool =
  stop_flag :: bool
  thread_num :: int
  tasks :: "task list"
  mutex :: "nat option"       \<comment> \<open>the worker that holds \<open>cv_mt_\<close>\<close>
  workers :: "worker list"
  passed :: "task list"       \<comment> \<open>commits that have seen \<open>stop_\<close> false and not yet pushed\<close>
  notifies :: nat             \<comment> \<open>commits that have pushed and not yet notified\<close>
  stopper :: stopper
  pushed :: "task list"       \<comment> \<open>history: tasks pushed, in order\<close>
  taken :: "task list"        \<comment> \<open>history: tasks taken, in order\<close>
  executed :: "task list"     \<comment> \<open>history: tasks run, in order\<close>

section \<open>Construction\<close>

text \<open>\<open>start\<close>: one worker per round of \<open>for (int i = 0; i < thread_num_; ++i)\<close>.\<close>

function start_loop :: "int \<Rightarrow> int \<Rightarrow> worker list \<Rightarrow> worker list" where
  "start_loop i n ws = (if i < n then start_loop (i + 1) n (ws @ [AtLoop]) else ws)"
  by pat_completeness auto
termination
  by (relation "measure (\<lambda>(i, n, ws). nat (n - i))") auto

declare start_loop.simps [simp del]

lemma start_loop_eq: "start_loop i n ws = ws @ replicate (nat (n - i)) AtLoop"
proof (induction i n ws rule: start_loop.induct)
  case (1 i n ws)
  show ?case
  proof (cases "i < n")
    case True
    then have "nat (n - i) = Suc (nat (n - (i + 1)))" by simp
    with True "1.IH" show ?thesis by (simp add: start_loop.simps [of i n ws])
  qed (simp add: start_loop.simps [of i n ws])
qed

text \<open>The constructor; \<open>thread_num_\<close> is an int, \<open>num\<close> an unsigned int.\<close>

definition pool_new :: "32 word \<Rightarrow> pool" where
  "pool_new num =
     (let n = (if num \<le> 1 then 2 else sint num)
      in \<lparr>stop_flag = False, thread_num = n, tasks = [], mutex = None,
          workers = start_loop 0 n [], passed = [], notifies = 0, stopper = NotStopping,
          pushed = [], taken = [], executed = []\<rparr>)"

definition idleThreadCount :: "pool \<Rightarrow> int" where
  "idleThreadCount p = thread_num p"

section \<open>Steps\<close>

text \<open>What a worker does with the mutex held: the predicate, then \<open>tasks_.empty()\<close>.\<close>

definition worker_test :: "nat \<Rightarrow> pool \<Rightarrow> pool" where
  "worker_test i p =
     (if \<not> (stop_flag p \<or> tasks p \<noteq> []) then p\<lparr>workers := (workers p)[i := Going]\<rparr>
      else if tasks p = [] then p\<lparr>mutex := None, workers := (workers p)[i := Exited]\<rparr>
      else p\<lparr>mutex := None, workers := (workers p)[i := Taken (hd (tasks p))],
             tasks := tl (tasks p), taken := taken p @ [hd (tasks p)]\<rparr>)"

text \<open>
  \<open>commit\<close> first reads \<open>stop_\<close>: on true it returns an empty future and nothing changes.
\<close>

definition commit_check :: "task \<Rightarrow> pool \<Rightarrow> task option \<times> pool" where
  "commit_check t p =
     (if stop_flag p then (None, p) else (Some t, p\<lparr>passed := passed p @ [t]\<rparr>))"

definition commit_push :: "task \<Rightarrow> pool \<Rightarrow> pool" where
  "commit_push t p =
     p\<lparr>passed := remove1 t (passed p), tasks := tasks p @ [t], pushed := pushed p @ [t],
       notifies := Suc (notifies p)\<rparr>"

definition wake_worker :: "worker \<Rightarrow> worker" where
  "wake_worker w = (if w = Sleeping then Acquiring else w)"

definition notify_all :: "pool \<Rightarrow> pool" where
  "notify_all p = p\<lparr>workers := map wake_worker (workers p)\<rparr>"

text \<open>
  \<open>spurious\<close> says whether the platform wakes a waiting thread without a notification; the
  standard allows it and promises nothing.
\<close>

inductive pool_step :: "bool \<Rightarrow> pool \<Rightarrow> pool \<Rightarrow> bool" for spurious where
  loop_exit: "i < length (workers p) \<Longrightarrow> workers p ! i = AtLoop \<Longrightarrow> stop_flag p \<Longrightarrow>
     pool_step spurious p (p\<lparr>workers := (workers p)[i := Exited]\<rparr>)"
| loop_enter: "i < length (workers p) \<Longrightarrow> workers p ! i = AtLoop \<Longrightarrow> \<not> stop_flag p \<Longrightarrow>
     pool_step spurious p (p\<lparr>workers := (workers p)[i := Acquiring]\<rparr>)"
| acquire: "i < length (workers p) \<Longrightarrow> workers p ! i = Acquiring \<Longrightarrow> mutex p = None \<Longrightarrow>
     pool_step spurious p (p\<lparr>mutex := Some i, workers := (workers p)[i := Testing]\<rparr>)"
| test: "i < length (workers p) \<Longrightarrow> workers p ! i = Testing \<Longrightarrow>
     pool_step spurious p (worker_test i p)"
| sleep: "i < length (workers p) \<Longrightarrow> workers p ! i = Going \<Longrightarrow>
     pool_step spurious p (p\<lparr>mutex := None, workers := (workers p)[i := Sleeping]\<rparr>)"
| dec: "i < length (workers p) \<Longrightarrow> workers p ! i = Taken t \<Longrightarrow>
     pool_step spurious p
       (p\<lparr>thread_num := thread_num p - 1, workers := (workers p)[i := Running t]\<rparr>)"
| run: "i < length (workers p) \<Longrightarrow> workers p ! i = Running t \<Longrightarrow>
     pool_step spurious p
       (p\<lparr>workers := (workers p)[i := Finished], executed := executed p @ [t]\<rparr>)"
| inc: "i < length (workers p) \<Longrightarrow> workers p ! i = Finished \<Longrightarrow>
     pool_step spurious p
       (p\<lparr>thread_num := thread_num p + 1, workers := (workers p)[i := AtLoop]\<rparr>)"
| wake_up: "spurious \<Longrightarrow> i < length (workers p) \<Longrightarrow> workers p ! i = Sleeping \<Longrightarrow>
     pool_step spurious p (p\<lparr>workers := (workers p)[i := Acquiring]\<rparr>)"
| check: "commit_check t p = (Some t, p') \<Longrightarrow> pool_step spurious p p'"
| push: "t \<in> set (passed p) \<Longrightarrow> mutex p = None \<Longrightarrow> pool_step spurious p (commit_push t p)"
| notify: "notifies p = Suc n \<Longrightarrow> i < length (workers p) \<Longrightarrow> workers p ! i = Sleeping \<Longrightarrow>
     pool_step spurious p
       (p\<lparr>notifies := n, workers := (workers p)[i := Acquiring]\<rparr>)"
| notify_nobody: "notifies p = Suc n \<Longrightarrow> Sleeping \<notin> set (workers p) \<Longrightarrow>
     pool_step spurious p (p\<lparr>notifies := n\<rparr>)"
| stop_store: "stopper p = NotStopping \<Longrightarrow>
     pool_step spurious p (p\<lparr>stop_flag := True, stopper := Stored\<rparr>)"
| stop_notify: "stopper p = Stored \<Longrightarrow>
     pool_step spurious p ((notify_all p)\<lparr>stopper := Joining\<rparr>)"

text \<open>\<open>stop\<close> returns when every \<open>join\<close> has: all workers have left their function.\<close>

definition joined :: "pool \<Rightarrow> bool" where
  "joined p \<longleftrightarrow> stopper p = Joining \<and> (\<forall>w \<in> set (workers p). w = Exited)"

inductive pool_reachable :: "bool \<Rightarrow> 32 word \<Rightarrow> pool \<Rightarrow> bool" for spurious num where
  start: "pool_reachable spurious num (pool_new num)"
| step: "pool_reachable spurious num p \<Longrightarrow> pool_step spurious p q \<Longrightarrow>
    pool_reachable spurious num q"

section \<open>Invariants\<close>

abbreviation holds_mutex :: "worker \<Rightarrow> bool" where
  "holds_mutex w \<equiv> w = Testing \<or> w = Going"

fun busy :: "worker \<Rightarrow> bool" where
  "busy (Running t) = True"
| "busy Finished = True"
| "busy w = False"

fun in_hand :: "worker \<Rightarrow> task multiset" where
  "in_hand (Taken t) = {#t#}"
| "in_hand (Running t) = {#t#}"
| "in_hand w = {#}"

abbreviation ready :: "worker \<Rightarrow> bool" where
  "ready w \<equiv> w = Acquiring \<or> w = Testing"

definition mutex_inv :: "pool \<Rightarrow> bool" where
  "mutex_inv p \<longleftrightarrow>
     (\<forall>i < length (workers p). holds_mutex (workers p ! i) \<longleftrightarrow> mutex p = Some i) \<and>
     (\<forall>i < length (workers p). workers p ! i = Going \<longrightarrow> tasks p = [])"

definition idle_inv :: "int \<Rightarrow> pool \<Rightarrow> bool" where
  "idle_inv n p \<longleftrightarrow> thread_num p + int (count_if busy (workers p)) = n"

definition task_inv :: "pool \<Rightarrow> bool" where
  "task_inv p \<longleftrightarrow> pushed p = taken p @ tasks p \<and>
     mset (taken p) = mset (executed p) + sum_list (map in_hand (workers p))"

definition notify_inv :: "pool \<Rightarrow> bool" where
  "notify_inv p \<longleftrightarrow>
     (Sleeping \<in> set (workers p) \<longrightarrow>
        length (tasks p) \<le> count_if ready (workers p) + notifies p)"

lemmas pool_defs =
  worker_test_def commit_check_def commit_push_def notify_all_def

lemma mutex_inv_new: "mutex_inv (pool_new num)"
  by (simp add: mutex_inv_def pool_new_def Let_def start_loop_eq)

lemma mutex_inv_step: "pool_step sp p q \<Longrightarrow> mutex_inv p \<Longrightarrow> mutex_inv q"
proof (induction rule: pool_step.induct)
  case (test i p)
  then have m: "mutex p = Some i" by (auto simp: mutex_inv_def)
  show ?case using test m by (auto simp: mutex_inv_def worker_test_def nth_list_update)
next
  case (sleep i p)
  then have m: "mutex p = Some i" by (auto simp: mutex_inv_def)
  show ?case using sleep m by (auto simp: mutex_inv_def nth_list_update)
next
  case (stop_notify p)
  then show ?case by (auto simp: mutex_inv_def notify_all_def wake_worker_def)
next
  case (push t p)
  then show ?case by (auto simp: mutex_inv_def commit_push_def)
next
  case (check t p p')
  then show ?case by (auto simp: mutex_inv_def commit_check_def split: if_splits)
qed (auto simp: mutex_inv_def nth_list_update)

lemma idle_inv_new:
  assumes "sint num \<ge> 0 \<or> num \<le> 1"
  shows "idle_inv (if num \<le> 1 then 2 else sint num) (pool_new num)"
  by (simp add: idle_inv_def pool_new_def Let_def start_loop_eq count_if_replicate)

lemma idle_inv_step: "pool_step sp p q \<Longrightarrow> idle_inv n p \<Longrightarrow> idle_inv n q"
proof (induction rule: pool_step.induct)
  case (stop_notify p)
  have "busy (wake_worker w) = busy w" for w by (cases w) (auto simp: wake_worker_def)
  then have "count_if busy (map wake_worker (workers p)) = count_if busy (workers p)"
    by (simp add: count_if_def filter_map o_def)
  then show ?case using stop_notify by (simp add: idle_inv_def notify_all_def)
qed (auto simp: idle_inv_def pool_defs count_if_update_int split: if_splits)

lemma in_hand_wake: "in_hand (wake_worker w) = in_hand w"
  by (cases w) (auto simp: wake_worker_def)

lemma in_hand_update:
  "i < length ws \<Longrightarrow> sum_list (map in_hand (ws[i := w])) + in_hand (ws ! i) =
     sum_list (map in_hand ws) + in_hand w"
  by (rule sum_list_map_update)

lemma task_inv_step: "pool_step sp p q \<Longrightarrow> task_inv p \<Longrightarrow> task_inv q"
proof (induction rule: pool_step.induct)
  case (stop_notify p)
  then show ?case by (simp add: task_inv_def notify_all_def o_def in_hand_wake)
next
  case (test i p)
  show ?case using test in_hand_update [OF test(1), of Going] in_hand_update [OF test(1), of Exited]
      in_hand_update [OF test(1), of "Taken (hd (tasks p))"]
    by (auto simp: task_inv_def worker_test_def)
next
  case (dec i p t)
  show ?case using dec in_hand_update [OF dec(1), of "Running t"] by (simp add: task_inv_def)
next
  case (run i p t)
  show ?case using run in_hand_update [OF run(1), of Finished] by (simp add: task_inv_def)
next
  case (inc i p)
  show ?case using inc in_hand_update [OF inc(1), of AtLoop] by (simp add: task_inv_def)
next
  case (loop_exit i p)
  show ?case using loop_exit in_hand_update [OF loop_exit(1), of Exited] by (simp add: task_inv_def)
next
  case (loop_enter i p)
  show ?case using loop_enter in_hand_update [OF loop_enter(1), of Acquiring]
    by (simp add: task_inv_def)
next
  case (acquire i p)
  show ?case using acquire in_hand_update [OF acquire(1), of Testing] by (simp add: task_inv_def)
next
  case (sleep i p)
  show ?case using sleep in_hand_update [OF sleep(1), of Sleeping] by (simp add: task_inv_def)
next
  case (wake_up i p)
  show ?case using wake_up in_hand_update [OF wake_up(2), of Acquiring] by (simp add: task_inv_def)
next
  case (notify p n i)
  show ?case using notify in_hand_update [OF notify(2), of Acquiring] by (simp add: task_inv_def)
qed (auto simp: task_inv_def pool_defs split: if_splits)

lemma task_inv_new: "task_inv (pool_new num)"
  by (simp add: task_inv_def pool_new_def Let_def start_loop_eq map_replicate_const)

lemma notify_inv_step:
  "pool_step sp p q \<Longrightarrow> notify_inv p \<Longrightarrow> mutex_inv p \<Longrightarrow> notify_inv q"
proof (induction rule: pool_step.induct)
  case (test i p)
  show ?case using test(1,2,3) count_if_update [OF test(1), of ready Going]
      count_if_update [OF test(1), of ready Exited]
      count_if_update [OF test(1), of ready "Taken (hd (tasks p))"]
    by (auto simp: notify_inv_def worker_test_def dest!: in_set_update)
next
  case (sleep i p)
  then have "tasks p = []" by (simp add: mutex_inv_def)
  then show ?case by (simp add: notify_inv_def)
next
  case (stop_notify p)
  have "Sleeping \<notin> wake_worker ` set (workers p)" by (auto simp: wake_worker_def)
  then show ?case by (simp add: notify_inv_def notify_all_def)
next
  case (loop_exit i p)
  show ?case using loop_exit count_if_update [OF loop_exit(1), of ready Exited]
    by (auto simp: notify_inv_def dest!: in_set_update)
next
  case (loop_enter i p)
  show ?case using loop_enter count_if_update [OF loop_enter(1), of ready Acquiring]
    by (auto simp: notify_inv_def dest!: in_set_update)
next
  case (acquire i p)
  show ?case using acquire count_if_update [OF acquire(1), of ready Testing]
    by (auto simp: notify_inv_def dest!: in_set_update)
next
  case (dec i p t)
  show ?case using dec count_if_update [OF dec(1), of ready "Running t"]
    by (auto simp: notify_inv_def dest!: in_set_update)
next
  case (run i p t)
  show ?case using run count_if_update [OF run(1), of ready Finished]
    by (auto simp: notify_inv_def dest!: in_set_update)
next
  case (inc i p)
  show ?case using inc count_if_update [OF inc(1), of ready AtLoop]
    by (auto simp: notify_inv_def dest!: in_set_update)
next
  case (wake_up i p)
  show ?case using wake_up count_if_update [OF wake_up(2), of ready Acquiring]
    by (auto simp: notify_inv_def dest!: in_set_update)
next
  case (notify p n i)
  have "Sleeping \<in> set (workers p)" using notify(2,3) by (metis nth_mem)
  then show ?case using notify count_if_update [OF notify(2), of ready Acquiring]
    by (auto simp: notify_inv_def)
qed (auto simp: notify_inv_def commit_push_def commit_check_def split: if_splits)

text \<open>Everything that holds in every state the pool can reach.\<close>

definition pool_inv :: "int \<Rightarrow> pool \<Rightarrow> bool" where
  "pool_inv n p \<longleftrightarrow> mutex_inv p \<and> idle_inv n p \<and> task_inv p \<and> notify_inv p"

lemma pool_inv_step: "pool_step sp p q \<Longrightarrow> pool_inv n p \<Longrightarrow> pool_inv n q"
  by (simp add: pool_inv_def mutex_inv_step idle_inv_step task_inv_step notify_inv_step)

lemma pool_inv_new: "pool_inv (thread_num (pool_new num)) (pool_new num)"
  by (simp add: pool_inv_def mutex_inv_new task_inv_new idle_inv_def notify_inv_def)
    (simp add: pool_new_def Let_def start_loop_eq count_if_replicate)

lemma pool_reachable_inv:
  "pool_reachable sp num p \<Longrightarrow> pool_inv (thread_num (pool_new num)) p"
  by (induction rule: pool_reachable.induct) (auto intro: pool_inv_new pool_inv_step)

text \<open>
  C7. In every state a \<open>ThreadPool\<close> reaches, whatever the interleaving: tasks are taken in
  the order they were pushed, and each task taken is in the hands of one worker or was run
  exactly once; \<open>idleThreadCount\<close> plus the workers that are running a task is the number of
  threads the pool was made with; and no commit is forgotten: while a worker sleeps there
  are at least as many ready workers and outstanding notifications as queued tasks.
\<close>

theorem pool_tasks_and_idle_count:
  assumes "pool_reachable spurious num p"
  shows "pushed p = taken p @ tasks p \<and>
    mset (taken p) = mset (executed p) + sum_list (map in_hand (workers p)) \<and>
    idleThreadCount p + int (count_if busy (workers p)) = idleThreadCount (pool_new num) \<and>
    (Sleeping \<in> set (workers p) \<longrightarrow>
       length (tasks p) \<le> count_if ready (workers p) + notifies p)"
  using pool_reachable_inv [OF assms]
  by (auto simp: pool_inv_def task_inv_def idle_inv_def notify_inv_def idleThreadCount_def)

section \<open>A run, and the wake-up that stop can lose\<close>

definition pool_size :: "32 word \<Rightarrow> nat" where
  "pool_size num = nat (thread_num (pool_new num))"

lemma pool_new_workers: "workers (pool_new num) = replicate (pool_size num) AtLoop"
  by (simp add: pool_size_def pool_new_def Let_def start_loop_eq)

lemma pool_new_simps [simp]:
  "stop_flag (pool_new num) = False" "tasks (pool_new num) = []" "mutex (pool_new num) = None"
  "passed (pool_new num) = []" "notifies (pool_new num) = 0"
  "stopper (pool_new num) = NotStopping" "pushed (pool_new num) = []"
  "taken (pool_new num) = []" "executed (pool_new num) = []"
  by (simp_all add: pool_new_def Let_def)

text \<open>
  Worker 0 has evaluated the predicate of \<open>wait\<close> (false) when \<open>stop\<close> stores \<open>stop_\<close> and
  notifies: neither needs the mutex. Then it goes to sleep.
\<close>

definition pool_hung :: "32 word \<Rightarrow> nat \<Rightarrow> pool" where
  "pool_hung num k = (pool_new num)\<lparr>stop_flag := True, stopper := Joining,
     workers := Sleeping # replicate k Exited @ replicate (pool_size num - 1 - k) AtLoop\<rparr>"

lemma pool_hung_0_reachable:
  assumes "0 < pool_size num"
  shows "pool_reachable False num (pool_hung num 0)"
proof -
  let ?p = "pool_new num" and ?ws = "replicate (pool_size num - 1) AtLoop"
  let ?at = "\<lambda>w. (pool_new num)\<lparr>workers := w # ?ws\<rparr>"
  have ws: "workers ?p = AtLoop # ?ws"
    using assms by (cases "pool_size num") (simp_all add: pool_new_workers)
  have p: "?p = ?at AtLoop" using ws by (metis pool.surjective pool.update_convs(5))
  have r0: "pool_reachable False num (?at AtLoop)"
    using pool_reachable.start [of False num] p by simp
  have r1: "pool_reachable False num (?at Acquiring)"
    using pool_reachable.step [OF r0 pool_step.loop_enter [of 0]] by simp
  have r2: "pool_reachable False num ((?at Testing)\<lparr>mutex := Some 0\<rparr>)"
    using pool_reachable.step [OF r1 pool_step.acquire [of 0]] by (simp add: pool_new_def Let_def)
  have r3: "pool_reachable False num ((?at Going)\<lparr>mutex := Some 0\<rparr>)"
    using pool_reachable.step [OF r2 pool_step.test [of 0]]
    by (simp add: worker_test_def pool_new_def Let_def)
  have r4: "pool_reachable False num
      ((?at Going)\<lparr>mutex := Some 0, stop_flag := True, stopper := Stored\<rparr>)"
    using pool_reachable.step [OF r3 pool_step.stop_store] by (simp add: pool_new_def Let_def)
  have r5: "pool_reachable False num
      ((?at Going)\<lparr>mutex := Some 0, stop_flag := True, stopper := Joining\<rparr>)"
    using pool_reachable.step [OF r4 pool_step.stop_notify]
    by (simp add: notify_all_def wake_worker_def pool_new_def Let_def)
  have "pool_reachable False num
      ((?at Sleeping)\<lparr>mutex := None, stop_flag := True, stopper := Joining\<rparr>)"
    using pool_reachable.step [OF r5 pool_step.sleep [of 0]] by (simp add: pool_new_def Let_def)
  moreover have "(?at Sleeping)\<lparr>mutex := None, stop_flag := True, stopper := Joining\<rparr> =
      pool_hung num 0"
    by (simp add: pool_hung_def pool_new_def Let_def)
  ultimately show ?thesis by simp
qed

lemma pool_hung_reachable:
  assumes "0 < pool_size num" "k \<le> pool_size num - 1"
  shows "pool_reachable False num (pool_hung num k)"
  using assms(2)
proof (induction k)
  case 0
  show ?case using assms(1) by (rule pool_hung_0_reachable)
next
  case (Suc k)
  let ?p = "pool_hung num k"
  obtain r where r: "pool_size num - 1 - k = Suc r" "pool_size num - 1 - Suc k = r"
    using Suc.prems by (cases "pool_size num - 1 - k") auto
  have ws: "workers ?p = (Sleeping # replicate k Exited) @ AtLoop # replicate r AtLoop"
    by (simp only: pool_hung_def r(1)) simp
  have "length (workers ?p) = k + 2 + r" "workers ?p ! Suc k = AtLoop"
    by (simp_all add: ws nth_append)
  then have "pool_step False ?p (?p\<lparr>workers := (workers ?p)[Suc k := Exited]\<rparr>)"
    by (intro pool_step.loop_exit) (simp_all add: pool_hung_def)
  moreover have "?p\<lparr>workers := (workers ?p)[Suc k := Exited]\<rparr> = pool_hung num (Suc k)"
    unfolding ws by (simp only: pool_hung_def r(2)) (simp add: list_update_append replicate_append_same)
  ultimately show ?case using pool_reachable.step [OF Suc.IH] Suc.prems by simp
qed

text \<open>
  C10. \<open>ThreadPool::stop\<close> can lose its wake-up: for a pool of any size there is a run to a
  state where \<open>stop\<close> is in its joins, one worker sleeps, no task, commit or notification
  is left, and no thread has a step (only a spurious wake-up, which no platform promises,
  would get out of it). The destructor then never returns. The store to \<open>stop_\<close> and
  \<open>notify_all\<close> are not ordered with the predicate of \<open>wait\<close> by the mutex.
\<close>

theorem pool_stop_can_hang:
  assumes "0 < pool_size num"
  shows "\<exists>p. pool_reachable False num p \<and> stopper p = Joining \<and> \<not> joined p \<and>
    (\<forall>q. \<not> pool_step False p q)"
proof (intro exI conjI)
  let ?p = "pool_hung num (pool_size num - 1)"
  show "pool_reachable False num ?p" using assms by (rule pool_hung_reachable) simp
  show "stopper ?p = Joining" by (simp add: pool_hung_def)
  show "\<not> joined ?p" by (simp add: joined_def pool_hung_def)
  have "w = Sleeping \<or> w = Exited" if "w \<in> set (workers ?p)" for w
    using that by (auto simp: pool_hung_def)
  then have "\<forall>i < length (workers ?p). workers ?p ! i = Sleeping \<or> workers ?p ! i = Exited"
    by (metis nth_mem)
  moreover have "stop_flag ?p" "passed ?p = []" "notifies ?p = 0" by (simp_all add: pool_hung_def)
  ultimately show "\<forall>q. \<not> pool_step False ?p q"
    using \<open>stopper ?p = Joining\<close>
    by (auto elim!: pool_step.cases simp: commit_check_def)
qed

lemma pool_size_4: "pool_size 4 = 4"
  by (simp add: pool_size_def pool_new_def Let_def word_le_nat_alt)

theorem pool_stop_can_hang_witness:
  "0 < pool_size 4 \<and> (\<exists>p. pool_reachable False 4 p \<and> \<not> joined p \<and> (\<forall>q. \<not> pool_step False p q))"
  using pool_stop_can_hang [of 4] by (auto simp: pool_size_4)

theorem pool_tasks_and_idle_count_witness:
  "pool_reachable False 4 (pool_hung 4 3) \<and>
   idleThreadCount (pool_hung 4 3) + int (count_if busy (workers (pool_hung 4 3))) = 4"
proof -
  have r: "pool_reachable False 4 (pool_hung 4 3)"
    by (rule pool_hung_reachable) (simp_all add: pool_size_4)
  have "idleThreadCount (pool_new 4) = 4" 
    by (simp add: idleThreadCount_def pool_new_def Let_def word_le_nat_alt)
  then show ?thesis using pool_tasks_and_idle_count [OF r] r by simp
qed

end
