(* ===== verification/Pool_Quick_Sort.thy ===== *)
theory Pool_Quick_Sort
  imports Prelude
begin

text \<open>
  Self-Study/main.cpp: \<open>pool_thread_quick_sort\<close>, the value it returns. The lower chunk is
  sorted by a task of the thread pool and the higher chunk by the caller; the result only
  depends on the two returned lists, so the recursion is written with both calls in place.
  Not returning is \<open>None\<close>.

  \<open>std::partition\<close> is library code of which the program uses the contract only (which
  elements come first, not their order): it is the parameter \<open>part\<close>, which returns the
  elements before and after the partition point.
\<close>

definition partitions :: "(('a \<Rightarrow> bool) \<Rightarrow> 'a list \<Rightarrow> 'a list \<times> 'a list) \<Rightarrow> bool" where
  "partitions part \<longleftrightarrow>
     (\<forall>P xs lo hi. part P xs = (lo, hi) \<longrightarrow>
        mset lo + mset hi = mset xs \<and> (\<forall>x \<in> set lo. P x) \<and> (\<forall>x \<in> set hi. \<not> P x))"

partial_function (option) pool_thread_quick_sort ::
  "(('a::linorder \<Rightarrow> bool) \<Rightarrow> 'a list \<Rightarrow> 'a list \<times> 'a list) \<Rightarrow> 'a list \<Rightarrow> 'a list option" where
  "pool_thread_quick_sort part input =
     (case input of
        [] \<Rightarrow> Some input
      | partition_val # rest \<Rightarrow>
          (case part (\<lambda>val. val < partition_val) rest of
             (new_lower_chunk, higher) \<Rightarrow>
               Option.bind (pool_thread_quick_sort part new_lower_chunk) (\<lambda>new_lower.
               Option.bind (pool_thread_quick_sort part higher) (\<lambda>new_higher.
                 Some (new_lower @ [partition_val] @ new_higher)))))"

text \<open>The stable partition, as one instance of the contract.\<close>

definition stable_partition :: "('a \<Rightarrow> bool) \<Rightarrow> 'a list \<Rightarrow> 'a list \<times> 'a list" where
  "stable_partition P xs = (filter P xs, filter (\<lambda>x. \<not> P x) xs)"

lemma partitions_stable: "partitions stable_partition"
  by (simp add: partitions_def stable_partition_def)

lemma partitionsD:
  assumes "partitions part" "part P xs = (lo, hi)"
  shows "mset lo + mset hi = mset xs" "x \<in> set lo \<Longrightarrow> P x" "y \<in> set hi \<Longrightarrow> \<not> P y"
    "length lo \<le> length xs" "length hi \<le> length xs"
proof -
  show m: "mset lo + mset hi = mset xs" and "x \<in> set lo \<Longrightarrow> P x" and "y \<in> set hi \<Longrightarrow> \<not> P y"
    using assms unfolding partitions_def by blast+
  have "length lo + length hi = length xs"
    using arg_cong [OF m, of size] by simp
  then show "length lo \<le> length xs" "length hi \<le> length xs" by simp_all
qed

lemma sorted_around_pivot:
  "sorted lo \<Longrightarrow> sorted hi \<Longrightarrow> (\<forall>x \<in> set lo. x < v) \<Longrightarrow> (\<forall>y \<in> set hi. \<not> y < v) \<Longrightarrow>
   sorted (lo @ [v] @ hi)" for v :: "'a::linorder"
  by (fastforce simp: sorted_append not_less)



end
