(* ===== verification/Iocp_State.thy ===== *)
theory Iocp_State
  imports Prelude
begin

text \<open>
  The state of the echo server of Self-Study/IocpServerex.cpp (structures and constants:
  Self-Study/IocpServer.h): the two kinds of context structures on the process heap, the
  globals, the recursion depth of the critical section, and what the server has asked of
  Winsock (requests posted, sockets closed, completion keys associated).

  Winsock, the completion port and the heap are not part of the program: what a call
  answers is taken from a parameter of type \<open>os\<close>, by the number of the call (\<open>clock\<close>), so
  a theorem for every \<open>os\<close> covers every behaviour of the platform. Pointers are \<open>nat
  option\<close> with \<open>None\<close> for \<open>NULL\<close>; using a pointer to a block that is not live is
  \<open>Undefined\<close>; a loop or a wait that does not end is \<open>Blocks\<close>.
\<close>

section \<open>Structures\<close>

type_synonym ptr = "nat option"
type_synonym sock = nat
type_synonym byte = "8 word"

definition MAX_BUFF_SIZE :: nat where "MAX_BUFF_SIZE = 8192"
definition MAX_WORKER_THREAD :: nat where "MAX_WORKER_THREAD = 16"

datatype io_operation = ClientIoAccept | ClientIoRead | ClientIoWrite

text \<open>\<open>PER_IO_CONTEXT\<close>; \<open>wsabuf.buf\<close> is an offset into \<open>Buffer\<close>.\<close>

record io_ctx =
  io_Buffer :: "byte list"
  io_wsabuf_buf :: nat
  io_wsabuf_len :: nat
  io_nTotalBytes :: int
  io_nSentBytes :: int
  io_IOOperation :: io_operation
  io_SocketAccept :: "sock option"   \<comment> \<open>\<open>None\<close> is \<open>INVALID_SOCKET\<close>\<close>
  io_Forward :: ptr

text \<open>\<open>PER_SOCKET_CONTEXT\<close>.\<close>

record sock_ctx =
  sc_Socket :: "sock option"
  sc_fnAcceptEx :: bool              \<comment> \<open>the extension function was loaded\<close>
  sc_pIOContext :: ptr
  sc_Back :: ptr
  sc_Forward :: ptr

datatype handle = NullHandle | InvalidHandle | Handle nat

text \<open>What the server asks of the platform and a peer can see.\<close>

datatype request =
    AcceptExPosted sock sock          \<comment> \<open>listening socket, accept socket\<close>
  | RecvPosted "sock option" ptr nat  \<comment> \<open>socket, I/O context, buffer length; buffer at offset 0\<close>
  | SendPosted "sock option" ptr "byte list"  \<comment> \<open>socket, I/O context, the bytes sent\<close>
  | LingerAbort "sock option"
  | CloseSocket "sock option"
  | Associated "sock option" ptr      \<comment> \<open>socket and completion key given to the port\<close>
  | ExitPosted                        \<comment> \<open>\<open>PostQueuedCompletionStatus\<close> with a null key\<close>

record srv =
  g_Port :: string
  g_bEndServer :: bool
  g_bRestart :: bool
  g_bVerbose :: bool
  g_hIOCP :: handle
  g_sdListen :: "sock option"
  g_cleanup :: bool                  \<comment> \<open>\<open>g_hCleanupEvent[0]\<close> is signalled\<close>
  g_pCtxtListenSocket :: ptr
  g_pCtxtList :: ptr
  socks :: "nat \<rightharpoonup> sock_ctx"
  ios :: "nat \<rightharpoonup> io_ctx"
  cs_depth :: nat                    \<comment> \<open>how often \<open>g_CriticalSection\<close> is held\<close>
  requests :: "request list"         \<comment> \<open>in order\<close>
  clock :: nat

section \<open>The platform\<close>

record os =
  os_enter :: "nat \<Rightarrow> bool"            \<comment> \<open>\<open>EnterCriticalSection\<close> does not raise\<close>
  os_alloc_sock :: "nat \<Rightarrow> nat option" \<comment> \<open>\<open>HeapAlloc\<close> of a \<open>PER_SOCKET_CONTEXT\<close>\<close>
  os_alloc_io :: "nat \<Rightarrow> nat option"   \<comment> \<open>\<open>HeapAlloc\<close> of a \<open>PER_IO_CONTEXT\<close>\<close>
  os_socket :: "nat \<Rightarrow> sock option"    \<comment> \<open>\<open>WSASocket\<close>\<close>
  os_port :: "nat \<Rightarrow> handle"           \<comment> \<open>\<open>CreateIoCompletionPort\<close>\<close>
  os_ok :: "nat \<Rightarrow> bool"               \<comment> \<open>any other call succeeds\<close>
  os_completes :: "nat \<Rightarrow> bool"        \<comment> \<open>the overlapped I/O of the context at this address ends\<close>
  os_strcopy :: "byte list \<Rightarrow> byte list \<Rightarrow> byte list"
    \<comment> \<open>\<open>StringCbCopyN\<close> of a whole buffer: destination before, source, destination after\<close>
  os_fuel :: nat                      \<comment> \<open>rounds after which a pointer loop counts as endless\<close>

definition tick :: "srv \<Rightarrow> srv" where
  "tick s = s\<lparr>clock := Suc (clock s)\<rparr>"

definition request :: "request \<Rightarrow> srv \<Rightarrow> srv" where
  "request r s = s\<lparr>requests := requests s @ [r]\<rparr>"

definition closesocket :: "sock option \<Rightarrow> srv \<Rightarrow> srv" where
  "closesocket sd = request (CloseSocket sd)"

definition api :: "os \<Rightarrow> srv \<Rightarrow> bool \<times> srv" where
  "api os s = (os_ok os (clock s), tick s)"

section \<open>Reading and writing through pointers\<close>

definition get_sock :: "ptr \<Rightarrow> srv \<Rightarrow> sock_ctx outcome" where
  "get_sock p s =
     (case p of None \<Rightarrow> Undefined
      | Some a \<Rightarrow> (case socks s a of None \<Rightarrow> Undefined | Some c \<Rightarrow> Done c))"

definition set_sock :: "ptr \<Rightarrow> (sock_ctx \<Rightarrow> sock_ctx) \<Rightarrow> srv \<Rightarrow> srv outcome" where
  "set_sock p f s =
     (case p of None \<Rightarrow> Undefined
      | Some a \<Rightarrow> (case socks s a of None \<Rightarrow> Undefined
                   | Some c \<Rightarrow> Done (s\<lparr>socks := (socks s)(a \<mapsto> f c)\<rparr>)))"

definition free_sock :: "ptr \<Rightarrow> srv \<Rightarrow> srv outcome" where
  "free_sock p s =
     (case p of None \<Rightarrow> Undefined
      | Some a \<Rightarrow> (if socks s a = None then Undefined
                   else Done (s\<lparr>socks := (socks s)(a := None)\<rparr>)))"

definition get_io :: "ptr \<Rightarrow> srv \<Rightarrow> io_ctx outcome" where
  "get_io p s =
     (case p of None \<Rightarrow> Undefined
      | Some a \<Rightarrow> (case ios s a of None \<Rightarrow> Undefined | Some c \<Rightarrow> Done c))"

definition set_io :: "ptr \<Rightarrow> (io_ctx \<Rightarrow> io_ctx) \<Rightarrow> srv \<Rightarrow> srv outcome" where
  "set_io p f s =
     (case p of None \<Rightarrow> Undefined
      | Some a \<Rightarrow> (case ios s a of None \<Rightarrow> Undefined
                   | Some c \<Rightarrow> Done (s\<lparr>ios := (ios s)(a \<mapsto> f c)\<rparr>)))"

definition free_io :: "ptr \<Rightarrow> srv \<Rightarrow> srv outcome" where
  "free_io p s =
     (case p of None \<Rightarrow> Undefined
      | Some a \<Rightarrow> (if ios s a = None then Undefined
                   else Done (s\<lparr>ios := (ios s)(a := None)\<rparr>)))"

text \<open>
  \<open>EnterCriticalSection\<close> in its \<open>__try\<close>: \<open>None\<close> is the exception. The critical section
  is recursive, so the thread that holds it enters again.
\<close>

definition enter_cs :: "os \<Rightarrow> srv \<Rightarrow> srv option" where
  "enter_cs os s =
     (if os_enter os (clock s) then Some ((tick s)\<lparr>cs_depth := Suc (cs_depth s)\<rparr>) else None)"

definition leave_cs :: "srv \<Rightarrow> srv" where
  "leave_cs s = s\<lparr>cs_depth := cs_depth s - 1\<rparr>"

named_theorems ptr_defs \<open>the accesses through pointers\<close>

declare get_sock_def [ptr_defs] set_sock_def [ptr_defs] free_sock_def [ptr_defs]
  get_io_def [ptr_defs] set_io_def [ptr_defs] free_io_def [ptr_defs]

named_theorems api_defs \<open>the bookkeeping of calls\<close>

declare tick_def [api_defs] api_def [api_defs] request_def [api_defs] closesocket_def [api_defs]
  enter_cs_def [api_defs] leave_cs_def [api_defs]

end
