(* ===== verification/Iocp_Context.thy ===== *)
theory Iocp_Context
  imports Iocp_State
begin

text \<open>
  The context structures of IocpServerex.cpp: \<open>CtxtAllocate\<close>, the doubly linked list
  \<open>CtxtListAddTo\<close>, \<open>CtxtListDeleteFrom\<close>, \<open>CtxtListFree\<close>, and \<open>CloseClient\<close>. The
  global \<open>g_pCtxtList\<close> points to the newest context; \<open>pCtxtBack\<close> leads to older ones and
  \<open>pCtxtForward\<close> to newer ones.
\<close>

section \<open>The operations\<close>

definition CtxtAllocate :: "os \<Rightarrow> sock option \<Rightarrow> io_operation \<Rightarrow> srv \<Rightarrow> (ptr \<times> srv) outcome" where
  "CtxtAllocate os sd ClientIO s0 =
     (case enter_cs os s0 of
        None \<Rightarrow> Done (None, s0)
      | Some s \<Rightarrow>
          (case os_alloc_sock os (clock s) of
             None \<Rightarrow> Done (None, tick s)
           | Some a \<Rightarrow>
               let s1 = tick s in
               (case os_alloc_io os (clock s1) of
                  Some b \<Rightarrow>
                    Done (Some a, leave_cs ((tick s1)\<lparr>
                      socks := (socks s1)(a \<mapsto> \<lparr>sc_Socket = sd, sc_fnAcceptEx = False,
                        sc_pIOContext = Some b, sc_Back = None, sc_Forward = None\<rparr>),
                      ios := (ios s1)(b \<mapsto> \<lparr>io_Buffer = replicate MAX_BUFF_SIZE 0,
                        io_wsabuf_buf = 0, io_wsabuf_len = MAX_BUFF_SIZE, io_nTotalBytes = 0,
                        io_nSentBytes = 0, io_IOOperation = ClientIO, io_SocketAccept = None,
                        io_Forward = None\<rparr>)\<rparr>))
                | None \<Rightarrow>
                    \<comment> \<open>\<open>xfree(lpPerSocketContext)\<close>, and the pointer is returned as it is\<close>
                    Done (Some a, leave_cs ((tick s1)\<lparr>socks := (socks s1)(a := None)\<rparr>)))))"

definition CtxtListAddTo :: "os \<Rightarrow> ptr \<Rightarrow> srv \<Rightarrow> srv outcome" where
  "CtxtListAddTo os p s0 =
     (case enter_cs os s0 of
        None \<Rightarrow> Done s0
      | Some s \<Rightarrow>
          bind_outcome
            (if g_pCtxtList s = None then
               bind_outcome (set_sock p (\<lambda>c. c\<lparr>sc_Back := None, sc_Forward := None\<rparr>) s) (\<lambda>s1.
                 Done (s1\<lparr>g_pCtxtList := p\<rparr>))
             else
               let pTemp = g_pCtxtList s in
               bind_outcome
                 (set_sock p (\<lambda>c. c\<lparr>sc_Back := pTemp, sc_Forward := None\<rparr>) (s\<lparr>g_pCtxtList := p\<rparr>))
                 (set_sock pTemp (\<lambda>c. c\<lparr>sc_Forward := p\<rparr>)))
            (\<lambda>s2. Done (leave_cs s2)))"

text \<open>The four cases in which \<open>CtxtListDeleteFrom\<close> takes the node out of the list.\<close>

definition unlink_ctxt :: "ptr \<Rightarrow> ptr \<Rightarrow> srv \<Rightarrow> srv outcome" where
  "unlink_ctxt pBack pForward s =
     (if pBack = None \<and> pForward = None then Done (s\<lparr>g_pCtxtList := None\<rparr>)
      else if pBack = None \<and> pForward \<noteq> None then
        bind_outcome (set_sock pForward (\<lambda>c. c\<lparr>sc_Back := None\<rparr>) s) (\<lambda>s1.
          Done (s1\<lparr>g_pCtxtList := pForward\<rparr>))
      else if pBack \<noteq> None \<and> pForward = None then
        set_sock pBack (\<lambda>c. c\<lparr>sc_Forward := None\<rparr>) s
      else
        bind_outcome (set_sock pBack (\<lambda>c. c\<lparr>sc_Forward := pForward\<rparr>) s)
          (set_sock pForward (\<lambda>c. c\<lparr>sc_Back := pBack\<rparr>)))"

text \<open>
  The \<open>do ... while (pNextIO)\<close> that frees the I/O contexts; in the shutdown it first waits
  for the overlapped I/O of each.
\<close>

fun free_io_chain :: "os \<Rightarrow> nat \<Rightarrow> ptr \<Rightarrow> srv \<Rightarrow> srv outcome" where
  "free_io_chain os 0 pTempIO s = Blocks"
| "free_io_chain os (Suc fuel) pTempIO s =
     bind_outcome (get_io pTempIO s) (\<lambda>io.
       let pNextIO = io_Forward io in
       if g_bEndServer s \<and> \<not> os_completes os (the pTempIO) then Blocks
       else bind_outcome (free_io pTempIO s) (\<lambda>s1.
         if pNextIO = None then Done s1 else free_io_chain os fuel pNextIO s1))"

definition CtxtListDeleteFrom :: "os \<Rightarrow> ptr \<Rightarrow> srv \<Rightarrow> srv outcome" where
  "CtxtListDeleteFrom os p s0 =
     (case enter_cs os s0 of
        None \<Rightarrow> Done s0
      | Some s \<Rightarrow>
          bind_outcome
            (if p = None then Done s
             else
               bind_outcome (get_sock p s) (\<lambda>c.
               bind_outcome (unlink_ctxt (sc_Back c) (sc_Forward c) s) (\<lambda>s1.
               bind_outcome (get_sock p s1) (\<lambda>c1.
               bind_outcome (free_io_chain os (os_fuel os) (sc_pIOContext c1) s1)
                 (free_sock p)))))
            (\<lambda>s2. Done (leave_cs s2)))"

definition CloseClient :: "os \<Rightarrow> ptr \<Rightarrow> bool \<Rightarrow> srv \<Rightarrow> srv outcome" where
  "CloseClient os p bGraceful s0 =
     (case enter_cs os s0 of
        None \<Rightarrow> Done s0
      | Some s \<Rightarrow>
          bind_outcome
            (if p = None then Done s
             else
               bind_outcome (get_sock p s) (\<lambda>c.
               let s1 = (if \<not> bGraceful then request (LingerAbort (sc_Socket c)) s else s) in
               bind_outcome (get_io (sc_pIOContext c) s1) (\<lambda>io.
               bind_outcome
                 (if io_SocketAccept io \<noteq> None then
                    set_io (sc_pIOContext c) (\<lambda>i. i\<lparr>io_SocketAccept := None\<rparr>)
                      (closesocket (io_SocketAccept io) s1)
                  else Done s1) (\<lambda>s2.
               bind_outcome
                 (set_sock p (\<lambda>c. c\<lparr>sc_Socket := None\<rparr>) (closesocket (sc_Socket c) s2))
                 (CtxtListDeleteFrom os p)))))
            (\<lambda>s3. Done (leave_cs s3)))"

fun free_ctxt_loop :: "os \<Rightarrow> nat \<Rightarrow> ptr \<Rightarrow> srv \<Rightarrow> srv outcome" where
  "free_ctxt_loop os fuel None s = Done s"
| "free_ctxt_loop os 0 (Some a) s = Blocks"
| "free_ctxt_loop os (Suc fuel) (Some a) s =
     bind_outcome (get_sock (Some a) s) (\<lambda>c.
       let pTemp2 = sc_Back c in
       bind_outcome (CloseClient os (Some a) False s) (free_ctxt_loop os fuel pTemp2))"

definition CtxtListFree :: "os \<Rightarrow> srv \<Rightarrow> srv outcome" where
  "CtxtListFree os s0 =
     (case enter_cs os s0 of
        None \<Rightarrow> Done s0
      | Some s \<Rightarrow>
          bind_outcome (free_ctxt_loop os (os_fuel os) (g_pCtxtList s) s)
            (\<lambda>s1. Done (leave_cs s1)))"

section \<open>Well-formed context lists\<close>

text \<open>
  \<open>dll h f as z\<close>: the contexts at the addresses \<open>as\<close>, newest first, are linked in both
  directions; \<open>f\<close> is what is in front of the first one, \<open>z\<close> what is behind the last one.
\<close>

fun dll :: "(nat \<rightharpoonup> sock_ctx) \<Rightarrow> ptr \<Rightarrow> nat list \<Rightarrow> ptr \<Rightarrow> bool" where
  "dll h f [] z \<longleftrightarrow> True"
| "dll h f (a # as) z \<longleftrightarrow>
     (\<exists>c. h a = Some c \<and> sc_Forward c = f \<and>
        sc_Back c = (case as of [] \<Rightarrow> z | b # _ \<Rightarrow> Some b)) \<and>
     dll h (Some a) as z"

fun first_ptr :: "nat list \<Rightarrow> ptr \<Rightarrow> ptr" where
  "first_ptr [] z = z"
| "first_ptr (a # as) z = Some a"

fun last_ptr :: "ptr \<Rightarrow> nat list \<Rightarrow> ptr" where
  "last_ptr f [] = f"
| "last_ptr f (a # as) = last_ptr (Some a) as"

lemma last_ptr_snoc [simp]: "last_ptr f (as @ [a]) = Some a"
  by (induction as arbitrary: f) auto

lemma case_first_ptr: "(case as of [] \<Rightarrow> z | b # _ \<Rightarrow> Some b) = first_ptr as z"
  by (cases as) auto

lemma dll_append:
  "dll h f (as @ bs) z \<longleftrightarrow> dll h f as (first_ptr bs z) \<and> dll h (last_ptr f as) bs z"
proof (induction as arbitrary: f)
  case (Cons a as)
  then show ?case by (cases as) (auto simp: case_first_ptr)
qed simp

lemma dll_live: "dll h f as z \<Longrightarrow> set as \<subseteq> dom h"
  by (induction as arbitrary: f) auto

lemma dll_cong:
  "(\<And>a. a \<in> set as \<Longrightarrow> h' a = h a) \<Longrightarrow> dll h' f as z = dll h f as z"
  by (induction as arbitrary: f) auto

lemma dll_set_back:
  assumes "dll h f (as @ [a]) z" "a \<notin> set as" "h a = Some c"
  shows "dll (h(a \<mapsto> c\<lparr>sc_Back := y\<rparr>)) f (as @ [a]) y"
proof -
  have "dll (h(a \<mapsto> c\<lparr>sc_Back := y\<rparr>)) f as (Some a) = dll h f as (Some a)"
    using assms(2) by (intro dll_cong) auto
  then show ?thesis using assms by (simp add: dll_append del: fun_upd_apply) auto
qed

lemma dll_set_forward:
  assumes "dll h f (a # as) z" "a \<notin> set as" "h a = Some c"
  shows "dll (h(a \<mapsto> c\<lparr>sc_Forward := g\<rparr>)) g (a # as) z"
proof -
  have "dll (h(a \<mapsto> c\<lparr>sc_Forward := g\<rparr>)) (Some a) as z = dll h (Some a) as z"
    using assms(2) by (intro dll_cong) auto
  then show ?thesis using assms by (simp add: case_first_ptr del: fun_upd_apply) auto
qed

text \<open>
  The invariant of the whole server: the list is well-formed, and the listed contexts own
  distinct live I/O contexts, each the only one in its chain.
\<close>

definition owns_io :: "srv \<Rightarrow> nat \<Rightarrow> nat \<Rightarrow> bool" where
  "owns_io s a b \<longleftrightarrow> (\<exists>c io. socks s a = Some c \<and> sc_pIOContext c = Some b \<and>
     ios s b = Some io \<and> io_Forward io = None)"

definition ctxt_chain :: "srv \<Rightarrow> nat list \<Rightarrow> bool" where
  "ctxt_chain s as \<longleftrightarrow>
     distinct as \<and> dll (socks s) None as None \<and>
     (\<exists>bs. distinct bs \<and> list_all2 (owns_io s) as bs)"

definition ctxt_list :: "srv \<Rightarrow> nat list \<Rightarrow> bool" where
  "ctxt_list s as \<longleftrightarrow> ctxt_chain s as \<and> g_pCtxtList s = first_ptr as None"

definition cs_works :: "os \<Rightarrow> bool" where
  "cs_works os \<longleftrightarrow> (\<forall>n. os_enter os n)"

lemma enter_cs_works:
  "cs_works os \<Longrightarrow> enter_cs os s = Some ((tick s)\<lparr>cs_depth := Suc (cs_depth s)\<rparr>)"
  by (simp add: cs_works_def enter_cs_def)

lemma set_sock_Done:
  "set_sock p f s = Done t \<longleftrightarrow>
     (\<exists>a c. p = Some a \<and> socks s a = Some c \<and> t = s\<lparr>socks := (socks s)(a \<mapsto> f c)\<rparr>)"
  by (auto simp: set_sock_def split: option.splits)

section \<open>Taking a context out of the list\<close>

text \<open>
  \<open>unlink_ctxt\<close> does what the comments in the source say in two situations only: the node
  is alone, or it has a newer and an older neighbour.
\<close>

lemma unlink_only:
  assumes "dll (socks s) None [a] None" "socks s a = Some c"
  shows "unlink_ctxt (sc_Back c) (sc_Forward c) s = Done (s\<lparr>g_pCtxtList := None\<rparr>)"
  using assms by (simp add: unlink_ctxt_def)

text \<open>Two heaps that differ in the list links of the socket contexts only.\<close>

definition same_but_links :: "(nat \<rightharpoonup> sock_ctx) \<Rightarrow> (nat \<rightharpoonup> sock_ctx) \<Rightarrow> bool" where
  "same_but_links h h' \<longleftrightarrow>
     (\<forall>x. map_option (\<lambda>c. (sc_Socket c, sc_fnAcceptEx c, sc_pIOContext c)) (h' x) =
          map_option (\<lambda>c. (sc_Socket c, sc_fnAcceptEx c, sc_pIOContext c)) (h x))"

lemma same_but_links_refl [simp]: "same_but_links h h"
  by (simp add: same_but_links_def)

lemma same_but_links_trans:
  "same_but_links h h' \<Longrightarrow> same_but_links h' h'' \<Longrightarrow> same_but_links h h''"
  by (simp add: same_but_links_def)

lemma same_but_links_upd:
  "h a = Some c \<Longrightarrow> same_but_links h (h(a \<mapsto> c\<lparr>sc_Back := x\<rparr>))"
  "h a = Some c \<Longrightarrow> same_but_links h (h(a \<mapsto> c\<lparr>sc_Forward := x\<rparr>))"
  by (auto simp: same_but_links_def)

lemma same_but_linksD:
  "same_but_links h h' \<Longrightarrow> h a = Some c \<Longrightarrow>
   \<exists>c'. h' a = Some c' \<and> sc_Socket c' = sc_Socket c \<and> sc_pIOContext c' = sc_pIOContext c"
  unfolding same_but_links_def by (drule spec [of _ a]) auto

lemma same_but_links_dom: "same_but_links h h' \<Longrightarrow> dom h' = dom h"
  unfolding same_but_links_def dom_def by (metis (no_types, lifting) option.map_disc_iff)

lemma unlink_inner:
  assumes d: "dll (socks s) None (as @ [n, a, b] @ bs) None" "distinct (as @ [n, a, b] @ bs)"
    and c: "socks s a = Some c"
  shows "\<exists>h. unlink_ctxt (sc_Back c) (sc_Forward c) s = Done (s\<lparr>socks := h\<rparr>) \<and>
    dll h None (as @ [n, b] @ bs) None \<and> same_but_links (socks s) h"
proof -
  have c': "sc_Back c = Some b" "sc_Forward c = Some n"
    using d(1) c by (auto simp: dll_append)
  obtain cn where cn: "socks s n = Some cn" using d(1) by (auto simp: dll_append)
  obtain cb where cb: "socks s b = Some cb" using d(1) by (auto simp: dll_append)
  let ?h1 = "(socks s)(b \<mapsto> cb\<lparr>sc_Forward := Some n\<rparr>)"
  let ?h = "?h1(n \<mapsto> cn\<lparr>sc_Back := Some b\<rparr>)"
  have old: "dll (socks s) None (as @ [n]) (Some a)" "dll (socks s) (Some a) (b # bs) None"
    using d(1) by (auto simp: dll_append case_first_ptr)
  have "dll ?h1 (Some n) (b # bs) None"
    using old(2) d(2) cb by (intro dll_set_forward) auto
  then have right: "dll ?h (Some n) (b # bs) None"
    using d(2) by (subst dll_cong [of _ ?h ?h1]) auto
  have "dll ?h1 None (as @ [n]) (Some a)"
    using old(1) d(2) by (subst dll_cong [of _ ?h1 "socks s"]) auto
  then have left: "dll ?h None (as @ [n]) (Some b)"
    using d(2) cn by (intro dll_set_back) auto
  have "dll ?h None ((as @ [n]) @ (b # bs)) None"
    using left right by (simp only: dll_append) simp
  moreover have "unlink_ctxt (sc_Back c) (sc_Forward c) s = Done (s\<lparr>socks := ?h\<rparr>)"
    using c' cn cb d(2) by (simp add: unlink_ctxt_def set_sock_def)
  moreover have "same_but_links (socks s) ?h"
    using cn cb d(2) by (auto simp: same_but_links_def)
  ultimately show ?thesis by auto
qed

text \<open>At the newest end \<open>g_pCtxtList\<close> is left as it is.\<close>

lemma unlink_newest:
  assumes d: "dll (socks s) None (a # b # bs) None" "distinct (a # b # bs)"
    and c: "socks s a = Some c"
  shows "\<exists>h. unlink_ctxt (sc_Back c) (sc_Forward c) s = Done (s\<lparr>socks := h\<rparr>) \<and>
    dll h None (b # bs) None \<and> same_but_links (socks s) h"
proof -
  obtain cb where cb: "socks s b = Some cb" using d(1) by auto
  let ?h = "(socks s)(b \<mapsto> cb\<lparr>sc_Forward := None\<rparr>)"
  have "dll ?h None (b # bs) None" using d cb by (intro dll_set_forward) auto
  moreover have "unlink_ctxt (sc_Back c) (sc_Forward c) s = Done (s\<lparr>socks := ?h\<rparr>)"
    using d(1) c cb by (auto simp: unlink_ctxt_def set_sock_def)
  moreover have "same_but_links (socks s) ?h" using cb by (rule same_but_links_upd)
  ultimately show ?thesis by blast
qed

text \<open>At the oldest end \<open>g_pCtxtList\<close> is moved to the second oldest.\<close>

lemma unlink_oldest:
  assumes d: "dll (socks s) None (as @ [n, a]) None" "distinct (as @ [n, a])"
    and c: "socks s a = Some c"
  shows "\<exists>h. unlink_ctxt (sc_Back c) (sc_Forward c) s =
      Done (s\<lparr>socks := h, g_pCtxtList := Some n\<rparr>) \<and>
    dll h None (as @ [n]) None \<and> same_but_links (socks s) h"
proof -
  obtain cn where cn: "socks s n = Some cn" using d(1) by (auto simp: dll_append)
  let ?h = "(socks s)(n \<mapsto> cn\<lparr>sc_Back := None\<rparr>)"
  have "dll (socks s) None (as @ [n]) (Some a)" using d(1) by (auto simp: dll_append)
  then have "dll ?h None (as @ [n]) None" using d cn by (intro dll_set_back) auto
  moreover have "unlink_ctxt (sc_Back c) (sc_Forward c) s =
      Done (s\<lparr>socks := ?h, g_pCtxtList := Some n\<rparr>)"
    using d(1) c cn by (auto simp: unlink_ctxt_def set_sock_def dll_append)
  moreover have "same_but_links (socks s) ?h" using cn by (rule same_but_links_upd)
  ultimately show ?thesis by blast
qed

lemma srv_upd_swap:
  "s\<lparr>socks := h, g_pCtxtList := p\<rparr> = s\<lparr>g_pCtxtList := p, socks := h\<rparr>"
  by (cases s) simp

section \<open>CtxtListDeleteFrom\<close>

definition entered :: "srv \<Rightarrow> srv" where
  "entered s = (tick s)\<lparr>cs_depth := Suc (cs_depth s)\<rparr>"

lemma entered_simps [simp]:
  "socks (entered s) = socks s" "ios (entered s) = ios s"
  "g_pCtxtList (entered s) = g_pCtxtList s" "g_bEndServer (entered s) = g_bEndServer s"
  "cs_depth (entered s) = Suc (cs_depth s)" "requests (entered s) = requests s"
  by (simp_all add: entered_def tick_def)

lemma leave_cs_simps [simp]:
  "socks (leave_cs s) = socks s" "ios (leave_cs s) = ios s"
  "g_pCtxtList (leave_cs s) = g_pCtxtList s" "g_bEndServer (leave_cs s) = g_bEndServer s"
  "cs_depth (leave_cs s) = cs_depth s - 1" "requests (leave_cs s) = requests s"
  by (simp_all add: leave_cs_def)

lemma enter_cs_entered: "cs_works os \<Longrightarrow> enter_cs os s = Some (entered s)"
  by (simp add: enter_cs_works entered_def)

text \<open>The context's own I/O can be waited for: the server is not ending, or the I/O ends.\<close>

definition io_ends :: "os \<Rightarrow> srv \<Rightarrow> bool" where
  "io_ends os s \<longleftrightarrow> (g_bEndServer s \<longrightarrow> (\<forall>b. os_completes os b))"

lemma owns_io_same_links:
  assumes "owns_io s a b" "same_but_links (socks s) h"
  obtains c io where "h a = Some c" "sc_pIOContext c = Some b" "ios s b = Some io"
    "io_Forward io = None"
  using assms same_but_linksD by (metis owns_io_def)

text \<open>What is left of \<open>CtxtListDeleteFrom\<close> once the node is out of the list.\<close>

lemma delete_from_unlinked:
  assumes "cs_works os" "0 < os_fuel os" "io_ends os s"
    and "socks s a = Some c" "owns_io s a b"
    and "unlink_ctxt (sc_Back c) (sc_Forward c) (entered s) =
      Done ((entered s)\<lparr>socks := h, g_pCtxtList := g\<rparr>)"
    and "same_but_links (socks s) h"
  shows "CtxtListDeleteFrom os (Some a) s =
    Done (leave_cs ((entered s)\<lparr>g_pCtxtList := g, ios := (ios s)(b := None),
                                 socks := h(a := None)\<rparr>))"
proof -
  obtain c1 io where c1: "h a = Some c1" "sc_pIOContext c1 = Some b" "ios s b = Some io"
    "io_Forward io = None"
    using owns_io_same_links [OF assms(5,7)] .
  obtain f where "os_fuel os = Suc f" using assms(2) by (cases "os_fuel os") auto
  then have "free_io_chain os (os_fuel os) (Some b) ((entered s)\<lparr>socks := h, g_pCtxtList := g\<rparr>) =
      Done ((entered s)\<lparr>socks := h, g_pCtxtList := g, ios := (ios s)(b := None)\<rparr>)"
    using c1 assms(3) by (simp add: ptr_defs io_ends_def)
  then show ?thesis using assms(1,4,6) c1
    by (simp add: CtxtListDeleteFrom_def enter_cs_entered ptr_defs)
qed

lemma owned_others:
  assumes "list_all2 (owns_io s) (as @ a # bs) ds" "distinct ds"
    and "same_but_links (socks s) h" "distinct (as @ a # bs)" "owns_io s a b"
    and "socks t = h(a := None)" "ios t = (ios s)(b := None)"
  shows "\<exists>ds'. distinct ds' \<and> list_all2 (owns_io t) (as @ bs) ds'"
proof -
  obtain d1 d d2 where ds: "ds = d1 @ d # d2" "list_all2 (owns_io s) as d1" "owns_io s a d"
    "list_all2 (owns_io s) bs d2"
    using assms(1) by (auto simp: list_all2_append1 list_all2_Cons1)
  have "d = b" using ds(3) assms(5) by (auto simp: owns_io_def)
  have keep: "owns_io t x y" if "owns_io s x y" "x \<noteq> a" "y \<noteq> b" for x y
    using owns_io_same_links [OF that(1) assms(3)] that assms(6,7) by (auto simp: owns_io_def)
  have "list_all2 (owns_io t) as d1"
    using ds assms(2,4) \<open>d = b\<close> by (auto intro!: list.rel_mono_strong [OF ds(2)] keep)
  moreover have "list_all2 (owns_io t) bs d2"
    using ds assms(2,4) \<open>d = b\<close> by (auto intro!: list.rel_mono_strong [OF ds(4)] keep)
  ultimately have "list_all2 (owns_io t) (as @ bs) (d1 @ d2)" by (rule list_all2_appendI)
  moreover have "distinct (d1 @ d2)" using assms(2) ds(1) by auto
  ultimately show ?thesis by blast
qed

lemma ctxt_chain_owns:
  assumes "ctxt_chain s (as @ a # bs)"
  obtains c b where "socks s a = Some c" "owns_io s a b"
  using assms by (auto simp: ctxt_chain_def list_all2_append1 list_all2_Cons1 owns_io_def)

text \<open>
  The node is gone, the others are linked as before and otherwise unchanged.
\<close>

definition removed :: "srv \<Rightarrow> nat \<Rightarrow> nat list \<Rightarrow> srv \<Rightarrow> bool" where
  "removed s a as t \<longleftrightarrow>
     ctxt_chain t as \<and> dom (socks t) = dom (socks s) - {a} \<and> cs_depth t = cs_depth s \<and>
     g_bEndServer t = g_bEndServer s \<and> requests t = requests s \<and>
     (\<forall>x. x \<noteq> a \<longrightarrow> map_option sc_Socket (socks t x) = map_option sc_Socket (socks s x))"

lemma deletes_from_list:
  assumes "ctxt_chain s (as @ a # bs)" "cs_works os" "0 < os_fuel os" "io_ends os s"
    and c: "socks s a = Some c"
    and u: "unlink_ctxt (sc_Back c) (sc_Forward c) (entered s) =
      Done ((entered s)\<lparr>socks := h, g_pCtxtList := g\<rparr>)"
    and sb: "same_but_links (socks s) h" and dl: "dll h None (as @ bs) None"
  shows "\<exists>t. CtxtListDeleteFrom os (Some a) s = Done t \<and> removed s a (as @ bs) t \<and>
    g_pCtxtList t = g"
proof -
  obtain b where b: "owns_io s a b" using assms(1) by (rule ctxt_chain_owns)
  let ?t = "leave_cs ((entered s)\<lparr>g_pCtxtList := g, ios := (ios s)(b := None),
    socks := h(a := None)\<rparr>)"
  have del: "CtxtListDeleteFrom os (Some a) s = Done ?t"
    using assms(2-4) c b u sb by (rule delete_from_unlinked)
  have dist: "distinct (as @ a # bs)" using assms(1) by (simp add: ctxt_chain_def)
  then have dl': "dll (h(a := None)) None (as @ bs) None"
    using dl by (subst dll_cong [of _ _ h]) auto
  obtain ds where "list_all2 (owns_io s) (as @ a # bs) ds" "distinct ds"
    using assms(1) by (auto simp: ctxt_chain_def)
  then have "\<exists>ds'. distinct ds' \<and> list_all2 (owns_io ?t) (as @ bs) ds'"
    using sb dist b by (rule owned_others) (simp_all add: leave_cs_def)
  then have "ctxt_chain ?t (as @ bs)"
    unfolding ctxt_chain_def using dl' dist by (simp add: leave_cs_def)
  moreover have "dom (h(a := None)) = dom (socks s) - {a}" using same_but_links_dom [OF sb] by auto
  moreover have "map_option sc_Socket (h x) = map_option sc_Socket (socks s x)" for x
    using sb same_but_links_dom [OF sb] same_but_linksD [OF sb, of x]
    by (cases "socks s x") (auto simp: domIff)
  ultimately show ?thesis using del
    by (intro exI [of _ ?t]) (simp add: removed_def leave_cs_def)
qed


text \<open>
  When a client other than the only one disconnects and its context is the newest,
  \<open>CtxtListDeleteFrom\<close> frees it and leaves \<open>g_pCtxtList\<close> pointing to the freed block: the
  next \<open>CtxtListAddTo\<close> (the next accepted connection) and \<open>CtxtListFree\<close> (the shutdown)
  both use memory after it was freed, whatever is added.
\<close>

theorem delete_newest_leaves_dangling_head:
  assumes "ctxt_list s (a # b # bs)" "cs_works os" "0 < os_fuel os" "io_ends os s"
  shows "\<exists>t. CtxtListDeleteFrom os (Some a) s = Done t \<and> g_pCtxtList t = Some a \<and>
    socks t a = None \<and> (\<forall>p. CtxtListAddTo os p t = Undefined) \<and> CtxtListFree os t = Undefined"
proof -
  have ch: "ctxt_chain s ([] @ a # b # bs)" and g: "g_pCtxtList s = Some a"
    using assms(1) by (simp_all add: ctxt_list_def)
  obtain c where c: "socks s a = Some c" using ch by (rule ctxt_chain_owns)
  have d: "dll (socks (entered s)) None (a # b # bs) None" "distinct (a # b # bs)"
    using ch by (simp_all add: ctxt_chain_def)
  have c': "socks (entered s) a = Some c" using c by simp
  obtain h where h: "unlink_ctxt (sc_Back c) (sc_Forward c) (entered s) =
      Done ((entered s)\<lparr>socks := h\<rparr>)" "dll h None (b # bs) None" "same_but_links (socks s) h"
    using unlink_newest [OF d c'] by auto
  have "(entered s)\<lparr>socks := h\<rparr> = (entered s)\<lparr>socks := h, g_pCtxtList := Some a\<rparr>"
    using g by (simp add: entered_def tick_def)
  then obtain t where t: "CtxtListDeleteFrom os (Some a) s = Done t"
    "dom (socks t) = dom (socks s) - {a}" "g_pCtxtList t = Some a"
    using deletes_from_list [where h = h and g = "Some a", OF ch assms(2-4) c] h by (auto simp: removed_def)
  then have f: "socks t a = None" by blast
  have "CtxtListAddTo os p t = Undefined" for p
    using t(3) f by (cases p) (auto simp: CtxtListAddTo_def enter_cs_entered [OF assms(2)]
        set_sock_def Let_def split: option.splits)
  moreover have "CtxtListFree os t = Undefined"
    using t(3) f assms(3) by (cases "os_fuel os")
      (simp_all add: CtxtListFree_def enter_cs_entered [OF assms(2)] get_sock_def)
  ultimately show ?thesis using t f by blast
qed

section \<open>CtxtListAddTo\<close>

text \<open>
  \<open>CtxtListAddTo\<close> of a context that is not in the list puts it at the front: the
  list stays well-formed, and no other field of any context and no I/O context changes.
\<close>

lemma add_to_list:
  assumes "ctxt_list s as" "cs_works os" "socks s a = Some c" "owns_io s a b"
    and "a \<notin> set as" "\<forall>x \<in> set as. \<not> owns_io s x b"
  shows "\<exists>t. CtxtListAddTo os (Some a) s = Done t \<and> ctxt_list t (a # as) \<and>
    same_but_links (socks s) (socks t) \<and> ios t = ios s \<and> cs_depth t = cs_depth s \<and>
    requests t = requests s"
proof -
  have ch: "dll (socks s) None as None" "distinct as" "g_pCtxtList s = first_ptr as None"
    using assms(1) by (simp_all add: ctxt_list_def ctxt_chain_def)
  obtain bs where bs: "distinct bs" "list_all2 (owns_io s) as bs"
    using assms(1) by (auto simp: ctxt_list_def ctxt_chain_def)
  let ?c = "c\<lparr>sc_Back := first_ptr as None, sc_Forward := None\<rparr>"
  obtain h where h: "CtxtListAddTo os (Some a) s =
      Done (leave_cs ((entered s)\<lparr>g_pCtxtList := Some a, socks := h\<rparr>))"
    "dll h None (a # as) None" "same_but_links (socks s) h"
  proof (cases as)
    case Nil
    let ?h = "(socks s)(a \<mapsto> ?c)"
    have "CtxtListAddTo os (Some a) s =
        Done (leave_cs ((entered s)\<lparr>g_pCtxtList := Some a, socks := ?h\<rparr>))"
      using Nil ch(3) assms(2,3)
      by (simp add: CtxtListAddTo_def enter_cs_entered set_sock_def srv_upd_swap)
    then show thesis using that [of ?h] Nil assms(3) by (simp add: same_but_links_def)
  next
    case (Cons n ns)
    obtain cn where cn: "socks s n = Some cn" using ch(1) Cons by auto
    let ?h1 = "(socks s)(a \<mapsto> ?c)"
    let ?h = "?h1(n \<mapsto> cn\<lparr>sc_Forward := Some a\<rparr>)"
    have "a \<noteq> n" using assms(5) Cons by auto
    then have "CtxtListAddTo os (Some a) s =
        Done (leave_cs ((entered s)\<lparr>g_pCtxtList := Some a, socks := ?h\<rparr>))"
      using Cons ch(3) assms(2,3) cn
      by (simp add: CtxtListAddTo_def enter_cs_entered set_sock_def Let_def)
    moreover have "dll ?h1 None (n # ns) None"
      using ch(1) Cons assms(5) by (subst dll_cong [of _ _ "socks s"]) auto
    then have "dll ?h (Some a) (n # ns) None"
      using ch(2) Cons cn \<open>a \<noteq> n\<close> by (intro dll_set_forward) auto
    moreover have "same_but_links (socks s) ?h"
      using cn assms(3) by (auto simp: same_but_links_def)
    ultimately show thesis using that [of ?h] Cons \<open>a \<noteq> n\<close> by simp
  qed
  let ?t = "leave_cs ((entered s)\<lparr>g_pCtxtList := Some a, socks := h\<rparr>)"
  have keep: "owns_io ?t x y" if "owns_io s x y" for x y
    by (rule owns_io_same_links [OF that h(3)]) (auto simp: owns_io_def leave_cs_def)
  have "list_all2 (owns_io ?t) (a # as) (b # bs)"
    using bs(2) assms(4) keep by (auto intro: list.rel_mono_strong)
  moreover have "b \<notin> set bs" using bs(2) assms(6) 
    by (metis in_set_conv_nth list_all2_conv_all_nth nth_mem)
  ultimately have "ctxt_list ?t (a # as)"
    unfolding ctxt_list_def ctxt_chain_def using h(2) ch(2) assms(5) bs(1)
    by (intro conjI exI [of _ "b # bs"]) (simp_all add: leave_cs_def)
  then show ?thesis using h by (intro exI [of _ ?t]) (simp add: leave_cs_def)
qed

section \<open>CloseClient and CtxtListFree\<close>

lemma dll_cong_links:
  "(\<And>a. a \<in> set as \<Longrightarrow> map_option (\<lambda>c. (sc_Back c, sc_Forward c)) (h' a) =
      map_option (\<lambda>c. (sc_Back c, sc_Forward c)) (h a)) \<Longrightarrow>
   dll h f as z \<Longrightarrow> dll h' f as z"
proof (induction as arbitrary: f)
  case (Cons a as)
  then have "dll h' (Some a) as z" by simp
  moreover obtain c where "h a = Some c" "sc_Forward c = f" "sc_Back c = first_ptr as z"
    using Cons.prems(2) by (auto simp: case_first_ptr)
  moreover from this Cons.prems(1) [of a]
  obtain c' where "h' a = Some c'" "sc_Forward c' = f" "sc_Back c' = first_ptr as z" by auto
  ultimately show ?case by (simp add: case_first_ptr)
qed simp

definition same_chain :: "srv \<Rightarrow> srv \<Rightarrow> bool" where
  "same_chain s t \<longleftrightarrow>
     (\<forall>x. map_option (\<lambda>c. (sc_pIOContext c, sc_Back c, sc_Forward c)) (socks t x) =
          map_option (\<lambda>c. (sc_pIOContext c, sc_Back c, sc_Forward c)) (socks s x)) \<and>
     (\<forall>x. map_option io_Forward (ios t x) = map_option io_Forward (ios s x))"

lemma same_chain_owns: "same_chain s t \<Longrightarrow> owns_io s a b \<Longrightarrow> owns_io t a b"
  unfolding same_chain_def owns_io_def
  by (elim conjE exE, drule spec [of _ a], drule spec [of _ b]) auto

lemma same_chain_ctxt_chain:
  assumes "same_chain s t" "ctxt_chain s as"
  shows "ctxt_chain t as"
proof -
  have "map_option (\<lambda>c. (sc_Back c, sc_Forward c)) (socks t x) =
      map_option (\<lambda>c. (sc_Back c, sc_Forward c)) (socks s x)" for x
    using conjunct1 [OF assms(1) [unfolded same_chain_def], rule_format, of x]
    by (cases "socks t x"; cases "socks s x"; simp)
  then have "dll (socks t) None as None"
    using assms(2) dll_cong_links [of as "socks t" "socks s"] by (simp add: ctxt_chain_def)
  moreover obtain bs where "distinct bs" "list_all2 (owns_io s) as bs" "distinct as"
    using assms(2) by (auto simp: ctxt_chain_def)
  moreover from this have "list_all2 (owns_io t) as bs"
    using same_chain_owns [OF assms(1)] by (auto intro: list.rel_mono_strong)
  ultimately show ?thesis by (auto simp: ctxt_chain_def)
qed

lemma ctxt_list_frame:
  assumes "ctxt_list s as" "\<And>x. x \<in> set as \<Longrightarrow> socks t x = socks s x"
    and "\<And>x y. x \<in> set as \<Longrightarrow> owns_io s x y \<Longrightarrow> ios t y = ios s y"
    and "g_pCtxtList t = g_pCtxtList s"
  shows "ctxt_list t as"
proof -
  have ch: "dll (socks s) None as None" "distinct as" "g_pCtxtList s = first_ptr as None"
    using assms(1) by (simp_all add: ctxt_list_def ctxt_chain_def)
  obtain bs where bs: "distinct bs" "list_all2 (owns_io s) as bs"
    using assms(1) by (auto simp: ctxt_list_def ctxt_chain_def)
  have "list_all2 (owns_io t) as bs"
  proof (rule list.rel_mono_strong [OF bs(2)])
    fix x y assume x: "x \<in> set as" and own: "owns_io s x y"
    show "owns_io t x y"
      using own assms(2) [OF x] assms(3) [OF x own] by (simp add: owns_io_def)
  qed
  moreover have "dll (socks t) None as None"
    using ch(1) dll_cong [of as "socks t" "socks s"] assms(2) by blast
  ultimately show ?thesis
    using ch bs(1) assms(4) by (auto simp: ctxt_list_def ctxt_chain_def)
qed

lemma ctxt_list_member_owns: "ctxt_list s as \<Longrightarrow> x \<in> set as \<Longrightarrow> \<exists>y. owns_io s x y"
proof -
  assume x: "x \<in> set as" and "ctxt_list s as"
  then obtain bs where bs: "list_all2 (owns_io s) as bs"
    by (auto simp: ctxt_list_def ctxt_chain_def)
  from x obtain i where "i < length as" "x = as ! i" by (auto simp: in_set_conv_nth)
  with bs show ?thesis by (auto dest: list_all2_nthD)
qed

text \<open>
  The first part of \<open>CloseClient\<close>: the sockets are closed, then the context goes to
  \<open>CtxtListDeleteFrom\<close>.
\<close>

lemma close_client_starts:
  assumes "cs_works os" "socks s a = Some c" "owns_io s a b"
  shows "\<exists>s1. CloseClient os (Some a) graceful s =
      bind_outcome (CtxtListDeleteFrom os (Some a) s1) (\<lambda>t. Done (leave_cs t)) \<and>
    same_chain s s1 \<and> g_pCtxtList s1 = g_pCtxtList s \<and> g_bEndServer s1 = g_bEndServer s \<and>
    cs_depth s1 = Suc (cs_depth s) \<and> set (requests s) \<subseteq> set (requests s1) \<and>
    CloseSocket (sc_Socket c) \<in> set (requests s1) \<and>
    (\<forall>x. x \<noteq> a \<longrightarrow> socks s1 x = socks s x) \<and> dom (socks s1) = dom (socks s)"
proof -
  obtain io where io: "ios s b = Some io" "sc_pIOContext c = Some b"
    using assms(2,3) by (auto simp: owns_io_def)
  let ?e = "entered s"
  let ?l = "if \<not> graceful then request (LingerAbort (sc_Socket c)) ?e else ?e"
  let ?i = "if io_SocketAccept io \<noteq> None
    then (closesocket (io_SocketAccept io) ?l)\<lparr>ios := (ios s)(b \<mapsto> io\<lparr>io_SocketAccept := None\<rparr>)\<rparr>
    else ?l"
  let ?s1 = "(closesocket (sc_Socket c) ?i)\<lparr>socks := (socks s)(a \<mapsto> c\<lparr>sc_Socket := None\<rparr>)\<rparr>"
  have "CloseClient os (Some a) graceful s =
      bind_outcome (CtxtListDeleteFrom os (Some a) ?s1) (\<lambda>t. Done (leave_cs t))"
    using assms(1,2) io
    by (simp add: CloseClient_def enter_cs_entered ptr_defs closesocket_def request_def)
  moreover have "same_chain s ?s1"
    using assms(2) io by (auto simp: same_chain_def closesocket_def request_def)
  ultimately show ?thesis using assms(2)
    by (intro exI [of _ ?s1]) (auto simp: closesocket_def request_def)
qed

text \<open>A round of the loop of \<open>CtxtListFree\<close>: the newest context is closed and removed.\<close>

lemma close_newest:
  assumes "ctxt_chain s (a # as)" "cs_works os" "0 < os_fuel os" "io_ends os s"
    and c: "socks s a = Some c"
  shows "\<exists>t. CloseClient os (Some a) graceful s = Done t \<and> ctxt_chain t as \<and>
    dom (socks t) = dom (socks s) - {a} \<and> cs_depth t = cs_depth s \<and>
    g_bEndServer t = g_bEndServer s \<and> set (requests s) \<subseteq> set (requests t) \<and>
    CloseSocket (sc_Socket c) \<in> set (requests t) \<and>
    (\<forall>x. x \<noteq> a \<longrightarrow> map_option sc_Socket (socks t x) = map_option sc_Socket (socks s x)) \<and>
    g_pCtxtList t = (if as = [] then None else g_pCtxtList s)"
proof -
  obtain b where "owns_io s a b"
    using assms(1) ctxt_chain_owns [of s "[]" a as] by auto
  then obtain s1 where s1: "CloseClient os (Some a) graceful s =
      bind_outcome (CtxtListDeleteFrom os (Some a) s1) (\<lambda>t. Done (leave_cs t))"
    "same_chain s s1" "g_pCtxtList s1 = g_pCtxtList s" "g_bEndServer s1 = g_bEndServer s"
    "cs_depth s1 = Suc (cs_depth s)" "set (requests s) \<subseteq> set (requests s1)"
    "CloseSocket (sc_Socket c) \<in> set (requests s1)" "\<forall>x. x \<noteq> a \<longrightarrow> socks s1 x = socks s x"
    "dom (socks s1) = dom (socks s)"
    using close_client_starts [OF assms(2) c] by blast
  have ch: "ctxt_chain s1 ([] @ a # as)" using s1(2) assms(1) same_chain_ctxt_chain by simp
  then obtain c1 where c1: "socks s1 a = Some c1" by (rule ctxt_chain_owns)
  have d: "dll (socks (entered s1)) None (a # as) None" "distinct (a # as)"
    using ch by (simp_all add: ctxt_chain_def)
  have e: "io_ends os s1" using assms(4) s1(4) by (simp add: io_ends_def)
  obtain h where h: "unlink_ctxt (sc_Back c1) (sc_Forward c1) (entered s1) =
      Done ((entered s1)\<lparr>socks := h, g_pCtxtList := (if as = [] then None else g_pCtxtList s)\<rparr>)"
    "same_but_links (socks s1) h" "dll h None ([] @ as) None"
  proof (cases as)
    case Nil
    then have "unlink_ctxt (sc_Back c1) (sc_Forward c1) (entered s1) =
        Done ((entered s1)\<lparr>socks := socks s1, g_pCtxtList := None\<rparr>)"
      using unlink_only [of "entered s1" a c1] d c1 by (simp add: entered_def tick_def)
    then show thesis using that [of "socks s1"] Nil by simp
  next
    case (Cons n ns)
    then obtain h where "unlink_ctxt (sc_Back c1) (sc_Forward c1) (entered s1) =
        Done ((entered s1)\<lparr>socks := h\<rparr>)" "dll h None as None" "same_but_links (socks s1) h"
      using unlink_newest [of "entered s1" a n ns c1] d c1 by auto
    moreover have "(entered s1)\<lparr>socks := h\<rparr> = (entered s1)\<lparr>socks := h, g_pCtxtList := g_pCtxtList s\<rparr>"
      using s1(3) by (simp add: entered_def tick_def)
    ultimately show thesis using that [of h] Cons by simp
  qed
  from deletes_from_list [OF ch assms(2,3) e c1 h]
  obtain t where t: "CtxtListDeleteFrom os (Some a) s1 = Done t" "removed s1 a as t"
    "g_pCtxtList t = (if as = [] then None else g_pCtxtList s)" by auto
  have "ctxt_chain (leave_cs t) as"
    using t(2) by (auto simp: removed_def intro: same_chain_ctxt_chain simp: same_chain_def)
  then show ?thesis using s1 t by (intro exI [of _ "leave_cs t"]) (simp add: removed_def)
qed

lemma free_ctxt_loop_all:
  assumes "ctxt_chain s as" "cs_works os" "0 < os_fuel os" "io_ends os s" "length as \<le> fuel"
  shows "\<exists>t. free_ctxt_loop os fuel (first_ptr as None) s = Done t \<and>
    dom (socks t) = dom (socks s) - set as \<and> cs_depth t = cs_depth s \<and>
    set (requests s) \<subseteq> set (requests t) \<and>
    (\<forall>a \<in> set as. \<forall>c. socks s a = Some c \<longrightarrow> CloseSocket (sc_Socket c) \<in> set (requests t)) \<and>
    g_pCtxtList t = (if as = [] then g_pCtxtList s else None)"
  using assms
proof (induction as arbitrary: s fuel)
  case Nil
  then show ?case by simp
next
  case (Cons a as)
  then obtain f where f: "fuel = Suc f" by (cases fuel) auto
  obtain c where c: "socks s a = Some c" using Cons.prems(1) by (auto simp: ctxt_chain_def)
  have older: "sc_Back c = first_ptr as None"
    using Cons.prems(1) c by (auto simp: ctxt_chain_def case_first_ptr)
  have a: "a \<notin> set as" using Cons.prems(1) by (simp add: ctxt_chain_def)
  obtain t1 where t1: "CloseClient os (Some a) False s = Done t1" "ctxt_chain t1 as"
    "dom (socks t1) = dom (socks s) - {a}" "cs_depth t1 = cs_depth s"
    "g_bEndServer t1 = g_bEndServer s" "set (requests s) \<subseteq> set (requests t1)"
    "CloseSocket (sc_Socket c) \<in> set (requests t1)"
    "\<forall>x. x \<noteq> a \<longrightarrow> map_option sc_Socket (socks t1 x) = map_option sc_Socket (socks s x)"
    "g_pCtxtList t1 = (if as = [] then None else g_pCtxtList s)"
    using close_newest [OF Cons.prems(1-4) c, of False] by blast
  have e: "io_ends os t1" using Cons.prems(4) t1(5) by (simp add: io_ends_def)
  have len: "length as \<le> f" using Cons.prems(5) f by simp
  obtain t where t: "free_ctxt_loop os f (first_ptr as None) t1 = Done t"
    "dom (socks t) = dom (socks t1) - set as" "cs_depth t = cs_depth t1"
    "set (requests t1) \<subseteq> set (requests t)"
    "\<forall>x \<in> set as. \<forall>c. socks t1 x = Some c \<longrightarrow> CloseSocket (sc_Socket c) \<in> set (requests t)"
    "g_pCtxtList t = (if as = [] then g_pCtxtList t1 else None)"
    using Cons.IH [OF t1(2) Cons.prems(2,3) e len] by blast
  have "CloseSocket (sc_Socket c') \<in> set (requests t)"
    if "x \<in> set (a # as)" "socks s x = Some c'" for x c'
  proof (cases "x = a")
    case True
    then show ?thesis using that c t1(7) t(4) by auto
  next
    case False
    then have "map_option sc_Socket (socks t1 x) = Some (sc_Socket c')" using t1(8) that by simp
    then show ?thesis using t(5) that False by fastforce
  qed
  then show ?case using f c older t1 t by (auto simp: get_sock_def)
qed

text \<open>
  \<open>CtxtListFree\<close> on a well-formed list terminates, closes the socket of every listed
  context, frees exactly the listed contexts, and leaves an empty list and the critical
  section as it was. (Fuel: the number of contexts. The pending I/O of the contexts has to
  end, as it does after \<open>closesocket\<close>.)
\<close>

lemma ctxt_list_free_closes_all:
  assumes "ctxt_list s as" "cs_works os" "0 < os_fuel os" "length as \<le> os_fuel os" "io_ends os s"
  shows "\<exists>t. CtxtListFree os s = Done t \<and> g_pCtxtList t = None \<and>
    dom (socks t) = dom (socks s) - set as \<and> cs_depth t = cs_depth s \<and>
    set (requests s) \<subseteq> set (requests t) \<and>
    (\<forall>a \<in> set as. \<forall>c. socks s a = Some c \<longrightarrow> CloseSocket (sc_Socket c) \<in> set (requests t))"
proof -
  have ch: "ctxt_chain (entered s) as" and g: "g_pCtxtList s = first_ptr as None"
    using assms(1) by (auto simp: ctxt_list_def intro: same_chain_ctxt_chain simp: same_chain_def)
  have e: "io_ends os (entered s)" using assms(5) by (simp add: io_ends_def)
  obtain t where "free_ctxt_loop os (os_fuel os) (first_ptr as None) (entered s) = Done t"
    "dom (socks t) = dom (socks s) - set as" "cs_depth t = Suc (cs_depth s)"
    "set (requests s) \<subseteq> set (requests t)"
    "\<forall>a \<in> set as. \<forall>c. socks s a = Some c \<longrightarrow> CloseSocket (sc_Socket c) \<in> set (requests t)"
    "g_pCtxtList t = (if as = [] then g_pCtxtList s else None)"
    using free_ctxt_loop_all [OF ch assms(2,3) e assms(4)] by auto
  then show ?thesis using g
    by (intro exI [of _ "leave_cs t"])
      (simp add: CtxtListFree_def enter_cs_entered [OF assms(2)])
qed

text \<open>
  When the oldest of three or more clients disconnects, \<open>CtxtListDeleteFrom\<close> takes it
  for the start of the list and moves \<open>g_pCtxtList\<close> to the second oldest: every newer
  context drops out of the list, and the \<open>CtxtListFree\<close> of the shutdown leaves all of them
  allocated.
\<close>

theorem delete_oldest_loses_newer:
  assumes "ctxt_list s (as @ [n, a])" "as \<noteq> []" "cs_works os" "0 < os_fuel os" "io_ends os s"
  shows "\<exists>t u. CtxtListDeleteFrom os (Some a) s = Done t \<and> g_pCtxtList t = Some n \<and>
    CtxtListFree os t = Done u \<and> dom (socks u) = dom (socks s) - {a, n} \<and>
    (\<forall>x \<in> set as. socks u x \<noteq> None)"
proof -
  have ch: "ctxt_chain s ((as @ [n]) @ a # [])" using assms(1) by (simp add: ctxt_list_def)
  then obtain c where c: "socks s a = Some c" by (rule ctxt_chain_owns)
  have d: "dll (socks (entered s)) None (as @ [n, a]) None" "distinct (as @ [n, a])"
    using ch by (simp_all add: ctxt_chain_def)
  obtain h where h: "unlink_ctxt (sc_Back c) (sc_Forward c) (entered s) =
      Done ((entered s)\<lparr>socks := h, g_pCtxtList := Some n\<rparr>)"
    "dll h None ((as @ [n]) @ []) None" "same_but_links (socks s) h"
    using unlink_oldest [OF d, of c] c by auto
  from deletes_from_list [OF ch assms(3-5) c h(1,3,2)]
  obtain t where t: "CtxtListDeleteFrom os (Some a) s = Done t" "removed s a (as @ [n]) t"
    "g_pCtxtList t = Some n" by auto
  have ch': "ctxt_chain (entered t) (as @ n # [])"
    using t(2) by (auto simp: removed_def same_chain_def intro: same_chain_ctxt_chain)
  have e: "io_ends os (entered t)" using t(2) assms(5) by (simp add: io_ends_def removed_def)
  obtain cn bn where cn: "socks (entered t) n = Some cn" "owns_io (entered t) n bn"
    using ch' by (rule ctxt_chain_owns)
  have "sc_Back cn = None" using ch' cn by (auto simp: ctxt_chain_def dll_append)
  obtain s1 where s1: "CloseClient os (Some n) False (entered t) =
      bind_outcome (CtxtListDeleteFrom os (Some n) s1) (\<lambda>t. Done (leave_cs t))"
    "same_chain (entered t) s1" "g_bEndServer s1 = g_bEndServer t" "dom (socks s1) = dom (socks t)"
    using close_client_starts [OF assms(3) cn, of False] by auto
  have ch1: "ctxt_chain s1 (as @ n # [])" using s1(2) ch' by (rule same_chain_ctxt_chain)
  then obtain c1 where c1: "socks s1 n = Some c1" by (rule ctxt_chain_owns)
  obtain as' m where as: "as = as' @ [m]" using assms(2) by (metis rev_exhaust)
  have d1: "dll (socks (entered s1)) None (as' @ [m, n]) None" "distinct (as' @ [m, n])"
    using ch1 as by (simp_all add: ctxt_chain_def)
  obtain h1 where h1: "unlink_ctxt (sc_Back c1) (sc_Forward c1) (entered s1) =
      Done ((entered s1)\<lparr>socks := h1, g_pCtxtList := Some m\<rparr>)"
    "dll h1 None (as @ []) None" "same_but_links (socks s1) h1"
    using unlink_oldest [OF d1, of c1] c1 as by auto
  have e1: "io_ends os s1" using e s1(3) by (simp add: io_ends_def)
  from deletes_from_list [OF ch1 assms(3,4) e1 c1 h1(1,3,2)]
  obtain u where u: "CtxtListDeleteFrom os (Some n) s1 = Done u" "removed s1 n as u" by auto
  obtain f where f: "os_fuel os = Suc f" using assms(4) by (cases "os_fuel os") auto
  have "CtxtListFree os t = Done (leave_cs (leave_cs u))"
    using t(3) f cn(1) \<open>sc_Back cn = None\<close> s1(1) u(1)
    by (simp add: CtxtListFree_def enter_cs_entered [OF assms(3)] get_sock_def)
  moreover have dom: "dom (socks u) = dom (socks s) - {a, n}"
    using u(2) s1(4) t(2) by (auto simp: removed_def)
  moreover have "dll (socks u) None as None"
    using u(2) by (simp add: removed_def ctxt_chain_def)
  then have "set as \<subseteq> dom (socks u)" by (rule dll_live)
  ultimately show ?thesis using t by (intro exI [of _ t] exI [of _ "leave_cs (leave_cs u)"]) auto
qed

section \<open>A concrete server, for the witnesses\<close>

definition demo_os :: os where
  "demo_os = \<lparr>os_enter = (\<lambda>_. True), os_alloc_sock = (\<lambda>n. Some (100 + n)),
     os_alloc_io = (\<lambda>n. Some (200 + n)), os_socket = (\<lambda>n. Some (300 + n)),
     os_port = (\<lambda>_. Handle 1), os_ok = (\<lambda>_. True), os_completes = (\<lambda>_. True),
     os_strcopy = (\<lambda>dest src. src), os_fuel = 8\<rparr>"

definition demo_sock :: "nat \<Rightarrow> ptr \<Rightarrow> ptr \<Rightarrow> sock_ctx" where
  "demo_sock n older newer = \<lparr>sc_Socket = Some (300 + n), sc_fnAcceptEx = False,
     sc_pIOContext = Some (10 + n), sc_Back = older, sc_Forward = newer\<rparr>"

definition demo_io :: io_ctx where
  "demo_io = \<lparr>io_Buffer = [], io_wsabuf_buf = 0, io_wsabuf_len = 0, io_nTotalBytes = 0,
     io_nSentBytes = 0, io_IOOperation = ClientIoRead, io_SocketAccept = None, io_Forward = None\<rparr>"

text \<open>Three clients, 3 the newest; 4 has been allocated and is not listed.\<close>

definition demo_srv :: srv where
  "demo_srv = \<lparr>g_Port = ''5001'', g_bEndServer = False, g_bRestart = False, g_bVerbose = False,
     g_hIOCP = Handle 1, g_sdListen = Some 300, g_cleanup = False, g_pCtxtListenSocket = None,
     g_pCtxtList = Some 3,
     socks = [1 \<mapsto> demo_sock 1 None (Some 2), 2 \<mapsto> demo_sock 2 (Some 1) (Some 3),
              3 \<mapsto> demo_sock 3 (Some 2) None, 4 \<mapsto> demo_sock 4 None None],
     ios = [11 \<mapsto> demo_io, 12 \<mapsto> demo_io, 13 \<mapsto> demo_io, 14 \<mapsto> demo_io],
     cs_depth = 0, requests = [], clock = 0\<rparr>"

lemma demo_list: "ctxt_list demo_srv [3, 2, 1]"
proof -
  have "list_all2 (owns_io demo_srv) [3, 2, 1] [13, 12, 11]"
    by (simp add: owns_io_def demo_srv_def demo_sock_def demo_io_def)
  then have "\<exists>bs. distinct bs \<and> list_all2 (owns_io demo_srv) [3, 2, 1] bs"
    by (intro exI [of _ "[13, 12, 11]"]) simp
  then show ?thesis by (simp add: ctxt_list_def ctxt_chain_def demo_srv_def demo_sock_def)
qed

lemma demo_os_works: "cs_works demo_os" "0 < os_fuel demo_os" "3 \<le> os_fuel demo_os"
  "io_ends demo_os s"
  by (simp_all add: cs_works_def demo_os_def io_ends_def)


theorem delete_newest_leaves_dangling_head_witness:
  "\<exists>t. CtxtListDeleteFrom demo_os (Some 3) demo_srv = Done t \<and> g_pCtxtList t = Some 3 \<and>
    socks t 3 = None \<and> CtxtListAddTo demo_os (Some 4) t = Undefined"
  using delete_newest_leaves_dangling_head [of demo_srv 3 2 "[1]" demo_os]
    demo_list demo_os_works by auto

theorem delete_oldest_loses_newer_witness:
  "\<exists>t u. CtxtListDeleteFrom demo_os (Some 1) demo_srv = Done t \<and> CtxtListFree demo_os t = Done u \<and>
    socks u 3 \<noteq> None"
  using delete_oldest_loses_newer [of demo_srv "[3]" 2 1 demo_os] demo_list demo_os_works by auto

end
