(* ===== verification/Iocp_Worker.thy ===== *)
theory Iocp_Worker
  imports Iocp_Context
begin

text \<open>
  The sockets and the worker threads of IocpServerex.cpp: \<open>CreateSocket\<close>,
  \<open>CreateListenSocket\<close>, \<open>UpdateCompletionPort\<close>, \<open>CreateAcceptSocket\<close> and one round of
  the loop of \<open>WorkerThread\<close>, from the completion packet that
  \<open>GetQueuedCompletionStatus\<close> returns to the next one.
\<close>

section \<open>Sockets\<close>

text \<open>\<open>CreateSocket\<close> returns the socket also when \<open>SO_SNDBUF\<close> cannot be set.\<close>

definition CreateSocket :: "os \<Rightarrow> srv \<Rightarrow> sock option \<times> srv" where
  "CreateSocket os s =
     (case os_socket os (clock s) of
        None \<Rightarrow> (None, tick s)
      | Some sd \<Rightarrow> (case api os (tick s) of (_, s1) \<Rightarrow> (Some sd, s1)))"

definition CreateListenSocket :: "os \<Rightarrow> srv \<Rightarrow> bool \<times> srv" where
  "CreateListenSocket os s =
     (case api os s of (resolved, s1) \<Rightarrow>
      if \<not> resolved then (False, s1)
      else case api os s1 of (found, s2) \<Rightarrow>
      if \<not> found then (False, s2)
      else case CreateSocket os s2 of (sd, s3) \<Rightarrow>
      let s4 = s3\<lparr>g_sdListen := sd\<rparr> in
      if sd = None then (False, s4)
      else case api os s4 of (bound, s5) \<Rightarrow>
      if \<not> bound then (False, s5)
      else case api os s5 of (listening, s6) \<Rightarrow> (listening, s6))"

text \<open>
  \<open>UpdateCompletionPort\<close>. The answer of \<open>CreateIoCompletionPort\<close> overwrites \<open>g_hIOCP\<close>
  also when it is \<open>NULL\<close>; the trace for \<open>g_bVerbose\<close> reads the context again.
\<close>

definition UpdateCompletionPort ::
  "os \<Rightarrow> sock option \<Rightarrow> io_operation \<Rightarrow> bool \<Rightarrow> srv \<Rightarrow> (ptr \<times> srv) outcome" where
  "UpdateCompletionPort os sd ClientIo bAddToList s =
     bind_outcome (CtxtAllocate os sd ClientIo s) (\<lambda>(p, s1).
       if p = None then Done (None, s1)
       else
         let port = os_port os (clock s1); s2 = (tick s1)\<lparr>g_hIOCP := port\<rparr> in
         if port = NullHandle then
           bind_outcome (get_sock p s2) (\<lambda>c.
           bind_outcome (if sc_pIOContext c \<noteq> None then free_io (sc_pIOContext c) s2 else Done s2) (\<lambda>s3.
           bind_outcome (free_sock p s3) (\<lambda>s4. Done (None, s4))))
         else
           let s3 = request (Associated sd p) s2 in
           bind_outcome (if bAddToList then CtxtListAddTo os p s3 else Done s3) (\<lambda>s4.
           bind_outcome (if g_bVerbose s4 then bind_outcome (get_sock p s4) (\<lambda>_. Done s4) else Done s4)
             (\<lambda>s5. Done (p, s5))))"

text \<open>
  \<open>AcceptEx\<close> returns a BOOL: \<open>TRUE\<close>, or \<open>FALSE\<close> on an error or when the operation is
  pending. The code compares the answer with \<open>SOCKET_ERROR\<close>.
\<close>

definition SOCKET_ERROR :: int where "SOCKET_ERROR = -1"

definition accept_ex_BOOL :: "bool \<Rightarrow> int" where
  "accept_ex_BOOL completed = (if completed then 1 else 0)"

definition CreateAcceptSocket :: "os \<Rightarrow> bool \<Rightarrow> srv \<Rightarrow> (bool \<times> srv) outcome" where
  "CreateAcceptSocket os fUpdateIOCP s =
     bind_outcome
       (if fUpdateIOCP then
          bind_outcome (UpdateCompletionPort os (g_sdListen s) ClientIoAccept False s) (\<lambda>(p, s1).
            let s2 = s1\<lparr>g_pCtxtListenSocket := p\<rparr> in
            if p = None then Done (False, s2)
            else case api os s2 of (loaded, s3) \<Rightarrow>
              if \<not> loaded then Done (False, s3)
              else bind_outcome (set_sock p (\<lambda>c. c\<lparr>sc_fnAcceptEx := True\<rparr>) s3)
                (\<lambda>s4. Done (True, s4)))
        else Done (True, s))
       (\<lambda>(go_on, s4).
          if \<not> go_on then Done (False, s4)
          else
            bind_outcome (get_sock (g_pCtxtListenSocket s4) s4) (\<lambda>l.
            case CreateSocket os s4 of (sd, s5) \<Rightarrow>
            bind_outcome (set_io (sc_pIOContext l) (\<lambda>i. i\<lparr>io_SocketAccept := sd\<rparr>) s5) (\<lambda>s6.
            if sd = None then Done (False, s6)
            else if \<not> sc_fnAcceptEx l then Undefined
            else case api os s6 of (accepted, s7) \<Rightarrow>
              \<comment> \<open>\<open>accepted\<close>: the accept is posted, completed at once or pending\<close>
              let nRet = accept_ex_BOOL accepted;
                  s8 = (if accepted then
                          request (AcceptExPosted (the (g_sdListen s7)) (the sd)) s7 else s7) in
              if nRet = SOCKET_ERROR \<and> \<not> accepted then Done (False, s8)
              else Done (True, s8))))"

section \<open>The worker thread\<close>

text \<open>A completion packet: what \<open>GetQueuedCompletionStatus\<close> hands over.\<close>

record packet =
  pk_success :: bool
  pk_size :: nat          \<comment> \<open>\<open>dwIoSize\<close>\<close>
  pk_key :: ptr           \<comment> \<open>\<open>lpPerSocketContext\<close>\<close>
  pk_overlapped :: ptr    \<comment> \<open>\<open>lpOverlapped\<close>, the \<open>PER_IO_CONTEXT\<close>\<close>

datatype round = Continue | Return

text \<open>A send of \<open>len\<close> bytes at offset \<open>off\<close> of the buffer of an I/O context.\<close>

definition WSASend :: "os \<Rightarrow> sock option \<Rightarrow> ptr \<Rightarrow> nat \<Rightarrow> nat \<Rightarrow> srv \<Rightarrow> (bool \<times> srv) outcome" where
  "WSASend os sd iop off len s =
     bind_outcome (get_io iop s) (\<lambda>io.
       case api os s of (ok, s1) \<Rightarrow>
         Done (ok, if ok then request (SendPosted sd iop (take len (drop off (io_Buffer io)))) s1
                   else s1))"

definition WSARecv :: "os \<Rightarrow> sock option \<Rightarrow> ptr \<Rightarrow> nat \<Rightarrow> srv \<Rightarrow> (bool \<times> srv) outcome" where
  "WSARecv os sd iop len s =
     bind_outcome (get_io iop s) (\<lambda>_.
       case api os s of (ok, s1) \<Rightarrow>
         Done (ok, if ok then request (RecvPosted sd iop len) s1 else s1))"

text \<open>What follows every send and receive: the client is closed if it could not be posted.\<close>

definition or_close :: "os \<Rightarrow> ptr \<Rightarrow> (bool \<times> srv) outcome \<Rightarrow> srv outcome" where
  "or_close os p r =
     bind_outcome r (\<lambda>(ok, s). if ok then Done s else CloseClient os p False s)"

definition accept_completed :: "os \<Rightarrow> packet \<Rightarrow> srv \<Rightarrow> (round \<times> srv) outcome" where
  "accept_completed os pk s =
     bind_outcome (get_sock (pk_key pk) s) (\<lambda>l.
     bind_outcome (get_io (sc_pIOContext l) s) (\<lambda>lio.
     case api os s of (updated, s1) \<Rightarrow>
     if \<not> updated then Done (Return, s1\<lparr>g_cleanup := True\<rparr>)
     else
       bind_outcome (UpdateCompletionPort os (io_SocketAccept lio) ClientIoAccept True s1) (\<lambda>(ap, s2).
       if ap = None then Done (Return, s2\<lparr>g_cleanup := True\<rparr>)
       else
         bind_outcome (get_sock ap s2) (\<lambda>a.
         bind_outcome
           (if pk_size pk \<noteq> 0 then
              bind_outcome (get_io (sc_pIOContext l) s2) (\<lambda>lio2.
              bind_outcome
                (set_io (sc_pIOContext a) (\<lambda>i. i\<lparr>io_IOOperation := ClientIoWrite,
                   io_nTotalBytes := int (pk_size pk), io_nSentBytes := 0,
                   io_wsabuf_len := pk_size pk,
                   io_Buffer := os_strcopy os (io_Buffer i) (io_Buffer lio2),
                   io_wsabuf_buf := 0\<rparr>) s2) (\<lambda>s3.
              or_close os ap
                (WSASend os (io_SocketAccept lio2) (sc_pIOContext a) 0 (pk_size pk) s3)))
            else
              bind_outcome
                (set_io (sc_pIOContext a) (\<lambda>i. i\<lparr>io_IOOperation := ClientIoRead\<rparr>) s2) (\<lambda>s3.
              or_close os ap (WSARecv os (sc_Socket a) (sc_pIOContext a) MAX_BUFF_SIZE s3)))
           (\<lambda>s4.
         bind_outcome (CreateAcceptSocket os False s4) (\<lambda>(posted, s5).
           if \<not> posted then Done (Return, s5\<lparr>g_cleanup := True\<rparr>) else Done (Continue, s5)))))))"

definition read_completed :: "os \<Rightarrow> packet \<Rightarrow> srv \<Rightarrow> (round \<times> srv) outcome" where
  "read_completed os pk s =
     bind_outcome (set_io (pk_overlapped pk) (\<lambda>i. i\<lparr>io_IOOperation := ClientIoWrite,
       io_nTotalBytes := int (pk_size pk), io_nSentBytes := 0, io_wsabuf_len := pk_size pk\<rparr>) s) (\<lambda>s1.
     bind_outcome (get_sock (pk_key pk) s1) (\<lambda>c.
     bind_outcome (get_io (pk_overlapped pk) s1) (\<lambda>io.
     bind_outcome
       (or_close os (pk_key pk)
         (WSASend os (sc_Socket c) (pk_overlapped pk) (io_wsabuf_buf io) (io_wsabuf_len io) s1))
       (\<lambda>s2. Done (Continue, s2)))))"

definition write_completed :: "os \<Rightarrow> packet \<Rightarrow> srv \<Rightarrow> (round \<times> srv) outcome" where
  "write_completed os pk s =
     bind_outcome (set_io (pk_overlapped pk) (\<lambda>i. i\<lparr>io_IOOperation := ClientIoWrite,
       io_nSentBytes := io_nSentBytes i + int (pk_size pk)\<rparr>) s) (\<lambda>s1.
     bind_outcome (get_io (pk_overlapped pk) s1) (\<lambda>io.
     bind_outcome (get_sock (pk_key pk) s1) (\<lambda>c.
     bind_outcome
       (if io_nSentBytes io < io_nTotalBytes io then
          or_close os (pk_key pk)
            (WSASend os (sc_Socket c) (pk_overlapped pk) (nat (io_nSentBytes io))
               (nat (io_nTotalBytes io - io_nSentBytes io)) s1)
        else
          bind_outcome (set_io (pk_overlapped pk) (\<lambda>i. i\<lparr>io_IOOperation := ClientIoRead\<rparr>) s1) (\<lambda>s2.
          or_close os (pk_key pk)
            (WSARecv os (sc_Socket c) (pk_overlapped pk) MAX_BUFF_SIZE s2)))
       (\<lambda>s3. Done (Continue, s3)))))"

definition WorkerThread_round :: "os \<Rightarrow> packet \<Rightarrow> srv \<Rightarrow> (round \<times> srv) outcome" where
  "WorkerThread_round os pk s =
     (if pk_key pk = None then Done (Return, s)
      else if g_bEndServer s then Done (Return, s)
      else
        bind_outcome (get_io (pk_overlapped pk) s) (\<lambda>io.
        if io_IOOperation io \<noteq> ClientIoAccept \<and> (\<not> pk_success pk \<or> pk_size pk = 0) then
          bind_outcome (CloseClient os (pk_key pk) False s) (\<lambda>s1. Done (Continue, s1))
        else case io_IOOperation io of
            ClientIoAccept \<Rightarrow> accept_completed os pk s
          | ClientIoRead \<Rightarrow> read_completed os pk s
          | ClientIoWrite \<Rightarrow> write_completed os pk s))"

text \<open>
  The \<open>while (TRUE)\<close> of \<open>WorkerThread\<close> over the packets the port hands to this thread; after
  the last one the thread waits in \<open>GetQueuedCompletionStatus\<close>.
\<close>

fun WorkerThread :: "os \<Rightarrow> packet list \<Rightarrow> srv \<Rightarrow> (round \<times> srv) outcome" where
  "WorkerThread os [] s = Done (Continue, s)"
| "WorkerThread os (pk # pks) s =
     bind_outcome (WorkerThread_round os pk s) (\<lambda>(r, s1).
       case r of Return \<Rightarrow> Done (Return, s1) | Continue \<Rightarrow> WorkerThread os pks s1)"

section \<open>Echoing\<close>

text \<open>
  A client between two packets: its contexts are live, and the I/O context is in the middle
  of echoing \<open>n\<close> bytes of its buffer, \<open>k\<close> of which are sent.
\<close>

definition echoing :: "srv \<Rightarrow> nat \<Rightarrow> nat \<Rightarrow> sock option \<Rightarrow> byte list \<Rightarrow> nat \<Rightarrow> nat \<Rightarrow> bool" where
  "echoing s a b sd buf k n \<longleftrightarrow>
     (\<exists>c io. socks s a = Some c \<and> sc_Socket c = sd \<and> ios s b = Some io \<and>
        io_Buffer io = buf \<and> io_IOOperation io = ClientIoWrite \<and>
        io_nSentBytes io = int k \<and> io_nTotalBytes io = int n \<and> io_wsabuf_buf io = 0)"

definition awaiting :: "srv \<Rightarrow> nat \<Rightarrow> nat \<Rightarrow> sock option \<Rightarrow> byte list \<Rightarrow> bool" where
  "awaiting s a b sd buf \<longleftrightarrow>
     (\<exists>c io. socks s a = Some c \<and> sc_Socket c = sd \<and> ios s b = Some io \<and>
        io_Buffer io = buf \<and> io_IOOperation io = ClientIoRead \<and> io_wsabuf_buf io = 0)"

abbreviation completed :: "nat \<Rightarrow> nat \<Rightarrow> nat \<Rightarrow> packet" where
  "completed a b k \<equiv> \<lparr>pk_success = True, pk_size = k, pk_key = Some a, pk_overlapped = Some b\<rparr>"

text \<open>What a round for the client at \<open>a\<close>, \<open>b\<close> leaves as it is.\<close>

definition other_clients_kept :: "nat \<Rightarrow> srv \<Rightarrow> srv \<Rightarrow> bool" where
  "other_clients_kept b s s' \<longleftrightarrow>
     socks s' = socks s \<and> (\<forall>b'. b' \<noteq> b \<longrightarrow> ios s' b' = ios s b') \<and>
     g_pCtxtList s' = g_pCtxtList s \<and> cs_depth s' = cs_depth s \<and>
     g_bEndServer s' = g_bEndServer s"

lemma other_clients_kept_trans:
  "other_clients_kept b s s' \<Longrightarrow> other_clients_kept b s' s'' \<Longrightarrow> other_clients_kept b s s''"
  by (simp add: other_clients_kept_def)

lemmas worker_defs = WorkerThread_round_def read_completed_def write_completed_def WSASend_def
  WSARecv_def or_close_def

lemma round_read:
  assumes "awaiting s a b sd buf" "\<not> g_bEndServer s" "\<forall>t. os_ok os t" "0 < n"
  shows "\<exists>s'. WorkerThread_round os (completed a b n) s = Done (Continue, s') \<and>
    echoing s' a b sd buf 0 n \<and> other_clients_kept b s s' \<and>
    requests s' = requests s @ [SendPosted sd (Some b) (take n buf)]"
  using assms
  by (auto simp: awaiting_def echoing_def other_clients_kept_def worker_defs ptr_defs api_defs)

lemma round_write_rest:
  assumes "echoing s a b sd buf p n" "\<not> g_bEndServer s" "\<forall>t. os_ok os t" "0 < k" "p + k < n"
  shows "\<exists>s'. WorkerThread_round os (completed a b k) s = Done (Continue, s') \<and>
    echoing s' a b sd buf (p + k) n \<and> other_clients_kept b s s' \<and>
    requests s' = requests s @ [SendPosted sd (Some b) (take (n - (p + k)) (drop (p + k) buf))]"
  using assms
  by (auto simp: echoing_def other_clients_kept_def worker_defs ptr_defs api_defs nat_diff_distrib
      nat_add_distrib simp flip: of_nat_add)

lemma round_write_last:
  assumes "echoing s a b sd buf p n" "\<not> g_bEndServer s" "\<forall>t. os_ok os t" "0 < k" "p + k = n"
  shows "\<exists>s'. WorkerThread_round os (completed a b k) s = Done (Continue, s') \<and>
    awaiting s' a b sd buf \<and> other_clients_kept b s s' \<and>
    requests s' = requests s @ [RecvPosted sd (Some b) MAX_BUFF_SIZE]"
  using assms
  by (auto simp: echoing_def awaiting_def other_clients_kept_def worker_defs ptr_defs api_defs)

text \<open>
  The bytes the peer has got: of every send, the part the completion packet reports.
\<close>

definition delivered :: "nat list \<Rightarrow> byte list list \<Rightarrow> byte list" where
  "delivered ks sends = concat (map2 take ks sends)"

lemma delivered_Cons [simp]: "delivered (k # ks) (d # ds) = take k d @ delivered ks ds"
  and delivered_Nil [simp]: "delivered [] ds = []"
  by (simp_all add: delivered_def)

lemma writes_echo:
  assumes "echoing s a b sd buf p n" "\<not> g_bEndServer s" "\<forall>t. os_ok os t"
    and "ks \<noteq> []" "\<forall>k\<in>set ks. 0 < k" "p + sum_list ks = n" "n \<le> length buf"
  shows "\<exists>s' sends. WorkerThread os (map (completed a b) ks) s = Done (Continue, s') \<and>
    awaiting s' a b sd buf \<and> other_clients_kept b s s' \<and>
    requests s' =
      requests s @ map (SendPosted sd (Some b)) sends @ [RecvPosted sd (Some b) MAX_BUFF_SIZE] \<and>
    Suc (length sends) = length ks \<and>
    delivered (tl ks) sends = drop (p + hd ks) (take n buf)"
  using assms
proof (induction ks arbitrary: s p)
  case Nil
  then show ?case by simp
next
  case (Cons k ks)
  show ?case
  proof (cases ks)
    case Nil
    from Cons.prems Nil have "0 < k" "p + k = n" by simp_all
    from round_write_last [OF Cons.prems(1-3) this] obtain s' where
      "WorkerThread_round os (completed a b k) s = Done (Continue, s')"
      "awaiting s' a b sd buf" "other_clients_kept b s s'"
      "requests s' = requests s @ [RecvPosted sd (Some b) MAX_BUFF_SIZE]" by blast
    with Nil \<open>p + k = n\<close> show ?thesis
      by (intro exI [of _ s'] exI [of _ "[]"]) simp
  next
    case (Cons k' ks')
    from Cons.prems Cons have less: "0 < k" "p + k < n" by simp_all
    from round_write_rest [OF Cons.prems(1-3) less] obtain s1 where s1:
      "WorkerThread_round os (completed a b k) s = Done (Continue, s1)"
      "echoing s1 a b sd buf (p + k) n" "other_clients_kept b s s1"
      "requests s1 =
         requests s @ [SendPosted sd (Some b) (take (n - (p + k)) (drop (p + k) buf))]" by blast
    have running: "\<not> g_bEndServer s1"
      using s1(3) Cons.prems(2) by (simp add: other_clients_kept_def)
    have rest: "ks \<noteq> []" "\<forall>k\<in>set ks. 0 < k" "p + k + sum_list ks = n"
      using Cons Cons.prems(5,6) by (simp_all add: add.assoc)
    from Cons.IH [OF s1(2) running Cons.prems(3) rest Cons.prems(7)]
    obtain s' sends where s':
      "WorkerThread os (map (completed a b) ks) s1 = Done (Continue, s')"
      "awaiting s' a b sd buf" "other_clients_kept b s1 s'"
      "requests s' = requests s1 @ map (SendPosted sd (Some b)) sends @
         [RecvPosted sd (Some b) MAX_BUFF_SIZE]"
      "Suc (length sends) = length ks"
      "delivered (tl ks) sends = drop (p + k + hd ks) (take n buf)"
      by (elim exE conjE) (rule that)
    let ?d = "take (n - (p + k)) (drop (p + k) buf)"
    have d: "?d = drop (p + k) (take n buf)" by (simp only: drop_take)
    have "drop (p + k + k') (take n buf) = drop k' ?d"
      unfolding d drop_drop by (simp only: ac_simps)
    then have del: "delivered (tl (k # ks)) (?d # sends) = drop (p + hd (k # ks)) (take n buf)"
      using s'(6) Cons by (simp only: list.sel delivered_Cons append_take_drop_id d)
    have run: "WorkerThread os (map (completed a b) (k # ks)) s = Done (Continue, s')"
      using s1(1) s'(1) by simp
    have kept: "other_clients_kept b s s'"
      using s1(3) s'(3) by (rule other_clients_kept_trans)
    have "requests s' = requests s @ map (SendPosted sd (Some b)) (?d # sends) @
        [RecvPosted sd (Some b) MAX_BUFF_SIZE]"
      using s1(4) s'(4) by simp
    with run kept del s'(2,5) show ?thesis
      by (intro exI [of _ s'] exI [of _ "?d # sends"]) simp
  qed
qed

text \<open>
  C3. The echo: when a read of \<open>n\<close> bytes completes for a client and the platform then
  reports its writes as completed piece by piece (\<open>ks\<close>, however the stream was cut, summing
  to \<open>n\<close>), the worker posts exactly one send per piece, the bytes the peer receives are
  exactly the \<open>n\<close> bytes read, in order, and then exactly one receive of the whole buffer is
  posted; the client is ready for the next read, and no other client's context, the list or
  the critical section is changed.
\<close>

theorem worker_echoes:
  assumes "awaiting s a b sd buf" "\<not> g_bEndServer s" "\<forall>t. os_ok os t"
    and "ks \<noteq> []" "\<forall>k\<in>set ks. 0 < k" "sum_list ks = n" "n \<le> length buf"
  shows "\<exists>s' sends.
    WorkerThread os (completed a b n # map (completed a b) ks) s = Done (Continue, s') \<and>
    requests s' =
      requests s @ map (SendPosted sd (Some b)) sends @ [RecvPosted sd (Some b) MAX_BUFF_SIZE] \<and>
    length sends = length ks \<and> delivered ks sends = take n buf \<and>
    awaiting s' a b sd buf \<and> other_clients_kept b s s'"
proof -
  have "0 < n" using assms(4-6) by (cases ks) auto
  from round_read [OF assms(1-3) this] obtain s1 where s1:
    "WorkerThread_round os (completed a b n) s = Done (Continue, s1)"
    "echoing s1 a b sd buf 0 n" "other_clients_kept b s s1"
    "requests s1 = requests s @ [SendPosted sd (Some b) (take n buf)]" by blast
  have "\<not> g_bEndServer s1" using s1(3) assms(2) by (simp add: other_clients_kept_def)
  with writes_echo [OF s1(2) _ assms(3-5) _ assms(7)] assms(6) obtain s' sends where s':
    "WorkerThread os (map (completed a b) ks) s1 = Done (Continue, s')"
    "awaiting s' a b sd buf" "other_clients_kept b s1 s'"
    "requests s' = requests s1 @ map (SendPosted sd (Some b)) sends @
       [RecvPosted sd (Some b) MAX_BUFF_SIZE]"
    "Suc (length sends) = length ks"
    "delivered (tl ks) sends = drop (hd ks) (take n buf)"
    by auto
  obtain k ks' where ks: "ks = k # ks'" using assms(4) by (cases ks) auto
  have del: "delivered ks (take n buf # sends) = take n buf"
    using s'(6) unfolding ks by (simp add: append_take_drop_id del: take_take)
  have run: "WorkerThread os (completed a b n # map (completed a b) ks) s = Done (Continue, s')"
    using s1(1) s'(1) by simp
  have kept: "other_clients_kept b s s'"
    using s1(3) s'(3) by (rule other_clients_kept_trans)
  have "requests s' = requests s @ map (SendPosted sd (Some b)) (take n buf # sends) @
      [RecvPosted sd (Some b) MAX_BUFF_SIZE]"
    using s1(4) s'(4) by simp
  with run kept del s'(2,5) show ?thesis
    by (intro exI [of _ s'] exI [of _ "take n buf # sends"]) simp
qed

text \<open>Three bytes echoed in two pieces.\<close>

definition echo_srv :: srv where
  "echo_srv = demo_srv\<lparr>
     socks := [0 \<mapsto> \<lparr>sc_Socket = Some 5, sc_fnAcceptEx = False, sc_pIOContext = Some 1,
                     sc_Back = None, sc_Forward = None\<rparr>],
     ios := [1 \<mapsto> \<lparr>io_Buffer = [7, 8, 9, 0], io_wsabuf_buf = 0, io_wsabuf_len = 4,
                   io_nTotalBytes = 0, io_nSentBytes = 0, io_IOOperation = ClientIoRead,
                   io_SocketAccept = None, io_Forward = None\<rparr>],
     g_pCtxtList := Some 0\<rparr>"

theorem worker_echoes_witness:
  "\<exists>s' sends.
    WorkerThread demo_os (map (completed 0 1) [3, 1, 2]) echo_srv = Done (Continue, s') \<and>
    requests s' = requests echo_srv @ map (SendPosted (Some 5) (Some 1)) sends @
      [RecvPosted (Some 5) (Some 1) MAX_BUFF_SIZE] \<and>
    length sends = 2 \<and> delivered [1, 2] sends = [7, 8, 9]"
proof -
  have "awaiting echo_srv 0 1 (Some 5) [7, 8, 9, 0]" "\<not> g_bEndServer echo_srv"
    "\<forall>t. os_ok demo_os t"
    by (simp_all add: awaiting_def echo_srv_def demo_srv_def demo_os_def)
  from worker_echoes [OF this, of "[1, 2]" 3] show ?thesis
    by (auto simp: numeral_2_eq_2 numeral_3_eq_3)
qed

section \<open>Contexts of new connections\<close>

lemma ctxt_allocate_fresh:
  assumes "cs_works os" "os_alloc_sock os (Suc (clock s)) = Some a"
    and "os_alloc_io os (Suc (Suc (clock s))) = Some b"
  shows "\<exists>t. CtxtAllocate os sd op s = Done (Some a, t) \<and>
    socks t = (socks s)(a \<mapsto> \<lparr>sc_Socket = sd, sc_fnAcceptEx = False, sc_pIOContext = Some b,
                                sc_Back = None, sc_Forward = None\<rparr>) \<and>
    ios t = (ios s)(b \<mapsto> \<lparr>io_Buffer = replicate MAX_BUFF_SIZE 0, io_wsabuf_buf = 0,
      io_wsabuf_len = MAX_BUFF_SIZE, io_nTotalBytes = 0, io_nSentBytes = 0,
      io_IOOperation = op, io_SocketAccept = None, io_Forward = None\<rparr>) \<and>
    g_pCtxtList t = g_pCtxtList s \<and> cs_depth t = cs_depth s \<and> requests t = requests s \<and>
    clock t = clock s + 3"
  using assms by (simp add: CtxtAllocate_def enter_cs_works tick_def leave_cs_def Let_def)

lemma ctxt_list_fresh:
  assumes "ctxt_list s as" "socks s a = None" "ios s b = None"
    and "socks t = (socks s)(a \<mapsto> c)" "ios t = (ios s)(b \<mapsto> io)" "g_pCtxtList t = g_pCtxtList s"
  shows "ctxt_list t as" and "a \<notin> set as" and "sc_pIOContext c = Some b \<Longrightarrow>
    \<forall>x \<in> set as. \<not> owns_io t x b"
proof -
  show a: "a \<notin> set as"
    using dll_live assms(1,2) by (fastforce simp: ctxt_list_def ctxt_chain_def)
  show "ctxt_list t as"
    using assms a by (intro ctxt_list_frame [OF assms(1)]) (auto simp: owns_io_def)
  have "\<not> owns_io t x b" if x: "x \<in> set as" for x
  proof
    assume "owns_io t x b"
    moreover have "x \<noteq> a" using that a by auto
    ultimately obtain c' where c': "socks s x = Some c'" "sc_pIOContext c' = Some b"
      using assms(4) by (auto simp: owns_io_def)
    obtain y where "owns_io s x y" using ctxt_list_member_owns [OF assms(1) x] by blast
    with c' assms(3) show False by (auto simp: owns_io_def)
  qed
  then show "sc_pIOContext c = Some b \<Longrightarrow> \<forall>x \<in> set as. \<not> owns_io t x b" by blast
qed

text \<open>
  \<open>UpdateCompletionPort\<close> of a new connection: when the heap hands out fresh blocks and
  the port takes the socket, the new context is associated with the port under its own
  address, initialised as asked, owns a zeroed I/O context, and is at the front of a
  well-formed context list whose other members keep their place; the critical section is
  left as it was.
\<close>

theorem client_joins_list:
  assumes "ctxt_list s as" "cs_works os" "os_alloc_sock os (Suc (clock s)) = Some a"
    and "os_alloc_io os (Suc (Suc (clock s))) = Some b" "socks s a = None" "ios s b = None"
    and "os_port os (clock s + 3) \<noteq> NullHandle"
  shows "\<exists>t c io. UpdateCompletionPort os sd op True s = Done (Some a, t) \<and>
    ctxt_list t (a # as) \<and> socks t a = Some c \<and> sc_Socket c = sd \<and> sc_pIOContext c = Some b \<and>
    ios t = (ios s)(b \<mapsto> io) \<and> io_IOOperation io = op \<and> io_nTotalBytes io = 0 \<and>
    io_nSentBytes io = 0 \<and> length (io_Buffer io) = MAX_BUFF_SIZE \<and>
    requests t = requests s @ [Associated sd (Some a)] \<and> cs_depth t = cs_depth s"
proof -
  obtain t1 c io where t1: "CtxtAllocate os sd op s = Done (Some a, t1)"
    "socks t1 = (socks s)(a \<mapsto> c)" "ios t1 = (ios s)(b \<mapsto> io)"
    "g_pCtxtList t1 = g_pCtxtList s" "cs_depth t1 = cs_depth s" "requests t1 = requests s"
    "clock t1 = clock s + 3"
    and c: "sc_Socket c = sd" "sc_pIOContext c = Some b"
    and io: "io_IOOperation io = op" "io_nTotalBytes io = 0" "io_nSentBytes io = 0"
      "length (io_Buffer io) = MAX_BUFF_SIZE" "io_Forward io = None"
    using ctxt_allocate_fresh [of os s a b sd op] assms(2-4) by auto
  let ?t2 = "request (Associated sd (Some a)) ((tick t1)\<lparr>g_hIOCP := os_port os (clock t1)\<rparr>)"
  have t2: "socks ?t2 = (socks s)(a \<mapsto> c)" "ios ?t2 = (ios s)(b \<mapsto> io)"
    "g_pCtxtList ?t2 = g_pCtxtList s" "cs_depth ?t2 = cs_depth s"
    "requests ?t2 = requests s @ [Associated sd (Some a)]"
    using t1 by (simp_all add: api_defs del: fun_upd_apply)
  note fresh = ctxt_list_fresh [OF assms(1,5,6) t2(1-3)]
  have "socks ?t2 a = Some c" "owns_io ?t2 a b"
    using t2 c io by (simp_all add: owns_io_def)
  from add_to_list [OF fresh(1) assms(2) this fresh(2) fresh(3) [OF c(2)]] obtain t where t:
    "CtxtListAddTo os (Some a) ?t2 = Done t" "ctxt_list t (a # as)"
    "same_but_links (socks ?t2) (socks t)" "ios t = ios ?t2" "cs_depth t = cs_depth ?t2"
    "requests t = requests ?t2"
    by (elim exE conjE) (rule that)
  obtain c' where c': "socks t a = Some c'" "sc_Socket c' = sd" "sc_pIOContext c' = Some b"
    using same_but_linksD [OF t(3) \<open>socks ?t2 a = Some c\<close>] c by auto
  have "UpdateCompletionPort os sd op True s = Done (Some a, t)"
    using t1(1,7) t(1) c'(1) assms(7) by (simp add: UpdateCompletionPort_def Let_def get_sock_def)
  then show ?thesis using t c' t2 io by (intro exI [of _ t] exI [of _ c'] exI [of _ io]) simp
qed

theorem client_joins_list_witness:
  "\<exists>t. UpdateCompletionPort demo_os (Some 9) ClientIoRead True demo_srv = Done (Some 101, t) \<and>
    ctxt_list t [101, 3, 2, 1] \<and> cs_depth t = 0"
proof -
  have "os_alloc_sock demo_os (Suc (clock demo_srv)) = Some 101"
    "os_alloc_io demo_os (Suc (Suc (clock demo_srv))) = Some 202"
    "socks demo_srv 101 = None" "ios demo_srv 202 = None"
    "os_port demo_os (clock demo_srv + 3) \<noteq> NullHandle" "cs_depth demo_srv = 0"
    by (simp_all add: demo_os_def demo_srv_def)
  then show ?thesis
    using client_joins_list [OF demo_list demo_os_works(1), of 101 202 "Some 9" ClientIoRead]
    by auto
qed

section \<open>Failing calls\<close>

text \<open>
  The two allocations of \<open>CtxtAllocate\<close> that can fail. If the first one fails, the
  caller is told so, but the critical section is held for ever. If the second one fails,
  the freed block is returned as if it were a context, and \<open>UpdateCompletionPort\<close> then
  accesses it.
\<close>

theorem ctxt_allocate_failures:
  assumes "cs_works os"
  shows "(os_alloc_sock os (Suc (clock s)) = None \<longrightarrow>
      (\<exists>t. UpdateCompletionPort os sd op True s = Done (None, t) \<and>
        cs_depth t = Suc (cs_depth s))) \<and>
    (os_alloc_sock os (Suc (clock s)) = Some a \<and> os_alloc_io os (Suc (Suc (clock s))) = None \<longrightarrow>
      (\<exists>t. CtxtAllocate os sd op s = Done (Some a, t) \<and> socks t a = None) \<and>
      UpdateCompletionPort os sd op True s = Undefined)"
proof (intro conjI impI)
  assume "os_alloc_sock os (Suc (clock s)) = None"
  then show "\<exists>t. UpdateCompletionPort os sd op True s = Done (None, t) \<and>
      cs_depth t = Suc (cs_depth s)"
    using assms by (simp add: UpdateCompletionPort_def CtxtAllocate_def enter_cs_works tick_def)
next
  assume a: "os_alloc_sock os (Suc (clock s)) = Some a \<and> os_alloc_io os (Suc (Suc (clock s))) = None"
  then show freed: "\<exists>t. CtxtAllocate os sd op s = Done (Some a, t) \<and> socks t a = None"
    using assms by (simp add: CtxtAllocate_def enter_cs_works tick_def Let_def leave_cs_def)
  then obtain t where "CtxtAllocate os sd op s = Done (Some a, t)" "socks t a = None" by blast
  then show "UpdateCompletionPort os sd op True s = Undefined"
    using assms
    by (simp add: UpdateCompletionPort_def CtxtListAddTo_def cs_works_def Let_def ptr_defs api_defs)
qed

theorem ctxt_allocate_failures_witness:
  "(\<exists>t. UpdateCompletionPort (demo_os\<lparr>os_alloc_sock := Map.empty\<rparr>) (Some 9) ClientIoRead True
       demo_srv = Done (None, t) \<and> cs_depth t = 1) \<and>
   UpdateCompletionPort (demo_os\<lparr>os_alloc_io := Map.empty\<rparr>) (Some 9) ClientIoRead True demo_srv =
     Undefined"
proof -
  have "cs_works (demo_os\<lparr>os_alloc_sock := Map.empty\<rparr>)" "cs_works (demo_os\<lparr>os_alloc_io := Map.empty\<rparr>)"
    by (simp_all add: cs_works_def demo_os_def)
  moreover have "os_alloc_sock (demo_os\<lparr>os_alloc_io := Map.empty\<rparr>) (Suc (clock demo_srv)) = Some 101"
    "cs_depth demo_srv = 0"
    by (simp_all add: demo_os_def demo_srv_def)
  ultimately show ?thesis
    using ctxt_allocate_failures [of "demo_os\<lparr>os_alloc_sock := Map.empty\<rparr>" demo_srv]
      ctxt_allocate_failures [of "demo_os\<lparr>os_alloc_io := Map.empty\<rparr>" demo_srv _ _ 101]
    by simp
qed

text \<open>
  A failing \<open>AcceptEx\<close> goes unnoticed: once the accept socket exists,
  \<open>CreateAcceptSocket\<close> reports success whatever \<open>AcceptEx\<close> answers, and if it failed no
  accept is outstanding, so the server takes no further connection.
\<close>

theorem accept_failure_unnoticed:
  assumes "g_pCtxtListenSocket s = Some l" "socks s l = Some c" "sc_fnAcceptEx c"
    and "sc_pIOContext c = Some b" "ios s b \<noteq> None" "os_socket os (clock s) = Some sd"
  shows "\<exists>t. CreateAcceptSocket os False s = Done (True, t) \<and>
    requests t = requests s @
      (if os_ok os (Suc (Suc (clock s))) then [AcceptExPosted (the (g_sdListen s)) sd] else [])"
  using assms
  by (auto simp: CreateAcceptSocket_def CreateSocket_def ptr_defs api_defs SOCKET_ERROR_def
      accept_ex_BOOL_def Let_def simp del: bind_outcome_Done)

theorem accept_failure_unnoticed_witness:
  "\<exists>t. CreateAcceptSocket (demo_os\<lparr>os_ok := \<lambda>_. False\<rparr>) False
     (echo_srv\<lparr>g_pCtxtListenSocket := Some 0, socks := [0 \<mapsto> \<lparr>sc_Socket = Some 5,
        sc_fnAcceptEx = True, sc_pIOContext = Some 1, sc_Back = None, sc_Forward = None\<rparr>]\<rparr>) =
     Done (True, t) \<and> requests t = []"
proof -
  let ?s = "echo_srv\<lparr>g_pCtxtListenSocket := Some 0, socks := [0 \<mapsto> \<lparr>sc_Socket = Some 5,
        sc_fnAcceptEx = True, sc_pIOContext = Some 1, sc_Back = None, sc_Forward = None\<rparr>]\<rparr>"
  let ?os = "demo_os\<lparr>os_ok := \<lambda>_. False\<rparr>"
  have "os_socket ?os (clock ?s) = Some 300" "ios ?s 1 \<noteq> None" "requests ?s = []"
    by (simp_all add: demo_os_def echo_srv_def demo_srv_def)
  then show ?thesis
    using accept_failure_unnoticed [of ?s 0 _ 1 ?os 300] by simp
qed

end
