(* ===== verification/Iocp_Main.thy ===== *)
theory Iocp_Main
  imports Iocp_Worker
begin

text \<open>
  The program around the workers in IocpServerex.cpp: the command line
  (\<open>ValidOptions\<close>), the console handler (\<open>CtrlHandler\<close>) and \<open>main\<close>: the start of the
  worker threads, the listening socket, the wait for the cleanup event while packets and
  console events arrive, the \<open>__finally\<close> block, and the restart loop.
\<close>

section \<open>The command line\<close>

definition tolower :: "char \<Rightarrow> char" where
  "tolower ch = (let n = of_char ch :: nat in
     if 65 \<le> n \<and> n \<le> 90 then char_of (n + 32) else ch)"

text \<open>A C string ends with the character 0, so reading \<open>argv[i][1]\<close> of ''-'' gives 0.\<close>

definition arg_char :: "string \<Rightarrow> nat \<Rightarrow> char" where
  "arg_char a i = (if i < length a then a ! i else char_of (0 :: nat))"

fun ValidOptions_loop :: "string list \<Rightarrow> bool \<Rightarrow> srv \<Rightarrow> bool \<times> srv" where
  "ValidOptions_loop [] bRet s = (bRet, s)"
| "ValidOptions_loop (a # argv) bRet s =
     (if arg_char a 0 = CHR ''-'' \<or> arg_char a 0 = CHR ''/'' then
        let c = tolower (arg_char a 1) in
        if c = CHR ''e'' then
          ValidOptions_loop argv bRet (if length a > 3 then s\<lparr>g_Port := drop 3 a\<rparr> else s)
        else if c = CHR ''v'' then ValidOptions_loop argv bRet (s\<lparr>g_bVerbose := True\<rparr>)
        else if c = CHR ''?'' then ValidOptions_loop argv False s
        else ValidOptions_loop argv False s
      else ValidOptions_loop argv bRet s)"

text \<open>\<open>argv[0]\<close> is the name of the program.\<close>

definition ValidOptions :: "string list \<Rightarrow> srv \<Rightarrow> bool \<times> srv" where
  "ValidOptions argv s = ValidOptions_loop (tl argv) True s"

text \<open>How one argument is understood, as the specification of the loop.\<close>

datatype option_arg = Port string | NoPort | Verbose | Rejected | Positional

definition parse_arg :: "string \<Rightarrow> option_arg" where
  "parse_arg a =
     (case a of
        (d # l # rest) \<Rightarrow>
          if d \<noteq> CHR ''-'' \<and> d \<noteq> CHR ''/'' then Positional
          else if l \<in> {CHR ''e'', CHR ''E''} then
            (if length rest \<ge> 2 then Port (tl rest) else NoPort)
          else if l \<in> {CHR ''v'', CHR ''V''} then Verbose
          else Rejected
      | [d] \<Rightarrow> if d = CHR ''-'' \<or> d = CHR ''/'' then Rejected else Positional
      | [] \<Rightarrow> Positional)"

section \<open>The console handler\<close>

definition CTRL_C_EVENT :: nat where "CTRL_C_EVENT = 0"
definition CTRL_BREAK_EVENT :: nat where "CTRL_BREAK_EVENT = 1"
definition CTRL_CLOSE_EVENT :: nat where "CTRL_CLOSE_EVENT = 2"
definition CTRL_LOGOFF_EVENT :: nat where "CTRL_LOGOFF_EVENT = 5"
definition CTRL_SHUTDOWN_EVENT :: nat where "CTRL_SHUTDOWN_EVENT = 6"

lemmas ctrl_events = CTRL_C_EVENT_def CTRL_BREAK_EVENT_def CTRL_CLOSE_EVENT_def
  CTRL_LOGOFF_EVENT_def CTRL_SHUTDOWN_EVENT_def

definition CtrlHandler :: "nat \<Rightarrow> srv \<Rightarrow> bool \<times> srv" where
  "CtrlHandler dwEvent s =
     (let s1 = (if dwEvent = CTRL_BREAK_EVENT then s\<lparr>g_bRestart := True\<rparr> else s) in
      if dwEvent \<in> {CTRL_BREAK_EVENT, CTRL_C_EVENT, CTRL_LOGOFF_EVENT, CTRL_SHUTDOWN_EVENT,
                    CTRL_CLOSE_EVENT}
      then (True, s1\<lparr>g_bEndServer := True, g_cleanup := True\<rparr>)
      else (False, s1))"

section \<open>main\<close>

text \<open>
  \<open>main\<close> holds the thread handles beside the server state. What arrives while it waits
  for the cleanup event: completion packets for the workers and console events; a worker
  round and a handler call are taken as one step each.
\<close>

record main_st =
  m_srv :: srv
  g_ThreadHandles :: "handle list"

datatype event = Packet packet | Console nat

definition map_srv :: "(srv \<Rightarrow> srv) \<Rightarrow> main_st \<Rightarrow> main_st" where
  "map_srv f m = m\<lparr>m_srv := f (m_srv m)\<rparr>"

text \<open>The loop that creates the threads; an index behind the array is a buffer overflow.\<close>

fun create_threads :: "os \<Rightarrow> nat \<Rightarrow> nat \<Rightarrow> main_st \<Rightarrow> (bool \<times> main_st) outcome" where
  "create_threads os dwCPU 0 m = Done (True, m)"
| "create_threads os dwCPU (Suc left) m =
     (case api os (m_srv m) of (created, s1) \<Rightarrow>
      if \<not> created then Done (False, m\<lparr>m_srv := s1\<rparr>)
      else if length (g_ThreadHandles m) \<le> dwCPU then Undefined
      else create_threads os (Suc dwCPU) left
             (m\<lparr>m_srv := s1,
                g_ThreadHandles := (g_ThreadHandles m)[dwCPU := Handle dwCPU]\<rparr>))"

text \<open>\<open>WSAWaitForMultipleEvents\<close>, while the rest of the program runs.\<close>

fun serve :: "os \<Rightarrow> event list \<Rightarrow> srv \<Rightarrow> (event list \<times> srv) outcome" where
  "serve os evs s =
     (if g_cleanup s then Done (evs, s)
      else case evs of
          [] \<Rightarrow> Blocks
        | Packet pk # evs' \<Rightarrow>
            bind_outcome (WorkerThread_round os pk s) (\<lambda>(_, s1). serve os evs' s1)
        | Console e # evs' \<Rightarrow> serve os evs' (snd (CtrlHandler e s)))"

fun post_exits :: "nat \<Rightarrow> srv \<Rightarrow> srv" where
  "post_exits 0 s = s"
| "post_exits (Suc n) s = post_exits n (request ExitPosted s)"

definition free_listen_ctxt :: "os \<Rightarrow> srv \<Rightarrow> srv outcome" where
  "free_listen_ctxt os s =
     (if g_pCtxtListenSocket s = None then Done s
      else
        bind_outcome (get_sock (g_pCtxtListenSocket s) s) (\<lambda>c.
        bind_outcome (get_io (sc_pIOContext c) s) (\<lambda>io.
        if \<not> os_completes os (the (sc_pIOContext c)) then Blocks
        else
          let s1 = (if io_SocketAccept io \<noteq> None then closesocket (io_SocketAccept io) s else s) in
          bind_outcome (set_io (sc_pIOContext c) (\<lambda>i. i\<lparr>io_SocketAccept := None\<rparr>) s1) (\<lambda>s2.
          bind_outcome (free_io (sc_pIOContext c) s2) (\<lambda>s3.
          bind_outcome (free_sock (g_pCtxtListenSocket s3) s3) (\<lambda>s4.
          Done (s4\<lparr>g_pCtxtListenSocket := None\<rparr>)))))))"

text \<open>The \<open>__finally\<close> block.\<close>

definition main_finally :: "os \<Rightarrow> nat \<Rightarrow> main_st \<Rightarrow> main_st outcome" where
  "main_finally os dwThreadCount m =
     (let s0 = (m_srv m)\<lparr>g_bEndServer := True\<rparr>;
          s1 = (if g_hIOCP s0 \<noteq> NullHandle then post_exits dwThreadCount s0 else s0) in
      case api os s1 of (exited, s2) \<Rightarrow>
      let hs = (if exited then
                  map (\<lambda>i. if i < dwThreadCount then InvalidHandle else g_ThreadHandles m ! i)
                    [0..<length (g_ThreadHandles m)]
                else g_ThreadHandles m);
          s3 = (if g_sdListen s2 \<noteq> None
                then (closesocket (g_sdListen s2) s2)\<lparr>g_sdListen := None\<rparr> else s2) in
      if length (g_ThreadHandles m) < dwThreadCount then Undefined
      else
        bind_outcome (free_listen_ctxt os s3) (\<lambda>s4.
        bind_outcome (CtxtListFree os s4) (\<lambda>s5.
        Done \<lparr>m_srv = s5\<lparr>g_hIOCP := NullHandle\<rparr>, g_ThreadHandles = hs\<rparr>)))"

text \<open>The \<open>__try\<close> block; its \<open>__leave\<close> and its end both lead to \<open>main_finally\<close>.\<close>

definition main_try ::
  "os \<Rightarrow> nat \<Rightarrow> event list \<Rightarrow> main_st \<Rightarrow> (event list \<times> main_st) outcome" where
  "main_try os dwThreadCount evs m =
     (let port = os_port os (clock (m_srv m));
          m1 = map_srv (\<lambda>s. (tick s)\<lparr>g_hIOCP := port\<rparr>) m in
      if port = NullHandle then Done (evs, m1)
      else
        bind_outcome (create_threads os 0 dwThreadCount m1) (\<lambda>(created, m2).
        if \<not> created then Done (evs, m2)
        else case CreateListenSocket os (m_srv m2) of (listening, s3) \<Rightarrow>
          if \<not> listening then Done (evs, m2\<lparr>m_srv := s3\<rparr>)
          else
            bind_outcome (CreateAcceptSocket os True s3) (\<lambda>(posted, s4).
            if \<not> posted then Done (evs, m2\<lparr>m_srv := s4\<rparr>)
            else
              bind_outcome (serve os evs s4) (\<lambda>(evs', s5). Done (evs', m2\<lparr>m_srv := s5\<rparr>)))))"

fun main_loop :: "os \<Rightarrow> nat \<Rightarrow> nat \<Rightarrow> event list \<Rightarrow> main_st \<Rightarrow> main_st outcome" where
  "main_loop os dwThreadCount fuel evs m =
     (if \<not> g_bRestart (m_srv m) then Done m
      else case fuel of 0 \<Rightarrow> Blocks
        | Suc fuel' \<Rightarrow>
            let m1 = map_srv (\<lambda>s. s\<lparr>g_bRestart := False, g_bEndServer := False,
                                     g_cleanup := False\<rparr>) m in
            bind_outcome (main_try os dwThreadCount evs m1) (\<lambda>(evs', m2).
            bind_outcome (main_finally os dwThreadCount m2)
              (main_loop os dwThreadCount fuel' evs')))"

text \<open>
  The globals as they are initialised and \<open>main\<close> up to its loop; the calls that set up
  the console handler, the event, Winsock and the critical section in turn.
\<close>

definition initial_srv :: srv where
  "initial_srv = \<lparr>g_Port = ''5001'', g_bEndServer = False, g_bRestart = True,
     g_bVerbose = False, g_hIOCP = InvalidHandle, g_sdListen = None, g_cleanup = False,
     g_pCtxtListenSocket = None, g_pCtxtList = None, socks = Map.empty, ios = Map.empty,
     cs_depth = 0, requests = [], clock = 0\<rparr>"

fun all_calls :: "os \<Rightarrow> nat \<Rightarrow> srv \<Rightarrow> bool \<times> srv" where
  "all_calls os 0 s = (True, s)"
| "all_calls os (Suc n) s =
     (case api os s of (ok, s1) \<Rightarrow> if ok then all_calls os n s1 else (False, s1))"

definition server_main ::
  "os \<Rightarrow> nat \<Rightarrow> nat \<Rightarrow> string list \<Rightarrow> event list \<Rightarrow> main_st outcome" where
  "server_main os dwNumberOfProcessors fuel argv evs =
     (let hs = replicate MAX_WORKER_THREAD InvalidHandle in
      case ValidOptions argv initial_srv of (valid, s) \<Rightarrow>
      if \<not> valid then Done \<lparr>m_srv = s, g_ThreadHandles = hs\<rparr>
      else case all_calls os 4 s of (ready, s1) \<Rightarrow>
      if \<not> ready then Done \<lparr>m_srv = s1, g_ThreadHandles = hs\<rparr>
      else main_loop os (dwNumberOfProcessors * 2) fuel evs \<lparr>m_srv = s1, g_ThreadHandles = hs\<rparr>)"

section \<open>The command line is read as specified\<close>

lemma of_char_tolower:
  "(of_char (tolower l) :: nat) =
     (if 65 \<le> (of_char l :: nat) \<and> (of_char l :: nat) \<le> 90 then of_char l + 32 else of_char l)"
  by (simp add: tolower_def Let_def)

lemma tolower_letters:
  "tolower l = CHR ''e'' \<longleftrightarrow> l = CHR ''e'' \<or> l = CHR ''E''"
  "tolower l = CHR ''v'' \<longleftrightarrow> l = CHR ''v'' \<or> l = CHR ''V''"
proof -
  have eq: "l = c \<longleftrightarrow> (of_char l :: nat) = of_char c" for l c :: char
    using of_char_eq_iff [where 'a = nat] by blast
  show "tolower l = CHR ''e'' \<longleftrightarrow> l = CHR ''e'' \<or> l = CHR ''E''"
    unfolding eq of_char_tolower by auto
  show "tolower l = CHR ''v'' \<longleftrightarrow> l = CHR ''v'' \<or> l = CHR ''V''"
    unfolding eq of_char_tolower by auto
qed

lemma parse_arg_step:
  "ValidOptions_loop (a # argv) bRet s =
     (case parse_arg a of
        Port p \<Rightarrow> ValidOptions_loop argv bRet (s\<lparr>g_Port := p\<rparr>)
      | NoPort \<Rightarrow> ValidOptions_loop argv bRet s
      | Verbose \<Rightarrow> ValidOptions_loop argv bRet (s\<lparr>g_bVerbose := True\<rparr>)
      | Rejected \<Rightarrow> ValidOptions_loop argv False s
      | Positional \<Rightarrow> ValidOptions_loop argv bRet s)"
proof -
  have "char_of (0 :: nat) \<noteq> CHR ''-''" "char_of (0 :: nat) \<noteq> CHR ''/''"
    "tolower (char_of (0 :: nat)) \<noteq> CHR ''e''" "tolower (char_of (0 :: nat)) \<noteq> CHR ''v''"
    by (simp_all add: of_char_tolower flip: of_char_eq_iff [where 'a = nat])
  then show ?thesis
    by (cases a rule: remdups_adj.cases)
      (auto simp: arg_char_def parse_arg_def tolower_letters Let_def neq_Nil_conv drop_Suc
        split: list.splits)
qed

lemma ValidOptions_loop_spec:
  "ValidOptions_loop argv bRet s =
     (bRet \<and> Rejected \<notin> parse_arg ` set argv,
      s\<lparr>g_Port := last (g_Port s # [p. Port p \<leftarrow> map parse_arg argv]),
        g_bVerbose := g_bVerbose s \<or> Verbose \<in> parse_arg ` set argv\<rparr>)"
proof (induction argv arbitrary: bRet s)
  case (Cons a argv)
  show ?case
    unfolding parse_arg_step by (cases "parse_arg a") (simp_all add: Cons.IH)
qed simp

text \<open>
  The command line: \<open>ValidOptions\<close> accepts it iff no argument is rejected, the port is
  that of the last \<open>-e:port\<close>, and \<open>-v\<close> anywhere makes the server verbose. The option \<open>-p\<close>
  of the usage line is rejected.
\<close>

theorem valid_options_spec:
  "ValidOptions argv s =
     (Rejected \<notin> parse_arg ` set (tl argv),
      s\<lparr>g_Port := last (g_Port s # [p. Port p \<leftarrow> map parse_arg (tl argv)]),
        g_bVerbose := g_bVerbose s \<or> Verbose \<in> parse_arg ` set (tl argv)\<rparr>) \<and>
   parse_arg (''-p:'' @ port) = Rejected"
  by (simp add: ValidOptions_def ValidOptions_loop_spec) (simp add: parse_arg_def)

section \<open>The shutdown\<close>

lemma post_exits_simps [simp]:
  "socks (post_exits n s) = socks s" "ios (post_exits n s) = ios s"
  "g_pCtxtList (post_exits n s) = g_pCtxtList s" "g_sdListen (post_exits n s) = g_sdListen s"
  "g_pCtxtListenSocket (post_exits n s) = g_pCtxtListenSocket s"
  "g_bEndServer (post_exits n s) = g_bEndServer s" "cs_depth (post_exits n s) = cs_depth s"
  "g_bRestart (post_exits n s) = g_bRestart s"
  "requests (post_exits n s) = requests s @ replicate n ExitPosted"
  by (induction n arbitrary: s) (simp_all add: request_def)

text \<open>The listening context, apart from the list of clients.\<close>

definition listening :: "srv \<Rightarrow> nat \<Rightarrow> nat \<Rightarrow> io_ctx \<Rightarrow> bool" where
  "listening s l b io \<longleftrightarrow>
     g_pCtxtListenSocket s = Some l \<and>
     (\<exists>c. socks s l = Some c \<and> sc_pIOContext c = Some b) \<and> ios s b = Some io"

lemma free_listen_ctxt_frees:
  assumes "listening s l b io" "os_completes os b"
  shows "\<exists>t. free_listen_ctxt os s = Done t \<and> socks t = (socks s)(l := None) \<and>
    ios t = (ios s)(b := None) \<and> g_pCtxtListenSocket t = None \<and>
    g_pCtxtList t = g_pCtxtList s \<and> g_bEndServer t = g_bEndServer s \<and>
    g_sdListen t = g_sdListen s \<and> g_bRestart t = g_bRestart s \<and> cs_depth t = cs_depth s \<and>
    requests t = requests s @
      (if io_SocketAccept io = None then [] else [CloseSocket (io_SocketAccept io)])"
  using assms
  by (auto simp: listening_def free_listen_ctxt_def ptr_defs api_defs Let_def
      simp del: bind_outcome_Done)

text \<open>The part of \<open>main_finally\<close> before \<open>CtxtListFree\<close>.\<close>

definition shut_down_start :: "os \<Rightarrow> nat \<Rightarrow> srv \<Rightarrow> srv" where
  "shut_down_start os n s =
     (let s0 = s\<lparr>g_bEndServer := True\<rparr>;
          s1 = (if g_hIOCP s0 \<noteq> NullHandle then post_exits n s0 else s0);
          s2 = tick s1 in
      if g_sdListen s2 \<noteq> None then (closesocket (g_sdListen s2) s2)\<lparr>g_sdListen := None\<rparr> else s2)"

lemma shut_down_start_simps [simp]:
  "socks (shut_down_start os n s) = socks s" "ios (shut_down_start os n s) = ios s"
  "g_pCtxtList (shut_down_start os n s) = g_pCtxtList s"
  "g_sdListen (shut_down_start os n s) = None"
  "g_pCtxtListenSocket (shut_down_start os n s) = g_pCtxtListenSocket s"
  "g_bEndServer (shut_down_start os n s)" "cs_depth (shut_down_start os n s) = cs_depth s"
  "g_bRestart (shut_down_start os n s) = g_bRestart s"
  "requests (shut_down_start os n s) = requests s @
     (if g_hIOCP s = NullHandle then [] else replicate n ExitPosted) @
     (if g_sdListen s = None then [] else [CloseSocket (g_sdListen s)])"
  by (auto simp: shut_down_start_def Let_def api_defs)

lemma main_finally_unfold:
  assumes "n \<le> length (g_ThreadHandles m)"
  obtains hs where "length hs = length (g_ThreadHandles m)"
    "main_finally os n m =
      bind_outcome (free_listen_ctxt os (shut_down_start os n (m_srv m))) (\<lambda>s4.
      bind_outcome (CtxtListFree os s4) (\<lambda>s5.
      Done \<lparr>m_srv = s5\<lparr>g_hIOCP := NullHandle\<rparr>, g_ThreadHandles = hs\<rparr>))"
proof -
  let ?s0 = "(m_srv m)\<lparr>g_bEndServer := True\<rparr>"
  let ?s1 = "if g_hIOCP ?s0 \<noteq> NullHandle then post_exits n ?s0 else ?s0"
  let ?hs = "if os_ok os (clock ?s1) then
      map (\<lambda>i. if i < n then InvalidHandle else g_ThreadHandles m ! i)
        [0..<length (g_ThreadHandles m)]
    else g_ThreadHandles m"
  show thesis
  proof (rule that [of ?hs])
    show "length ?hs = length (g_ThreadHandles m)" by simp
    show "main_finally os n m =
      bind_outcome (free_listen_ctxt os (shut_down_start os n (m_srv m))) (\<lambda>s4.
      bind_outcome (CtxtListFree os s4) (\<lambda>s5.
      Done \<lparr>m_srv = s5\<lparr>g_hIOCP := NullHandle\<rparr>, g_ThreadHandles = ?hs\<rparr>))"
      using assms unfolding main_finally_def shut_down_start_def Let_def api_def prod.case
      by (simp only: not_less [symmetric] if_False)
  qed
qed



section \<open>Runs of the program\<close>

text \<open>A platform on which every call of the server succeeds.\<close>

definition platform_works :: "os \<Rightarrow> bool" where
  "platform_works os \<longleftrightarrow>
     cs_works os \<and> 0 < os_fuel os \<and> (\<forall>t. os_ok os t) \<and> (\<forall>b. os_completes os b) \<and>
     (\<forall>t. os_alloc_sock os t \<noteq> None) \<and> (\<forall>t. os_alloc_io os t \<noteq> None) \<and>
     (\<forall>t. os_socket os t \<noteq> None) \<and> (\<forall>t. os_port os t \<noteq> NullHandle)"

text \<open>What \<open>main\<close> holds between two runs of its loop.\<close>

definition released :: "srv \<Rightarrow> bool" where
  "released s \<longleftrightarrow>
     socks s = Map.empty \<and> ios s = Map.empty \<and> g_pCtxtList s = None \<and>
     g_pCtxtListenSocket s = None \<and> g_sdListen s = None \<and> cs_depth s = 0"

text \<open>Every listening and accept socket of a posted accept was closed.\<close>

definition accepts_closed :: "request list \<Rightarrow> bool" where
  "accepts_closed rs \<longleftrightarrow>
     (\<forall>l a. AcceptExPosted l a \<in> set rs \<longrightarrow>
        CloseSocket (Some l) \<in> set rs \<and> CloseSocket (Some a) \<in> set rs)"

lemma create_threads_works:
  assumes "\<forall>t. os_ok os t" "i + n \<le> length (g_ThreadHandles m)"
  shows "\<exists>hs. length hs = length (g_ThreadHandles m) \<and> create_threads os i n m =
    Done (True, \<lparr>m_srv = (m_srv m)\<lparr>clock := clock (m_srv m) + n\<rparr>, g_ThreadHandles = hs\<rparr>)"
  using assms
proof (induction n arbitrary: i m)
  case 0
  then show ?case by (intro exI [of _ "g_ThreadHandles m"]) simp
next
  case (Suc n)
  let ?m = "m\<lparr>m_srv := tick (m_srv m),
    g_ThreadHandles := (g_ThreadHandles m)[i := Handle i]\<rparr>"
  have "Suc i + n \<le> length (g_ThreadHandles ?m)" using Suc.prems by simp
  from Suc.IH [OF Suc.prems(1) this] show ?case
    using Suc.prems by (auto simp: api_def tick_def)
qed

lemma create_threads_overflow:
  assumes "\<forall>t. os_ok os t" "i \<le> length (g_ThreadHandles m)" "length (g_ThreadHandles m) < i + n"
  shows "create_threads os i n m = Undefined"
  using assms
proof (induction n arbitrary: i m)
  case (Suc n)
  show ?case
  proof (cases "i = length (g_ThreadHandles m)")
    case True
    then show ?thesis using Suc.prems(1) by (simp add: api_def)
  next
    case False
    then show ?thesis using Suc by (simp add: api_def)
  qed
qed simp

lemma CreateListenSocket_works:
  assumes "platform_works os"
  shows "\<exists>sd k. CreateListenSocket os s = (True, s\<lparr>g_sdListen := Some sd, clock := k\<rparr>)"
  using assms
  by (auto simp: CreateListenSocket_def CreateSocket_def platform_works_def api_def tick_def Let_def
      split: option.splits)

lemma platform_worksD:
  assumes "platform_works os"
  shows "\<exists>a. os_alloc_sock os t = Some a" "\<exists>b. os_alloc_io os t = Some b"
    "\<exists>sd. os_socket os t = Some sd"
  using assms by (simp_all add: platform_works_def)

text \<open>What the successful start of one run leaves as it was.\<close>

definition same_control :: "srv \<Rightarrow> srv \<Rightarrow> bool" where
  "same_control s t \<longleftrightarrow> g_bRestart t = g_bRestart s \<and> g_cleanup t = g_cleanup s \<and>
     g_pCtxtList t = g_pCtxtList s \<and> g_sdListen t = g_sdListen s \<and> cs_depth t = cs_depth s"

lemma CreateAcceptSocket_works:
  assumes "platform_works os" "socks s = Map.empty" "ios s = Map.empty" "g_sdListen s = Some l"
  shows "\<exists>t a b io sd. CreateAcceptSocket os True s = Done (True, t) \<and>
    listening t a b io \<and> dom (socks t) = {a} \<and> dom (ios t) = {b} \<and>
    io_SocketAccept io = Some sd \<and> g_hIOCP t \<noteq> NullHandle \<and> same_control s t \<and>
    requests t = requests s @ [Associated (Some l) (Some a), AcceptExPosted l sd]"
proof -
  have works: "\<forall>t. os_enter os t" "\<forall>t. os_ok os t" "\<forall>t. os_port os t \<noteq> NullHandle"
    using assms(1) by (simp_all add: platform_works_def cs_works_def)
  obtain a where a: "os_alloc_sock os (Suc (clock s)) = Some a"
    using platform_worksD(1) [OF assms(1)] by blast
  obtain b where b: "os_alloc_io os (Suc (Suc (clock s))) = Some b"
    using platform_worksD(2) [OF assms(1)] by blast
  obtain sd where sd: "os_socket os (Suc (Suc (Suc (Suc (Suc (clock s)))))) = Some sd"
    using platform_worksD(3) [OF assms(1)] by blast
  show ?thesis
    using works a b sd assms(2-4)
    by (auto simp: CreateAcceptSocket_def UpdateCompletionPort_def CtxtAllocate_def
        CreateSocket_def ptr_defs api_defs Let_def listening_def same_control_def
        simp del: bind_outcome_Done)
qed

lemma CtxtListFree_empty:
  "cs_works os \<Longrightarrow> g_pCtxtList s = None \<Longrightarrow>
   CtxtListFree os s = Done (s\<lparr>clock := Suc (clock s)\<rparr>)"
  by (cases "os_fuel os")
    (simp_all add: CtxtListFree_def enter_cs_works tick_def leave_cs_def)

text \<open>One run of the loop of \<open>main\<close>, ended by a console event.\<close>

lemma main_run:
  assumes "platform_works os" "released (m_srv m)" "\<not> g_cleanup (m_srv m)"
    "\<not> g_bRestart (m_srv m)" "n \<le> length (g_ThreadHandles m)"
    and "e \<in> {CTRL_BREAK_EVENT, CTRL_C_EVENT, CTRL_LOGOFF_EVENT, CTRL_SHUTDOWN_EVENT,
              CTRL_CLOSE_EVENT}"
  shows "\<exists>m1 m2 a l sd. main_try os n (Console e # evs) m = Done (evs, m1) \<and>
    main_finally os n m1 = Done m2 \<and> released (m_srv m2) \<and>
    length (g_ThreadHandles m2) = length (g_ThreadHandles m) \<and>
    g_bRestart (m_srv m2) = (e = CTRL_BREAK_EVENT) \<and>
    requests (m_srv m2) = requests (m_srv m) @
      [Associated (Some l) (Some a), AcceptExPosted l sd] @ replicate n ExitPosted @
      [CloseSocket (Some l), CloseSocket (Some sd)]"
proof -
  have works: "cs_works os" "\<forall>t. os_ok os t" "\<forall>t. os_port os t \<noteq> NullHandle"
    "\<And>b. os_completes os b"
    using assms(1) by (simp_all add: platform_works_def)
  let ?s0 = "(tick (m_srv m))\<lparr>g_hIOCP := os_port os (clock (m_srv m))\<rparr>"
  obtain hs where hs: "length hs = length (g_ThreadHandles m)"
    "create_threads os 0 n (m\<lparr>m_srv := ?s0\<rparr>) = 
       Done (True, \<lparr>m_srv = ?s0\<lparr>clock := clock ?s0 + n\<rparr>, g_ThreadHandles = hs\<rparr>)"
    using create_threads_works [OF works(2), of 0 n "m\<lparr>m_srv := ?s0\<rparr>"] assms(5) by auto
  obtain l k where l: "CreateListenSocket os (?s0\<lparr>clock := clock ?s0 + n\<rparr>) =
      (True, ?s0\<lparr>clock := clock ?s0 + n, g_sdListen := Some l, clock := k\<rparr>)"
    using CreateListenSocket_works [OF assms(1)] by blast
  let ?s3 = "?s0\<lparr>clock := clock ?s0 + n, g_sdListen := Some l, clock := k\<rparr>"
  have "socks ?s3 = Map.empty" "ios ?s3 = Map.empty" "g_sdListen ?s3 = Some l"
    using assms(2) by (simp_all add: released_def tick_def)
  from CreateAcceptSocket_works [OF assms(1) this]
  obtain s4 a b io sd where s4: "CreateAcceptSocket os True ?s3 = Done (True, s4)"
    "listening s4 a b io" "dom (socks s4) = {a}" "dom (ios s4) = {b}"
    "io_SocketAccept io = Some sd" "g_hIOCP s4 \<noteq> NullHandle" "same_control ?s3 s4"
    "requests s4 = requests ?s3 @ [Associated (Some l) (Some a), AcceptExPosted l sd]"
    by (elim exE conjE) (rule that)
  have ctl: "\<not> g_cleanup s4" "\<not> g_bRestart s4" "g_pCtxtList s4 = None" "g_sdListen s4 = Some l"
    "cs_depth s4 = 0"
    using s4(7) assms(2-4) by (simp_all add: same_control_def released_def tick_def)
  let ?s5 = "snd (CtrlHandler e s4)"
  have s5: "?s5 = s4\<lparr>g_bRestart := (e = CTRL_BREAK_EVENT), g_bEndServer := True, g_cleanup := True\<rparr>"
    using assms(6) ctl(2) by (cases s4) (auto simp: CtrlHandler_def Let_def)
  let ?m1 = "\<lparr>m_srv = ?s5, g_ThreadHandles = hs\<rparr>"
  have "serve os (Console e # evs) s4 = Done (evs, ?s5)"
    using ctl(1) by (simp add: s5)
  then have run: "main_try os n (Console e # evs) m = Done (evs, ?m1)"
    using works(3) hs(2) l s4(1) by (simp add: main_try_def map_srv_def Let_def)
  have "listening (shut_down_start os n ?s5) a b io" using s4(2) by (simp add: listening_def s5)
  from free_listen_ctxt_frees [OF this works(4)] obtain s6 where s6:
    "free_listen_ctxt os (shut_down_start os n ?s5) = Done s6"
    "socks s6 = (socks s4)(a := None)" "ios s6 = (ios s4)(b := None)"
    "g_pCtxtListenSocket s6 = None" "g_pCtxtList s6 = None" "g_sdListen s6 = None"
    "g_bRestart s6 = (e = CTRL_BREAK_EVENT)" "cs_depth s6 = 0"
    "requests s6 = requests s4 @ replicate n ExitPosted @
       [CloseSocket (Some l), CloseSocket (Some sd)]"
    using ctl s4(5,6) by (auto simp: s5)
  have empty: "socks s6 = Map.empty" "ios s6 = Map.empty"
    using s4(3,4) s6(2,3) by (auto simp: fun_eq_iff dom_def)
  obtain hs' where hs': "length hs' = length hs" "main_finally os n ?m1 =
      Done \<lparr>m_srv = s6\<lparr>clock := Suc (clock s6), g_hIOCP := NullHandle\<rparr>, g_ThreadHandles = hs'\<rparr>"
    using main_finally_unfold [of n ?m1 os] assms(5) hs(1) s6(1,5) works(1)
    by (auto simp: CtxtListFree_empty simp del: bind_outcome_Done)
  show ?thesis
    using run hs' hs(1) empty s6 s4(8)
    by (intro exI [of _ ?m1] exI [of _ "\<lparr>m_srv = s6\<lparr>clock := Suc (clock s6),
        g_hIOCP := NullHandle\<rparr>, g_ThreadHandles = hs'\<rparr>"]
      exI [of _ a] exI [of _ l] exI [of _ sd])
      (simp add: released_def tick_def)
qed

declare main_loop.simps [simp del]

definition one_run :: "nat \<Rightarrow> request list \<Rightarrow> bool" where
  "one_run n rs \<longleftrightarrow> (\<exists>a l sd. rs =
     [Associated (Some l) (Some a), AcceptExPosted l sd] @ replicate n ExitPosted @
     [CloseSocket (Some l), CloseSocket (Some sd)])"

lemma main_loop_runs:
  assumes "platform_works os" "n \<le> MAX_WORKER_THREAD" "k < fuel"
    and "e \<in> {CTRL_C_EVENT, CTRL_LOGOFF_EVENT, CTRL_SHUTDOWN_EVENT, CTRL_CLOSE_EVENT}"
    and "released (m_srv m)" "g_bRestart (m_srv m)"
    and "length (g_ThreadHandles m) = MAX_WORKER_THREAD"
  shows "\<exists>t runs. main_loop os n fuel
      (replicate k (Console CTRL_BREAK_EVENT) @ [Console e]) m = Done t \<and>
    released (m_srv t) \<and> requests (m_srv t) = requests (m_srv m) @ concat runs \<and>
    length runs = Suc k \<and> list_all (one_run n) runs"
  using assms(3,5-7)
proof (induction k arbitrary: fuel m)
  case 0
  then obtain f where f: "fuel = Suc f" by (cases fuel) auto
  let ?m = "map_srv (\<lambda>s. s\<lparr>g_bRestart := False, g_bEndServer := False, g_cleanup := False\<rparr>) m"
  have "e \<noteq> CTRL_BREAK_EVENT" using assms(4) by (auto simp: ctrl_events)
  moreover obtain m1 m2 a l sd where run: "main_try os n [Console e] ?m = Done ([], m1)"
    "main_finally os n m1 = Done m2" "released (m_srv m2)"
    "g_bRestart (m_srv m2) = (e = CTRL_BREAK_EVENT)"
    "requests (m_srv m2) = requests (m_srv ?m) @
      [Associated (Some l) (Some a), AcceptExPosted l sd] @ replicate n ExitPosted @
      [CloseSocket (Some l), CloseSocket (Some sd)]"
    using main_run [OF assms(1), of ?m n e "[]"] 0 assms(2,4)
    by (auto simp: map_srv_def released_def)
  ultimately have "main_loop os n fuel [Console e] m = Done m2"
    using 0 f by (subst main_loop.simps) (simp add: Let_def main_loop.simps [of _ _ _ _ m2])
  moreover have "one_run n ([Associated (Some l) (Some a), AcceptExPosted l sd] @
      replicate n ExitPosted @ [CloseSocket (Some l), CloseSocket (Some sd)])"
    by (auto simp: one_run_def)
  ultimately show ?case using run(3,5)
    by (intro exI [of _ m2] exI [of _ "[[Associated (Some l) (Some a), AcceptExPosted l sd] @
      replicate n ExitPosted @ [CloseSocket (Some l), CloseSocket (Some sd)]]"])
      (simp add: map_srv_def)
next
  case (Suc k)
  then obtain f where f: "fuel = Suc f" "k < f" by (cases fuel) auto
  let ?m = "map_srv (\<lambda>s. s\<lparr>g_bRestart := False, g_bEndServer := False, g_cleanup := False\<rparr>) m"
  let ?evs = "replicate k (Console CTRL_BREAK_EVENT) @ [Console e]"
  obtain m1 m2 a l sd where run:
    "main_try os n (Console CTRL_BREAK_EVENT # ?evs) ?m = Done (?evs, m1)"
    "main_finally os n m1 = Done m2" "released (m_srv m2)" "g_bRestart (m_srv m2)"
    "length (g_ThreadHandles m2) = MAX_WORKER_THREAD"
    "requests (m_srv m2) = requests (m_srv ?m) @
      [Associated (Some l) (Some a), AcceptExPosted l sd] @ replicate n ExitPosted @
      [CloseSocket (Some l), CloseSocket (Some sd)]"
    using main_run [OF assms(1), of ?m n CTRL_BREAK_EVENT ?evs] Suc.prems assms(2)
    by (auto simp: map_srv_def released_def)
  from Suc.IH [OF f(2) run(3-5)] obtain t runs where t:
    "main_loop os n f ?evs m2 = Done t" "released (m_srv t)"
    "requests (m_srv t) = requests (m_srv m2) @ concat runs" "length runs = Suc k"
    "list_all (one_run n) runs" by blast
  have "main_loop os n fuel (replicate (Suc k) (Console CTRL_BREAK_EVENT) @ [Console e]) m = Done t"
    using Suc.prems f run t(1) by (subst main_loop.simps) (simp add: Let_def)
  moreover have "one_run n ([Associated (Some l) (Some a), AcceptExPosted l sd] @
      replicate n ExitPosted @ [CloseSocket (Some l), CloseSocket (Some sd)])"
    by (auto simp: one_run_def)
  ultimately show ?case using run(6) t
    by (intro exI [of _ t] exI [of _ "([Associated (Some l) (Some a), AcceptExPosted l sd] @
      replicate n ExitPosted @ [CloseSocket (Some l), CloseSocket (Some sd)]) # runs"])
      (simp add: map_srv_def)
qed

lemma all_calls_work:
  "\<forall>t. os_ok os t \<Longrightarrow> all_calls os n s = (True, s\<lparr>clock := clock s + n\<rparr>)"
  by (induction n arbitrary: s) (simp_all add: api_def tick_def)

text \<open>The server state in which the loop starts, for an accepted command line.\<close>

lemma server_main_loop:
  assumes "\<forall>t. os_ok os t" "Rejected \<notin> parse_arg ` set (tl argv)"
  obtains m where "server_main os cpus fuel argv evs = main_loop os (cpus * 2) fuel evs m"
    "released (m_srv m)" "g_bRestart (m_srv m)" "requests (m_srv m) = []"
    "g_ThreadHandles m = replicate MAX_WORKER_THREAD InvalidHandle"
proof -
  obtain s where s: "ValidOptions argv initial_srv = (True, s)" "released s" "g_bRestart s"
    "requests s = []"
    using assms(2)
    by (simp add: ValidOptions_def ValidOptions_loop_spec initial_srv_def released_def)
  show thesis
    by (rule that [of "\<lparr>m_srv = s\<lparr>clock := clock s + 4\<rparr>,
        g_ThreadHandles = replicate MAX_WORKER_THREAD InvalidHandle\<rparr>"])
      (use s in \<open>simp_all add: server_main_def all_calls_work [OF assms(1)] released_def
        del: all_calls.simps\<close>)
qed



text \<open>
  C35. On a machine with more than eight processors the start of the worker threads writes
  behind the end of \<open>g_ThreadHandles\<close>: two threads per processor, room for 16 handles.
\<close>

theorem thread_handles_overflow:
  assumes "\<forall>t. os_ok os t" "\<forall>t. os_port os t \<noteq> NullHandle"
    and "Rejected \<notin> parse_arg ` set (tl argv)" "MAX_WORKER_THREAD < 2 * cpus" "0 < fuel"
  shows "server_main os cpus fuel argv evs = Undefined"
proof -
  obtain m where m: "server_main os cpus fuel argv evs = main_loop os (cpus * 2) fuel evs m"
    "g_bRestart (m_srv m)" "g_ThreadHandles m = replicate MAX_WORKER_THREAD InvalidHandle"
    using server_main_loop [OF assms(1,3), of cpus fuel evs] by blast
  obtain f where f: "fuel = Suc f" using assms(5) by (cases fuel) auto
  have "create_threads os 0 (cpus * 2) m' = Undefined"
    if "g_ThreadHandles m' = g_ThreadHandles m" for m'
    using assms(1,4) m(3) that by (intro create_threads_overflow) simp_all
  then show ?thesis
    unfolding m(1) using assms(2) m(2) f
    by (subst main_loop.simps) (simp add: Let_def main_try_def map_srv_def)
qed

theorem thread_handles_overflow_witness:
  "server_main demo_os 12 1 [''server''] [Console CTRL_C_EVENT] = Undefined"
  by (rule thread_handles_overflow) (simp_all add: demo_os_def MAX_WORKER_THREAD_def)

end
