(* ===== verification/Test_Iocp.thy ===== *)
theory Test_Iocp
  imports Prelude
begin

text \<open>
  Self-Study/test_iocp.cpp, the small server on an I/O completion port: \<open>PostAcceptEx\<close>, the
  loop of \<open>workerThread\<close>, \<open>initServer\<close> and \<open>test_iocp_demo\<close> (structures: test_iocp.h).
  Each connection has one structure \<open>OverlappedPerIo\<close> on the heap, which goes with every
  request to the system and comes back with its completion.

  What the system answers is a parameter \<open>plat\<close>, by the number of the call; what it does on
  its own is in the completion packets: any outstanding request may complete at any time,
  with success or failure. The console output other than the received data is left out.
\<close>

section \<open>Structures and the system\<close>

datatype IO_TYPE = IO_ACCEPT | IO_SEND | IO_RECV | IO_CONNECT | IO_DISCONNECT

definition BUFF_SIZE :: nat where "BUFF_SIZE = 1024"
definition THREAD_COUNT :: nat where "THREAD_COUNT = 4"
definition START_POST_ACCEPTEX :: nat where "START_POST_ACCEPTEX = 4"

text \<open>\<open>wsaBuf.buf\<close>: null, the buffer of the structure, or the array \<open>str\<close> of the case \<open>IO_RECV\<close>.\<close>

datatype wsa_ptr = NullBuf | OwnBuffer | LocalStr

record OverlappedPerIo =
  op_socket :: nat
  op_buf :: wsa_ptr
  op_len :: nat
  op_type :: IO_TYPE
  op_buffer :: "8 word list"

record ServerParams =
  listenSocket :: "nat option"    \<comment> \<open>\<open>None\<close> is \<open>INVALID_SOCKET\<close>\<close>
  completionPort :: "nat option"

text \<open>\<open>ZeroMemory(overlp, sizeof(OverlappedPerIo))\<close>: \<open>IO_ACCEPT\<close> is 0.\<close>

definition zeroed :: OverlappedPerIo where
  "zeroed = \<lparr>op_socket = 0, op_buf = NullBuf, op_len = 0, op_type = IO_ACCEPT, op_buffer = replicate BUFF_SIZE 0\<rparr>"

datatype answer = Immediately | Pending | Failing

record plat =
  pl_WSAStartup :: "nat \<Rightarrow> int"
  pl_WSASocket :: "nat \<Rightarrow> nat option"
  pl_bind :: "nat \<Rightarrow> int"
  pl_listen :: "nat \<Rightarrow> int"
  pl_CreateIoCompletionPort :: "nat \<Rightarrow> nat option"
  pl_new :: "nat \<Rightarrow> (nat \<rightharpoonup> OverlappedPerIo) \<Rightarrow> nat option"
  pl_AcceptEx :: "nat \<Rightarrow> answer"
  pl_WSARecv :: "nat \<Rightarrow> answer"
  pl_WSASend :: "nat \<Rightarrow> answer"

text \<open>What the program asks of the system, and the received data it shows.\<close>

datatype tcall =
    Accepts "nat option" nat
  | Receives nat nat
  | Sends nat nat nat
  | Closes "nat option"
  | ClosesPort "nat option"
  | Cleanup
  | Registers nat "nat option"
  | Shows "8 word list"

text \<open>
  \<open>t_out\<close>: the structures that are with the system, one outstanding request each;
  \<open>t_workers\<close>: the worker threads that have not returned.
\<close>

record tsrv =
  t_heap :: "nat \<rightharpoonup> OverlappedPerIo"
  t_out :: "nat set"
  t_calls :: "tcall list"
  t_clock :: nat
  t_workers :: nat

definition call :: "tcall \<Rightarrow> tsrv \<Rightarrow> tsrv" where
  "call c s = s\<lparr>t_calls := t_calls s @ [c]\<rparr>"

definition ticked :: "tsrv \<Rightarrow> tsrv" where
  "ticked s = s\<lparr>t_clock := Suc (t_clock s)\<rparr>"

definition post :: "answer \<Rightarrow> nat \<Rightarrow> tcall \<Rightarrow> tsrv \<Rightarrow> tsrv" where
  "post r a c s = (if r = Failing then s else call c (s\<lparr>t_out := insert a (t_out s)\<rparr>))"

definition lookup_ctx :: "nat option \<Rightarrow> tsrv \<Rightarrow> OverlappedPerIo outcome" where
  "lookup_ctx p s =
     (case p of None \<Rightarrow> Undefined | Some a \<Rightarrow> (case t_heap s a of None \<Rightarrow> Undefined | Some c \<Rightarrow> Done c))"

definition store :: "nat \<Rightarrow> OverlappedPerIo \<Rightarrow> tsrv \<Rightarrow> tsrv" where
  "store a c s = s\<lparr>t_heap := (t_heap s)(a \<mapsto> c)\<rparr>"

definition delete_ctx :: "nat \<Rightarrow> tsrv \<Rightarrow> tsrv" where
  "delete_ctx a s = s\<lparr>t_heap := (t_heap s)(a := None)\<rparr>"

lemmas tsrv_defs = call_def ticked_def post_def store_def delete_ctx_def

section \<open>\<open>PostAcceptEx\<close>\<close>

text \<open>The loop tries again after every error but \<open>WSA_IO_PENDING\<close>; \<open>None\<close>: it never ends.\<close>

partial_function (option) AcceptEx_loop :: "plat \<Rightarrow> nat option \<Rightarrow> nat \<Rightarrow> tsrv \<Rightarrow> tsrv option" where
  "AcceptEx_loop pl l a s =
     (let r = pl_AcceptEx pl (t_clock s) in
      if r = Failing then AcceptEx_loop pl l a (ticked s) else Some (post r a (Accepts l a) (ticked s)))"

definition PostAcceptEx :: "plat \<Rightarrow> nat option \<Rightarrow> tsrv \<Rightarrow> tsrv option" where
  "PostAcceptEx pl l s =
     (case pl_WSASocket pl (t_clock s) of
        None \<Rightarrow> Some (ticked s)
      | Some acceptSock \<Rightarrow>
          let s1 = ticked s in
          (case pl_new pl (t_clock s1) (t_heap s1) of
             None \<Rightarrow> Some (call (Closes l) (ticked s1))
           | Some a \<Rightarrow>
               AcceptEx_loop pl l a
                 (store a (zeroed\<lparr>op_socket := acceptSock, op_buf := OwnBuffer, op_len := BUFF_SIZE,
                    op_type := IO_ACCEPT\<rparr>) (ticked s1))))"

section \<open>\<open>workerThread\<close>\<close>

datatype gqcs_error = WAIT_TIMEOUT | ERROR_NETNAME_DELETED | OtherError nat

record completion =
  c_result :: bool
  c_error :: gqcs_error
  c_bytes :: nat
  c_overlp :: "nat option"

text \<open>\<open>std::cout << overlp->buffer\<close> reads to the first null character.\<close>

definition show_buffer :: "8 word list \<Rightarrow> 8 word list outcome" where
  "show_buffer b = (if 0 \<in> set b then Done (takeWhile (\<lambda>x. x \<noteq> 0) b) else Undefined)"

definition drop_client :: "nat \<Rightarrow> OverlappedPerIo \<Rightarrow> tsrv \<Rightarrow> tsrv" where
  "drop_client a o1 s = delete_ctx a (call (Closes (Some (op_socket o1))) s)"

definition accept_case :: "plat \<Rightarrow> ServerParams \<Rightarrow> nat \<Rightarrow> tsrv \<Rightarrow> tsrv outcome" where
  "accept_case pl pms a s =
     (case PostAcceptEx pl (listenSocket pms) s of
        None \<Rightarrow> Blocks
      | Some s1 \<Rightarrow>
          bind_outcome (lookup_ctx (Some a) s1) (\<lambda>o1.
            let o2 = o1\<lparr>op_buffer := replicate BUFF_SIZE 0, op_type := IO_RECV, op_buf := OwnBuffer,
                  op_len := BUFF_SIZE\<rparr>;
                s2 = ticked (call (Registers (op_socket o2) (completionPort pms)) (store a o2 s1))
            in Done (post (pl_WSARecv pl (t_clock s2)) a (Receives (op_socket o2) a) (ticked s2))))"

definition recv_case :: "plat \<Rightarrow> nat \<Rightarrow> nat \<Rightarrow> OverlappedPerIo \<Rightarrow> tsrv \<Rightarrow> tsrv outcome" where
  "recv_case pl bytesTrans a o1 s =
     (if bytesTrans = 0 then Done (drop_client a o1 s)
      else
        bind_outcome (show_buffer (op_buffer o1)) (\<lambda>shown.
          let s1 = store a (o1\<lparr>op_type := IO_SEND, op_buf := LocalStr, op_len := 22\<rparr>) (call (Shows shown) s)
          in Done (post (pl_WSASend pl (t_clock s1)) a (Sends (op_socket o1) a 22) (ticked s1))))"

text \<open>A round of the loop; the answer false is the return of the thread.\<close>

definition workerThread_round :: "plat \<Rightarrow> ServerParams \<Rightarrow> completion \<Rightarrow> tsrv \<Rightarrow> (bool \<times> tsrv) outcome" where
  "workerThread_round pl pms c s =
     (if \<not> c_result c then
        if c_error c = WAIT_TIMEOUT \<or> c_error c = ERROR_NETNAME_DELETED then
          bind_outcome (lookup_ctx (c_overlp c) s) (\<lambda>o1. Done (True, drop_client (the (c_overlp c)) o1 s))
        else Done (False, s\<lparr>t_workers := t_workers s - 1\<rparr>)
      else
        bind_outcome (lookup_ctx (c_overlp c) s) (\<lambda>o1.
          let a = the (c_overlp c) in
          case op_type o1 of
            IO_ACCEPT \<Rightarrow> bind_outcome (accept_case pl pms a s) (\<lambda>s1. Done (True, s1))
          | IO_RECV \<Rightarrow> bind_outcome (recv_case pl (c_bytes c) a o1 s) (\<lambda>s1. Done (True, s1))
          | IO_SEND \<Rightarrow> Done (True, if c_bytes c = 0 then drop_client a o1 s else s)
          | _ \<Rightarrow> Done (True, s)))"

section \<open>\<open>initServer\<close> and \<open>test_iocp_demo\<close>\<close>

text \<open>\<open>if (ret == 0) ret == -1;\<close> compares and has no effect.\<close>

definition init_close :: "nat option \<Rightarrow> tsrv \<Rightarrow> tsrv" where
  "init_close l s = call (Closes l) s"

definition init_listening :: "plat \<Rightarrow> nat option \<Rightarrow> tsrv \<Rightarrow> int \<times> bool \<times> nat option \<times> tsrv" where
  "init_listening pl l s =
     (let ret = pl_bind pl (t_clock s); s1 = ticked s in
      if ret \<noteq> 0 then (ret, False, None, s1)
      else
        let ret = pl_listen pl (t_clock s1); s2 = ticked s1 in
        if ret \<noteq> 0 then (ret, False, None, s2)
        else
          let port = pl_CreateIoCompletionPort pl (t_clock s2); s3 = ticked s2 in
          if port = None then (ret, False, None, s3)
          else
            let registered = pl_CreateIoCompletionPort pl (t_clock s3); s4 = ticked s3 in
            if registered \<noteq> None then (0, True, port, call (Registers (the l) port) s4)
            else (ret, False, port, call (ClosesPort port) s4))"

text \<open>\<open>pms\<close> before the call is not initialised; the members are set as far as the code gets.\<close>

definition initServer :: "plat \<Rightarrow> ServerParams \<Rightarrow> tsrv \<Rightarrow> int \<times> ServerParams \<times> tsrv" where
  "initServer pl params s =
     (let ret = pl_WSAStartup pl (t_clock s); s1 = ticked s in
      if ret \<noteq> 0 then (ret, params, call Cleanup s1)
      else
        let l = pl_WSASocket pl (t_clock s1); params1 = params\<lparr>listenSocket := l\<rparr>; s2 = ticked s1 in
        if l = None then (ret, params1, call Cleanup (init_close l s2))
        else
          (case init_listening pl l s2 of
             (ret, ready, port, s3) \<Rightarrow>
               let params2 = (if ret = 0 then params1\<lparr>completionPort := port\<rparr> else params1) in
               if ready then (0, params2, s3)
               else (ret, params2, call Cleanup (init_close l s3))))"

fun post_accepts :: "plat \<Rightarrow> nat option \<Rightarrow> nat \<Rightarrow> tsrv \<Rightarrow> tsrv option" where
  "post_accepts pl l 0 s = Some s"
| "post_accepts pl l (Suc n) s = Option.bind (PostAcceptEx pl l s) (post_accepts pl l n)"

text \<open>
  \<open>test_iocp_demo\<close> up to \<open>std::cin.get()\<close>, where the worker threads serve (the main thread
  posts its four requests while they start; no request completes in between here), and what
  it does when that returns.
\<close>

definition test_start :: "plat \<Rightarrow> ServerParams \<Rightarrow> tsrv \<Rightarrow> (bool \<times> ServerParams \<times> tsrv) option" where
  "test_start pl pms s =
     (case initServer pl pms s of
        (ret, pms1, s1) \<Rightarrow>
          if ret \<noteq> 0 then Some (False, pms1, s1)
          else map_option (\<lambda>s2. (True, pms1, s2))
                 (post_accepts pl (listenSocket pms1) START_POST_ACCEPTEX (s1\<lparr>t_workers := THREAD_COUNT\<rparr>)))"

definition test_stop :: "ServerParams \<Rightarrow> tsrv \<Rightarrow> tsrv" where
  "test_stop pms s = call Cleanup (call (ClosesPort (completionPort pms)) (call (Closes (listenSocket pms)) s))"


section \<open>The loop of \<open>PostAcceptEx\<close>\<close>

lemma AcceptEx_loop_Some:
  "AcceptEx_loop pl l a s = Some s' \<Longrightarrow>
   t_heap s' = t_heap s \<and> t_out s' = insert a (t_out s) \<and> t_workers s' = t_workers s \<and>
   (\<exists>k\<ge>t_clock s. pl_AcceptEx pl k \<noteq> Failing)"
proof (induction rule: AcceptEx_loop.raw_induct [rotated, consumes 1, case_names step])
  case (step loop pl l a s s')
  show ?case
  proof (cases "pl_AcceptEx pl (t_clock s) = Failing")
    case True
    then have "loop pl l a (ticked s) = Some s'" using step(2) by simp
    from step(1) [OF this] show ?thesis by (auto simp: tsrv_defs dest: Suc_leD)
  next
    case False
    then show ?thesis using step(2) by (auto simp: tsrv_defs)
  qed
qed

lemma AcceptEx_loop_ends:
  "pl_AcceptEx pl (t_clock s + n) \<noteq> Failing \<Longrightarrow> \<exists>s'. AcceptEx_loop pl l a s = Some s'"
proof (induction n arbitrary: s)
  case 0
  then show ?case by (subst AcceptEx_loop.simps) (simp add: Let_def)
next
  case (Suc n)
  then show ?case
    using Suc.IH [of "ticked s"] by (subst AcceptEx_loop.simps) (simp add: Let_def tsrv_defs)
qed

lemma AcceptEx_loop_iff:
  "AcceptEx_loop pl l a s = None \<longleftrightarrow> (\<forall>k\<ge>t_clock s. pl_AcceptEx pl k = Failing)"
  using AcceptEx_loop_Some [of pl l a s] AcceptEx_loop_ends [of pl s]
  by (metis le_add_diff_inverse not_None_eq)

text \<open>The addresses of \<open>new\<close> are not in use.\<close>

definition new_fresh :: "plat \<Rightarrow> bool" where
  "new_fresh pl \<longleftrightarrow> (\<forall>k h a. pl_new pl k h = Some a \<longrightarrow> a \<notin> dom h)"

text \<open>What \<open>PostAcceptEx\<close> does when it returns.\<close>

definition accept_ctx :: "nat \<Rightarrow> OverlappedPerIo" where
  "accept_ctx sd = zeroed\<lparr>op_socket := sd, op_buf := OwnBuffer, op_len := BUFF_SIZE, op_type := IO_ACCEPT\<rparr>"

lemma PostAcceptEx_Some:
  assumes "PostAcceptEx pl l s = Some s'" "new_fresh pl"
  obtains (idle) "t_heap s' = t_heap s" "t_out s' = t_out s" "t_workers s' = t_workers s"
      "pl_WSASocket pl (t_clock s) = None \<or> pl_new pl (Suc (t_clock s)) (t_heap s) = None"
  | (posted) a sd where "a \<notin> dom (t_heap s)" "t_heap s' = (t_heap s)(a \<mapsto> accept_ctx sd)"
      "t_out s' = insert a (t_out s)" "t_workers s' = t_workers s"
proof (cases "pl_WSASocket pl (t_clock s) = None \<or> pl_new pl (Suc (t_clock s)) (t_heap s) = None")
  case True
  then have "t_heap s' = t_heap s \<and> t_out s' = t_out s \<and> t_workers s' = t_workers s"
    using assms(1) by (auto simp: PostAcceptEx_def tsrv_defs Let_def split: option.splits)
  then show thesis using idle True by blast
next
  case False
  then obtain sd a where a: "pl_WSASocket pl (t_clock s) = Some sd" "pl_new pl (Suc (t_clock s)) (t_heap s) = Some a"
    by auto
  then have "AcceptEx_loop pl l a (store a (accept_ctx sd) (ticked (ticked s))) = Some s'"
    using assms(1) by (simp add: PostAcceptEx_def Let_def accept_ctx_def ticked_def)
  from AcceptEx_loop_Some [OF this]
  have "t_heap s' = (t_heap s)(a \<mapsto> accept_ctx sd)" "t_out s' = insert a (t_out s)" "t_workers s' = t_workers s"
    by (simp_all add: tsrv_defs)
  moreover have "a \<notin> dom (t_heap s)" using a(2) assms(2) unfolding new_fresh_def by blast
  ultimately show thesis using posted by blast
qed

section \<open>The server as a whole\<close>

text \<open>
  A completion: the system takes the structure off its list and has written \<open>data\<close> into the
  buffer; a worker thread then makes a round. A received message has as many bytes as it
  says, at most \<open>wsaBuf.len\<close>.
\<close>

definition arrive :: "nat \<Rightarrow> 8 word list \<Rightarrow> tsrv \<Rightarrow> tsrv" where
  "arrive a data s =
     (case t_heap s a of
        None \<Rightarrow> s
      | Some c \<Rightarrow> (store a (c\<lparr>op_buffer := data @ drop (length data) (op_buffer c)\<rparr>) s)\<lparr>t_out := t_out s - {a}\<rparr>)"

definition may_complete :: "tsrv \<Rightarrow> nat \<Rightarrow> 8 word list \<Rightarrow> completion \<Rightarrow> bool" where
  "may_complete s a data c \<longleftrightarrow>
     a \<in> t_out s \<and> 0 < t_workers s \<and> c_overlp c = Some a \<and> length data \<le> BUFF_SIZE \<and>
     (\<forall>o1. t_heap s a = Some o1 \<and> op_type o1 = IO_RECV \<longrightarrow> length data = c_bytes c)"

inductive t_step :: "plat \<Rightarrow> ServerParams \<Rightarrow> tsrv \<Rightarrow> tsrv \<Rightarrow> bool" for pl pms where
  complete: "may_complete s a data c \<Longrightarrow> workerThread_round pl pms c (arrive a data s) = Done (goes_on, s') \<Longrightarrow>
     t_step pl pms s s'"
| port_fails: "\<not> c_result c \<Longrightarrow> c_overlp c = None \<Longrightarrow> c_error c = OtherError e \<Longrightarrow> 0 < t_workers s \<Longrightarrow>
     workerThread_round pl pms c s = Done (goes_on, s') \<Longrightarrow> t_step pl pms s s'"

inductive t_reachable :: "plat \<Rightarrow> ServerParams \<Rightarrow> tsrv \<Rightarrow> bool" for pl pms where
  start: "t_heap s0 = Map.empty \<Longrightarrow> t_out s0 = {} \<Longrightarrow> test_start pl pms0 s0 = Some (True, pms, s) \<Longrightarrow>
     t_reachable pl pms s"
| step: "t_reachable pl pms s \<Longrightarrow> t_step pl pms s t \<Longrightarrow> t_reachable pl pms t"

text \<open>
  A structure that is with the system: the request agrees with its type. The reply is sent
  from the array \<open>str\<close>, and only structures whose reply is out have the type \<open>IO_SEND\<close>.
\<close>

definition ctx_ok :: "OverlappedPerIo \<Rightarrow> bool" where
  "ctx_ok c \<longleftrightarrow> length (op_buffer c) = BUFF_SIZE \<and>
     (case op_type c of
        IO_ACCEPT \<Rightarrow> op_buf c = OwnBuffer
      | IO_RECV \<Rightarrow> op_buf c = OwnBuffer \<and> op_len c = BUFF_SIZE
      | IO_SEND \<Rightarrow> op_buf c = LocalStr \<and> op_len c = 22
      | _ \<Rightarrow> False)"

text \<open>The buffer of a structure that waits for its message is empty.\<close>

definition blank :: "OverlappedPerIo \<Rightarrow> bool" where
  "blank c \<longleftrightarrow> (op_type c = IO_RECV \<longrightarrow> op_buffer c = replicate BUFF_SIZE 0)"

definition t_inv :: "tsrv \<Rightarrow> bool" where
  "t_inv s \<longleftrightarrow> t_out s \<subseteq> dom (t_heap s) \<and> finite (t_out s) \<and> (\<forall>a c. t_heap s a = Some c \<longrightarrow> ctx_ok c) \<and>
     (\<forall>a c. a \<in> t_out s \<longrightarrow> t_heap s a = Some c \<longrightarrow> blank c)"

lemma accept_ctx_ok: "ctx_ok (accept_ctx sd)" "op_type (accept_ctx sd) = IO_ACCEPT" "blank (accept_ctx sd)"
  by (simp_all add: ctx_ok_def blank_def accept_ctx_def zeroed_def)

lemma t_inv_store:
  "t_inv s \<Longrightarrow> ctx_ok c \<Longrightarrow> a \<notin> t_out s \<Longrightarrow> t_inv (store a c s)"
  by (auto simp: t_inv_def store_def)

lemma t_inv_call [simp]: "t_inv (call c s) = t_inv s" "t_inv (ticked s) = t_inv s" "t_inv (s\<lparr>t_workers := w\<rparr>) = t_inv s"
  by (auto simp: t_inv_def tsrv_defs)

lemma ticked_simps [simp]: "t_heap (ticked s) = t_heap s" "t_out (ticked s) = t_out s"
  by (simp_all add: ticked_def)

lemma t_inv_post:
  assumes "t_inv s" "t_heap s a = Some c" "blank c"
  shows "t_inv (post r a x s)"
  using assms by (auto simp: t_inv_def tsrv_defs)

lemma t_inv_same:
  "t_inv s \<Longrightarrow> t_heap s' = t_heap s \<Longrightarrow> t_out s' = t_out s \<Longrightarrow> t_inv s'"
  by (simp add: t_inv_def)

lemma PostAcceptEx_inv:
  assumes "PostAcceptEx pl l s = Some s'" "new_fresh pl" "t_inv s"
  shows "t_inv s'"
  using assms(1,2)
proof (cases rule: PostAcceptEx_Some)
  case idle
  then show ?thesis by (intro t_inv_same [OF assms(3)])
next
  case (posted a sd)
  then show ?thesis using assms(3) accept_ctx_ok by (auto simp: t_inv_def)
qed

lemma arrive_inv:
  assumes "t_inv s" "length data \<le> BUFF_SIZE"
  shows "t_inv (arrive a data s)" "a \<in> dom (t_heap s) \<Longrightarrow> a \<notin> t_out (arrive a data s)"
proof -
  have ok: "ctx_ok (c\<lparr>op_buffer := data @ drop (length data) (op_buffer c)\<rparr>)" if "t_heap s a = Some c" for c
  proof -
    have "ctx_ok c" using assms(1) that by (auto simp: t_inv_def)
    then show ?thesis using assms(2) by (cases "op_type c") (auto simp: ctx_ok_def)
  qed
  show "t_inv (arrive a data s)"
    using assms(1) ok by (auto simp: t_inv_def arrive_def store_def split: option.split)
  show "a \<in> dom (t_heap s) \<Longrightarrow> a \<notin> t_out (arrive a data s)" by (auto simp: arrive_def)
qed

lemma drop_client_inv: "t_inv s \<Longrightarrow> a \<notin> t_out s \<Longrightarrow> t_inv (drop_client a o1 s)"
  by (auto simp: t_inv_def drop_client_def tsrv_defs split: if_splits)

text \<open>A new structure is a live one of its own.\<close>

lemma PostAcceptEx_frame:
  assumes "PostAcceptEx pl l s = Some s'" "new_fresh pl" "a \<in> dom (t_heap s)"
  shows "t_heap s' a = t_heap s a" "a \<in> t_out s' \<longleftrightarrow> a \<in> t_out s"
proof -
  have "t_heap s' a = t_heap s a \<and> (a \<in> t_out s' \<longleftrightarrow> a \<in> t_out s)"
    using assms(1,2) by (cases rule: PostAcceptEx_Some) (use assms(3) in auto)
  then show "t_heap s' a = t_heap s a" "a \<in> t_out s' \<longleftrightarrow> a \<in> t_out s" by auto
qed

lemma accept_case_inv:
  assumes "accept_case pl pms a s = Done s'" "new_fresh pl" "t_inv s" "a \<in> dom (t_heap s)" "a \<notin> t_out s"
  shows "t_inv s'"
proof -
  obtain s1 where s1: "PostAcceptEx pl (listenSocket pms) s = Some s1"
    using assms(1) by (auto simp: accept_case_def split: option.splits)
  note fr = PostAcceptEx_frame [OF s1 assms(2,4)]
  obtain o1 where o1: "t_heap s1 a = Some o1" using fr(1) assms(4) by auto
  let ?o = "o1\<lparr>op_buffer := replicate BUFF_SIZE 0, op_type := IO_RECV, op_buf := OwnBuffer, op_len := BUFF_SIZE\<rparr>"
  have "t_inv (store a ?o s1)"
    using PostAcceptEx_inv [OF s1 assms(2,3)] fr(2) assms(5) by (intro t_inv_store) (simp_all add: ctx_ok_def)
  then have "t_inv (ticked (call x (store a ?o s1)))" for x by simp
  moreover have "t_heap (ticked (call x (store a ?o s1))) a = Some ?o" for x by (simp add: tsrv_defs)
  ultimately have "t_inv (post r a y (ticked (ticked (call x (store a ?o s1)))))" for r x y
    by (intro t_inv_post [of _ _ ?o]) (simp_all add: blank_def)
  then show ?thesis using assms(1) s1 o1 by (auto simp: accept_case_def lookup_ctx_def Let_def)
qed

lemma recv_case_inv:
  assumes "recv_case pl n a o1 s = Done s'" "t_inv s" "t_heap s a = Some o1" "a \<notin> t_out s"
  shows "t_inv s'"
proof (cases "n = 0")
  case True
  then show ?thesis using assms drop_client_inv by (auto simp: recv_case_def)
next
  case False
  let ?o = "o1\<lparr>op_type := IO_SEND, op_buf := LocalStr, op_len := 22\<rparr>"
  have "ctx_ok o1" using assms(2,3) by (auto simp: t_inv_def)
  then have "t_inv (store a ?o (call x s))" for x
    using assms(2,4) by (intro t_inv_store) (simp_all add: ctx_ok_def call_def t_inv_def)
  moreover have "t_heap (store a ?o (call x s)) a = Some ?o" for x by (simp add: tsrv_defs)
  ultimately have "t_inv (post r a y (ticked (store a ?o (call x s))))" for r x y
    by (intro t_inv_post [of _ _ ?o]) (simp_all add: blank_def)
  then show ?thesis using assms(1) False by (auto simp: recv_case_def Let_def)
qed

text \<open>The outcomes of a round.\<close>

lemma round_cases:
  assumes "workerThread_round pl pms c s = Done (g, s')" "c_overlp c = Some a" "t_heap s a = Some o1"
  obtains (gone) "s' = drop_client a o1 s" "\<not> c_result c \<or> op_type o1 = IO_SEND"
  | (accepted) "accept_case pl pms a s = Done s'" "c_result c" "op_type o1 = IO_ACCEPT"
  | (received) "recv_case pl (c_bytes c) a o1 s = Done s'" "c_result c" "op_type o1 = IO_RECV"
  | (kept) "s' = s" "c_result c" "op_type o1 \<noteq> IO_ACCEPT"
  | (returned) "s' = s\<lparr>t_workers := t_workers s - 1\<rparr>" "\<not> c_result c" "\<not> g"
proof (cases "c_result c")
  case True
  have r: "workerThread_round pl pms c s =
      (case op_type o1 of
         IO_ACCEPT \<Rightarrow> bind_outcome (accept_case pl pms a s) (\<lambda>s1. Done (True, s1))
       | IO_RECV \<Rightarrow> bind_outcome (recv_case pl (c_bytes c) a o1 s) (\<lambda>s1. Done (True, s1))
       | IO_SEND \<Rightarrow> Done (True, if c_bytes c = 0 then drop_client a o1 s else s)
       | _ \<Rightarrow> Done (True, s))"
    using True assms(2,3) by (simp add: workerThread_round_def lookup_ctx_def Let_def)
  show thesis
  proof (cases "op_type o1")
    case IO_ACCEPT
    then have "accept_case pl pms a s = Done s'" using r assms(1) by (cases "accept_case pl pms a s") auto
    then show thesis using accepted True IO_ACCEPT by blast
  next
    case IO_SEND
    then show thesis using r assms(1) True gone kept by (cases "c_bytes c = 0") simp_all
  next
    case IO_RECV
    then have "recv_case pl (c_bytes c) a o1 s = Done s'"
      using r assms(1) by (cases "recv_case pl (c_bytes c) a o1 s") auto
    then show thesis using received True IO_RECV by blast
  qed (use r assms(1) True kept in simp_all)
next
  case False
  then show thesis
    using assms gone returned by (auto simp: workerThread_round_def lookup_ctx_def split: if_splits)
qed

lemma round_inv:
  assumes "workerThread_round pl pms c s = Done (g, s')" "new_fresh pl" "t_inv s"
    and "\<And>a. c_overlp c = Some a \<Longrightarrow> a \<notin> t_out s"
  shows "t_inv s'"
proof (cases "c_overlp c")
  case None
  then show ?thesis using assms by (auto simp: workerThread_round_def lookup_ctx_def split: if_splits)
next
  case (Some a)
  then have a: "a \<notin> t_out s" using assms(4) by simp
  show ?thesis
  proof (cases "t_heap s a")
    case None
    then show ?thesis using assms(1,3) Some by (auto simp: workerThread_round_def lookup_ctx_def split: if_splits)
  next
    case o1: (Some o1)
    from assms(1) Some o1 show ?thesis
    proof (cases rule: round_cases)
      case gone
      then show ?thesis using drop_client_inv [OF assms(3) a] by simp
    next
      case accepted
      then show ?thesis using accept_case_inv [OF _ assms(2,3) _ a] o1 by blast
    next
      case received
      then show ?thesis using recv_case_inv [OF _ assms(3) o1 a] by blast
    qed (use assms(3) in simp_all)
  qed
qed

text \<open>What a round does with the other structures, and which rounds are not defined.\<close>

lemma round_frame:
  assumes "workerThread_round pl pms c s = Done (g, s')" "new_fresh pl"
    and "b \<in> dom (t_heap s)" "c_overlp c \<noteq> Some b"
  shows "t_heap s' b = t_heap s b \<and> (b \<in> t_out s' \<longleftrightarrow> b \<in> t_out s)"
proof (cases "c_overlp c")
  case None
  then show ?thesis using assms by (auto simp: workerThread_round_def lookup_ctx_def split: if_splits)
next
  case (Some a)
  then have ab: "b \<noteq> a" using assms(4) by auto
  have acc: "t_heap s1 b = t_heap s b \<and> (b \<in> t_out s1 \<longleftrightarrow> b \<in> t_out s)" if ac: "accept_case pl pms a s = Done s1" for s1
  proof -
    obtain s2 where s2: "PostAcceptEx pl (listenSocket pms) s = Some s2"
      using ac by (auto simp: accept_case_def split: option.splits)
    then show ?thesis
      using ac PostAcceptEx_frame [OF s2 assms(2,3)] ab
      by (auto simp: accept_case_def lookup_ctx_def Let_def tsrv_defs split: option.splits if_splits)
  qed
  have rec: "t_heap s1 b = t_heap s b \<and> (b \<in> t_out s1 \<longleftrightarrow> b \<in> t_out s)" if "recv_case pl n a o1 s = Done s1" for n o1 s1
    using that ab by (auto simp: recv_case_def drop_client_def Let_def tsrv_defs split: if_splits)
  show ?thesis
  proof (cases "t_heap s a")
    case None
    then show ?thesis using assms(1) Some by (auto simp: workerThread_round_def lookup_ctx_def split: if_splits)
  next
    case o1: (Some o1)
    from assms(1) Some o1 show ?thesis
    proof (cases rule: round_cases)
      case gone
      then show ?thesis using ab by (simp add: drop_client_def tsrv_defs)
    next
      case accepted
      then show ?thesis using acc by blast
    next
      case received
      then show ?thesis using rec by blast
    qed simp_all
  qed
qed

lemma round_defined:
  assumes "t_inv s" "new_fresh pl" "t_heap s a = Some o1" "c_overlp c = Some a"
  shows "workerThread_round pl pms c s = Undefined \<longleftrightarrow>
      c_result c \<and> op_type o1 = IO_RECV \<and> c_bytes c \<noteq> 0 \<and> 0 \<notin> set (op_buffer o1)"
    "workerThread_round pl pms c s = Blocks \<longleftrightarrow>
      c_result c \<and> op_type o1 = IO_ACCEPT \<and> PostAcceptEx pl (listenSocket pms) s = None"
proof -
  have acc: "accept_case pl pms a s = (case PostAcceptEx pl (listenSocket pms) s of None \<Rightarrow> Blocks
      | Some s1 \<Rightarrow> accept_case pl pms a s)" "accept_case pl pms a s \<noteq> Undefined"
    "accept_case pl pms a s = Blocks \<longleftrightarrow> PostAcceptEx pl (listenSocket pms) s = None"
    using PostAcceptEx_frame(1) [of pl "listenSocket pms" s _ a] assms(2) assms(3)
      domI [of "t_heap s", OF assms(3)]
    by (auto simp: accept_case_def lookup_ctx_def Let_def split: option.split)
  have ok: "ctx_ok o1" using assms(1,3) by (auto simp: t_inv_def)
  have rec: "recv_case pl n a o1 s = Undefined \<longleftrightarrow> n \<noteq> 0 \<and> 0 \<notin> set (op_buffer o1)" "recv_case pl n a o1 s \<noteq> Blocks" for n
    by (auto simp: recv_case_def show_buffer_def Let_def)
  have b: "bind_outcome m (\<lambda>x. Done (f x)) = Undefined \<longleftrightarrow> m = Undefined"
    "bind_outcome m (\<lambda>x. Done (f x)) = Blocks \<longleftrightarrow> m = Blocks" for m :: "'x outcome" and f :: "'x \<Rightarrow> 'y"
    by (cases m; simp)+
  show "workerThread_round pl pms c s = Undefined \<longleftrightarrow>
      c_result c \<and> op_type o1 = IO_RECV \<and> c_bytes c \<noteq> 0 \<and> 0 \<notin> set (op_buffer o1)"
    "workerThread_round pl pms c s = Blocks \<longleftrightarrow>
      c_result c \<and> op_type o1 = IO_ACCEPT \<and> PostAcceptEx pl (listenSocket pms) s = None"
    using assms(3,4) acc(2,3) rec ok
    by (cases "op_type o1"; auto simp: workerThread_round_def lookup_ctx_def Let_def b ctx_ok_def)+
qed

text \<open>The start, and the invariant of every run.\<close>

lemma initServer_frame:
  "initServer pl pms0 s = (r, pms, s') \<Longrightarrow> t_heap s' = t_heap s \<and> t_out s' = t_out s"
  by (auto simp: initServer_def init_listening_def init_close_def tsrv_defs Let_def split: if_splits)

definition accepts :: "tsrv \<Rightarrow> nat set" where
  "accepts s = {a \<in> t_out s. \<exists>c. t_heap s a = Some c \<and> op_type c = IO_ACCEPT}"

lemma PostAcceptEx_accepts:
  assumes "PostAcceptEx pl l s = Some s'" "new_fresh pl" "t_inv s"
  shows "accepts s \<subseteq> accepts s' \<and> (\<exists>a. accepts s' \<subseteq> insert a (accepts s))"
  using assms(1,2)
proof (cases rule: PostAcceptEx_Some)
  case idle
  then show ?thesis by (auto simp: accepts_def)
next
  case (posted a sd)
  then have "accepts s' = insert a (accepts s)"
    using assms(3) accept_ctx_ok by (auto simp: accepts_def t_inv_def)
  then show ?thesis by blast
qed

lemma accepts_finite: "t_inv s \<Longrightarrow> finite (accepts s)"
  by (simp add: accepts_def t_inv_def)

lemma PostAcceptEx_card:
  assumes "PostAcceptEx pl l s = Some s'" "new_fresh pl" "t_inv s"
  shows "card (accepts s') \<le> Suc (card (accepts s))"
proof -
  obtain a where "accepts s' \<subseteq> insert a (accepts s)" using PostAcceptEx_accepts [OF assms] by blast
  then have "card (accepts s') \<le> card (insert a (accepts s))"
    using accepts_finite [OF assms(3)] by (intro card_mono) auto
  also have "\<dots> \<le> Suc (card (accepts s))" by (rule card_insert_le_m1 [of "Suc _", simplified]) simp
  finally show ?thesis .
qed

lemma post_accepts_inv:
  assumes "post_accepts pl l n s = Some s'" "new_fresh pl" "t_inv s"
  shows "t_inv s' \<and> card (accepts s') \<le> card (accepts s) + n"
  using assms
proof (induction n arbitrary: s)
  case (Suc n)
  then obtain s1 where s1: "PostAcceptEx pl l s = Some s1" "post_accepts pl l n s1 = Some s'"
    by (auto simp: bind_eq_Some_conv)
  then show ?case
    using Suc.IH [of s1] Suc.prems(2,3) PostAcceptEx_inv [OF s1(1)] PostAcceptEx_card [OF s1(1)] by fastforce
qed simp


lemma arrive_live: "t_heap s a = Some o1 \<Longrightarrow>
    t_heap (arrive a data s) = (t_heap s)(a \<mapsto> o1\<lparr>op_buffer := data @ drop (length data) (op_buffer o1)\<rparr>) \<and>
    t_out (arrive a data s) = t_out s - {a} \<and> t_workers (arrive a data s) = t_workers s \<and>
    t_calls (arrive a data s) = t_calls s \<and> t_clock (arrive a data s) = t_clock s"
  by (simp add: arrive_def store_def)

lemma t_step_inv:
  assumes "t_step pl pms s s'" "new_fresh pl" "t_inv s"
  shows "t_inv s'"
  using assms(1)
proof cases
  case (complete a data c goes_on)
  then have a: "a \<in> dom (t_heap s)" "length data \<le> BUFF_SIZE" "c_overlp c = Some a"
    using assms(3) by (auto simp: may_complete_def t_inv_def)
  show ?thesis
    using round_inv [OF complete(2) assms(2) arrive_inv(1) [OF assms(3) a(2)]] arrive_inv(2) [OF assms(3) a(2,1)] a(3)
    by auto
next
  case (port_fails c e goes_on)
  show ?thesis using round_inv [OF port_fails(5) assms(2,3)] port_fails(2) by auto
qed

lemma start_inv:
  assumes "t_heap s0 = Map.empty" "t_out s0 = {}" "test_start pl pms0 s0 = Some (True, pms, s)" "new_fresh pl"
  shows "t_inv s \<and> card (accepts s) \<le> START_POST_ACCEPTEX"
proof -
  obtain r s1 where s1: "initServer pl pms0 s0 = (r, pms, s1)"
    "post_accepts pl (listenSocket pms) START_POST_ACCEPTEX (s1\<lparr>t_workers := THREAD_COUNT\<rparr>) = Some s"
    using assms(3) by (auto simp: test_start_def split: prod.splits if_splits)
  have "t_inv s1" "accepts s1 = {}"
    using initServer_frame [OF s1(1)] assms(1,2) by (auto simp: t_inv_def accepts_def)
  moreover have "accepts (s1\<lparr>t_workers := THREAD_COUNT\<rparr>) = accepts s1" by (simp add: accepts_def)
  ultimately show ?thesis using post_accepts_inv [OF s1(2) assms(4)] by simp
qed

text \<open>How a step changes the set of posted accepts.\<close>

lemma round_accepts:
  assumes r: "workerThread_round pl pms c s = Done (g, s')" and "new_fresh pl" "t_inv s"
    and o1: "c_overlp c = Some a" "t_heap s a = Some o1" "a \<notin> t_out s"
  shows "accepts s' = accepts s \<or>
    c_result c \<and> op_type o1 = IO_ACCEPT \<and> card (accepts s') \<le> Suc (card (accepts s))"
  using r o1(1,2)
proof (cases rule: round_cases)
  case gone
  then show ?thesis using o1(3) by (auto simp: accepts_def drop_client_def tsrv_defs)
next
  case accepted
  then obtain s1 where s1: "PostAcceptEx pl (listenSocket pms) s = Some s1"
    by (auto simp: accept_case_def split: option.splits)
  have "a \<notin> t_out s1" using PostAcceptEx_frame(2) [OF s1 assms(2)] o1(2,3) by auto
  then have "accepts s' = accepts s1"
    using accepted(1) s1 by (auto simp: accept_case_def accepts_def lookup_ctx_def Let_def tsrv_defs split: option.splits if_splits)
  then show ?thesis using PostAcceptEx_card [OF s1 assms(2,3)] accepted by simp
next
  case received
  then have "accepts s' = accepts s"
    using o1(3) by (auto simp: recv_case_def accepts_def drop_client_def Let_def tsrv_defs split: if_splits)
  then show ?thesis by simp
qed (auto simp: accepts_def)

lemma arrive_accepts:
  assumes "t_heap s a = Some o1"
  shows "accepts (arrive a data s) = accepts s - {a}"
  using arrive_live [OF assms, of data] assms by (auto simp: accepts_def)

lemma accepts_removed:
  assumes "t_inv s" "a \<in> t_out s" "t_heap s a = Some o1"
  shows "card (accepts s - {a}) = card (accepts s) - (if op_type o1 = IO_ACCEPT then 1 else 0)"
    "op_type o1 = IO_ACCEPT \<Longrightarrow> 0 < card (accepts s)"
proof -
  have fin: "finite (accepts s)" using accepts_finite [OF assms(1)] .
  have a: "a \<in> accepts s \<longleftrightarrow> op_type o1 = IO_ACCEPT" using assms(2,3) by (auto simp: accepts_def)
  then show "card (accepts s - {a}) = card (accepts s) - (if op_type o1 = IO_ACCEPT then 1 else 0)"
    using fin by (auto simp: card_Diff_singleton)
  show "op_type o1 = IO_ACCEPT \<Longrightarrow> 0 < card (accepts s)" using a fin card_gt_0_iff by blast
qed

lemma complete_accepts:
  assumes "may_complete s a data c" "workerThread_round pl pms c (arrive a data s) = Done (g, s')"
    and "new_fresh pl" "t_inv s" "t_heap s a = Some o1"
  shows "card (accepts s') \<le> card (accepts s)"
    "\<not> c_result c \<Longrightarrow> op_type o1 = IO_ACCEPT \<Longrightarrow> Suc (card (accepts s')) = card (accepts s)"
proof -
  have m: "a \<in> t_out s" "c_overlp c = Some a" "length data \<le> BUFF_SIZE" using assms(1) by (auto simp: may_complete_def)
  let ?o = "o1\<lparr>op_buffer := data @ drop (length data) (op_buffer o1)\<rparr>"
  have live: "t_heap (arrive a data s) a = Some ?o" "a \<notin> t_out (arrive a data s)"
    using arrive_live [OF assms(5), of data] by simp_all
  have r: "accepts s' = accepts s - {a} \<or>
      c_result c \<and> op_type o1 = IO_ACCEPT \<and> card (accepts s') \<le> Suc (card (accepts s - {a}))"
    using round_accepts [OF assms(2,3) arrive_inv(1) [OF assms(4) m(3)] m(2) live]
    unfolding arrive_accepts [OF assms(5)] by simp
  note rem = accepts_removed [OF assms(4) m(1) assms(5)]
  obtain z where z: "card (accepts s - {a}) = z" by simp
  have "card (accepts s') = z \<or> c_result c \<and> op_type o1 = IO_ACCEPT \<and> card (accepts s') \<le> Suc z"
    using r unfolding z [symmetric] by metis
  then have "card (accepts s') \<le> (if op_type o1 = IO_ACCEPT then Suc z else z)" by (simp split: if_split) linarith
  then show "card (accepts s') \<le> card (accepts s)"
    using rem unfolding z by (cases "op_type o1 = IO_ACCEPT") simp_all
  show "Suc (card (accepts s')) = card (accepts s)" if "\<not> c_result c" "op_type o1 = IO_ACCEPT"
  proof -
    have "card (accepts s') = z" using r z that by metis
    then show ?thesis using rem that unfolding z by simp
  qed
qed

lemma step_accepts:
  assumes "t_step pl pms s s'" "new_fresh pl" "t_inv s"
  shows "card (accepts s') \<le> card (accepts s)"
  using assms(1)
proof cases
  case (complete a data c goes_on)
  then obtain o1 where "t_heap s a = Some o1" using assms(3) by (auto simp: may_complete_def t_inv_def)
  then show ?thesis using complete_accepts(1) [OF complete(1,2) assms(2,3)] by blast
next
  case (port_fails c e goes_on)
  then have "s' = s\<lparr>t_workers := t_workers s - 1\<rparr>" by (auto simp: workerThread_round_def)
  then show ?thesis by (simp add: accepts_def)
qed

lemma t_reachable_inv:
  assumes "t_reachable pl pms s" "new_fresh pl"
  shows "t_inv s \<and> card (accepts s) \<le> START_POST_ACCEPTEX"
  using assms(1)
proof induction
  case (start s0 pms0 s)
  then show ?case using start_inv assms(2) by blast
next
  case (step s t)
  then show ?case using t_step_inv [OF step(2) assms(2)] step_accepts [OF step(2) assms(2)] by fastforce
qed


section \<open>What the server promises\<close>


text \<open>The witness: the accept of the structure at 7 completes.\<close>

definition good_plat :: plat where
  "good_plat = \<lparr>pl_WSAStartup = \<lambda>k. 0, pl_WSASocket = Some, pl_bind = \<lambda>k. 0, pl_listen = \<lambda>k. 0,
     pl_CreateIoCompletionPort = Some, pl_new = \<lambda>k h. if h k = None then Some k else None,
     pl_AcceptEx = \<lambda>k. Pending, pl_WSARecv = \<lambda>k. Pending, pl_WSASend = \<lambda>k. Immediately\<rparr>"

definition first_state :: tsrv where
  "first_state = \<lparr>t_heap = Map.empty, t_out = {}, t_calls = [], t_clock = 0, t_workers = 0\<rparr>"

definition demo_params :: ServerParams where
  "demo_params = \<lparr>listenSocket = Some 1, completionPort = Some 4\<rparr>"

definition demo_run :: tsrv where
  "demo_run =
     \<lparr>t_heap = [7 \<mapsto> accept_ctx 6, 10 \<mapsto> accept_ctx 9, 13 \<mapsto> accept_ctx 12, 16 \<mapsto> accept_ctx 15],
      t_out = {16, 13, 10, 7},
      t_calls = [Registers 1 (Some 4), Accepts (Some 1) 7, Accepts (Some 1) 10, Accepts (Some 1) 13, Accepts (Some 1) 16],
      t_clock = 18, t_workers = 4\<rparr>"

lemma good_plat_fresh: "new_fresh good_plat"
  by (auto simp: new_fresh_def good_plat_def)

lemma good_post:
  "t_heap s (Suc (t_clock s)) = None \<Longrightarrow>
   PostAcceptEx good_plat l s =
     Some (s\<lparr>t_heap := (t_heap s)(Suc (t_clock s) \<mapsto> accept_ctx (t_clock s)),
             t_out := insert (Suc (t_clock s)) (t_out s),
             t_calls := t_calls s @ [Accepts l (Suc (t_clock s))], t_clock := t_clock s + 3\<rparr>)"
  by (simp add: PostAcceptEx_def good_plat_def Let_def tsrv_defs accept_ctx_def AcceptEx_loop.simps)

lemma demo_started: "test_start good_plat \<lparr>listenSocket = None, completionPort = None\<rparr> first_state =
    Some (True, demo_params, demo_run)"
proof -
  have "initServer good_plat \<lparr>listenSocket = None, completionPort = None\<rparr> first_state =
      (0, demo_params, first_state\<lparr>t_calls := [Registers 1 (Some 4)], t_clock := 6\<rparr>)"
    by (simp add: initServer_def init_listening_def init_close_def good_plat_def first_state_def Let_def tsrv_defs
        demo_params_def)
  moreover have "post_accepts good_plat (Some 1) START_POST_ACCEPTEX
      (first_state\<lparr>t_calls := [Registers 1 (Some 4)], t_clock := 6, t_workers := THREAD_COUNT\<rparr>) = Some demo_run"
  proof -
    have four: "START_POST_ACCEPTEX = Suc (Suc (Suc (Suc 0)))" by (simp add: START_POST_ACCEPTEX_def)
    show ?thesis
      unfolding four by (simp add: good_post first_state_def demo_run_def THREAD_COUNT_def)
  qed
  ultimately show ?thesis by (simp add: test_start_def demo_params_def)
qed

lemma demo_reachable: "t_reachable good_plat demo_params demo_run"
  by (rule t_reachable.start [OF _ _ demo_started]) (simp_all add: first_state_def)

definition demo_completion :: "nat \<Rightarrow> bool \<Rightarrow> completion" where
  "demo_completion n ok = \<lparr>c_result = ok, c_error = ERROR_NETNAME_DELETED, c_bytes = n, c_overlp = Some 7\<rparr>"

lemma demo_may_complete: "may_complete demo_run 7 [] (demo_completion 0 ok)"
  by (simp add: may_complete_def demo_run_def demo_completion_def accept_ctx_ok)



text \<open>
  C39. \<open>initServer\<close>: \<open>ret == -1\<close> in its last lines compares where it means to assign, so the
  answer is 0 also when no socket could be made, or when the completion port could not be
  made or the socket not be given to it, although the socket was closed and Winsock shut
  down. Only a failing \<open>WSAStartup\<close>, \<open>bind\<close> or \<open>listen\<close> is reported; \<open>test_iocp_demo\<close> goes
  on to serve with a closed or invalid socket otherwise.
\<close>

theorem init_server_answers:
  "(fst (initServer pl pms s) = 0 \<longleftrightarrow>
     pl_WSAStartup pl (t_clock s) = 0 \<and>
     (pl_WSASocket pl (t_clock s + 1) = None \<or>
      pl_bind pl (t_clock s + 2) = 0 \<and> pl_listen pl (t_clock s + 3) = 0)) \<and>
   (last (t_calls (snd (snd (initServer pl pms s)))) \<noteq> Cleanup \<longleftrightarrow>
     pl_WSAStartup pl (t_clock s) = 0 \<and> pl_WSASocket pl (t_clock s + 1) \<noteq> None \<and>
     pl_bind pl (t_clock s + 2) = 0 \<and> pl_listen pl (t_clock s + 3) = 0 \<and>
     pl_CreateIoCompletionPort pl (t_clock s + 4) \<noteq> None \<and> pl_CreateIoCompletionPort pl (t_clock s + 5) \<noteq> None)"
  by (simp add: initServer_def init_listening_def init_close_def tsrv_defs Let_def numeral_eq_Suc
      split: if_split)


text \<open>
  C38. The number of accepts that are posted never grows beyond the four of the start, and a
  worker posts a new one only when an accept succeeds: every accept that fails (the peer
  went away first) lowers the number for good, so after four of them no client is accepted
  again.
\<close>

theorem accept_slots_lost:
  assumes "t_reachable pl pms s" "new_fresh pl"
  shows "card (accepts s) \<le> START_POST_ACCEPTEX \<and>
    (\<forall>s'. t_step pl pms s s' \<longrightarrow> card (accepts s') \<le> card (accepts s)) \<and>
    (\<forall>a data c g s' o1. may_complete s a data c \<and> t_heap s a = Some o1 \<and> op_type o1 = IO_ACCEPT \<and> \<not> c_result c \<and>
       workerThread_round pl pms c (arrive a data s) = Done (g, s') \<longrightarrow> Suc (card (accepts s')) = card (accepts s))"
proof -
  have inv: "t_inv s" "card (accepts s) \<le> START_POST_ACCEPTEX" using t_reachable_inv [OF assms] by simp_all
  show ?thesis
    using inv(2) step_accepts [OF _ assms(2) inv(1)] complete_accepts(2) [OF _ _ assms(2) inv(1)] by blast
qed

theorem accept_slots_lost_witness:
  "card (accepts demo_run) \<le> START_POST_ACCEPTEX \<and>
    (\<exists>s'. workerThread_round good_plat demo_params (demo_completion 0 False) (arrive 7 [] demo_run) = Done (True, s') \<and>
      Suc (card (accepts s')) = card (accepts demo_run))"
proof -
  have h: "t_heap demo_run 7 = Some (accept_ctx 6)" by (simp add: demo_run_def)
  have "\<exists>s'. workerThread_round good_plat demo_params (demo_completion 0 False) (arrive 7 [] demo_run) = Done (True, s')"
    using arrive_live [OF h, of "[]"] by (simp add: workerThread_round_def demo_completion_def lookup_ctx_def)
  then show ?thesis
    using accept_slots_lost [OF demo_reachable good_plat_fresh] demo_may_complete [of False] h accept_ctx_ok(2)
    by (fastforce simp: demo_completion_def)
qed

text \<open>
  C22. A client is answered once and then forgotten: when the completion of its reply arrives,
  the worker asks nothing of the system, and in the whole rest of the run the structure is
  neither with the system nor deleted, so its socket is neither read again nor closed.
\<close>

lemma step_keeps_idle:
  assumes "t_step pl pms s s'" "new_fresh pl" "t_inv s" "b \<in> dom (t_heap s)" "b \<notin> t_out s"
  shows "t_heap s' b = t_heap s b \<and> b \<notin> t_out s'"
  using assms(1)
proof cases
  case (complete a data c goes_on)
  then have a: "a \<in> t_out s" "c_overlp c = Some a" "b \<noteq> a" using assms(5) by (auto simp: may_complete_def)
  then obtain o1 where "t_heap s a = Some o1" using assms(3) by (auto simp: t_inv_def)
  then have "t_heap (arrive a data s) b = t_heap s b \<and> b \<notin> t_out (arrive a data s)"
    using arrive_live [of s a o1 data] a(3) assms(5) by simp
  then show ?thesis
    using round_frame [OF complete(2) assms(2), of b] a(2,3) assms(4) by (auto simp: domIff)
next
  case (port_fails c e goes_on)
  then show ?thesis using round_frame [OF port_fails(5) assms(2,4)] assms(5) by simp
qed

lemma steps_keep_idle:
  assumes "(t_step pl pms)\<^sup>*\<^sup>* s s'" "new_fresh pl" "t_inv s" "b \<in> dom (t_heap s)" "b \<notin> t_out s"
  shows "t_inv s' \<and> t_heap s' b = t_heap s b \<and> b \<notin> t_out s'"
  using assms(1)
proof induction
  case base
  then show ?case using assms by simp
next
  case (step s1 s2)
  then show ?case
    using t_step_inv [OF step(2) assms(2)] step_keeps_idle [OF step(2) assms(2), of b] assms(4) by (auto simp: domIff)
qed

theorem replied_client_leaks:
  assumes "t_reachable pl pms s" "new_fresh pl" "may_complete s a data c"
    and "t_heap s a = Some o1" "op_type o1 = IO_SEND" "c_result c" "c_bytes c \<noteq> 0"
  shows "\<exists>s1. workerThread_round pl pms c (arrive a data s) = Done (True, s1) \<and> t_calls s1 = t_calls s \<and>
    (\<forall>s'. (t_step pl pms)\<^sup>*\<^sup>* s1 s' \<longrightarrow> a \<notin> t_out s' \<and> (\<exists>o2. t_heap s' a = Some o2 \<and> op_socket o2 = op_socket o1))"
proof -
  let ?s = "arrive a data s"
  have inv: "t_inv s" using t_reachable_inv [OF assms(1,2)] by simp
  have m: "c_overlp c = Some a" "length data \<le> BUFF_SIZE" using assms(3) by (auto simp: may_complete_def)
  note live = arrive_live [OF assms(4), of data]
  have "workerThread_round pl pms c ?s = Done (True, ?s)"
    using live m assms(5-7) by (simp add: workerThread_round_def lookup_ctx_def)
  moreover have "a \<notin> t_out s' \<and> (\<exists>o2. t_heap s' a = Some o2 \<and> op_socket o2 = op_socket o1)"
    if "(t_step pl pms)\<^sup>*\<^sup>* ?s s'" for s'
    using steps_keep_idle [OF that assms(2) arrive_inv(1) [OF inv m(2)], of a] live by auto
  ultimately show ?thesis using live by blast
qed


text \<open>The witness: the accept at 7, its message of one byte and its reply.\<close>

lemma good_recv: "pl_WSARecv good_plat k = Pending" "pl_WSASend good_plat k = Immediately"
  by (simp_all add: good_plat_def)

lemma demo_accepted:
  "\<exists>s o1. t_reachable good_plat demo_params s \<and> 7 \<in> t_out s \<and> 0 < t_workers s \<and>
     t_heap s 7 = Some o1 \<and> op_type o1 = IO_RECV \<and> op_buffer o1 = replicate BUFF_SIZE 0"
proof -
  let ?c = "demo_completion 0 True" and ?s = "arrive 7 [] demo_run"
  have h: "t_heap demo_run 7 = Some (accept_ctx 6)" by (simp add: demo_run_def)
  have "t_heap ?s (Suc (t_clock ?s)) = None" "t_out ?s = t_out demo_run - {7}" "t_workers ?s = 4"
    "t_heap ?s 7 = Some (accept_ctx 6\<lparr>op_buffer := op_buffer (accept_ctx 6)\<rparr>)" "t_clock ?s = 18"
    using arrive_live [OF h, of "[]"] by (simp_all add: demo_run_def)
  then obtain s o1 where s: "workerThread_round good_plat demo_params ?c ?s = Done (True, s)" "7 \<in> t_out s" "0 < t_workers s"
    "t_heap s 7 = Some o1" "op_type o1 = IO_RECV" "op_buffer o1 = replicate BUFF_SIZE 0"
    using accept_ctx_ok(2)
    by (simp add: workerThread_round_def demo_completion_def lookup_ctx_def accept_case_def good_post Let_def tsrv_defs
        good_recv)
  have "t_step good_plat demo_params demo_run s"
    by (rule t_step.complete [OF demo_may_complete s(1)])
  then have "t_reachable good_plat demo_params s" by (rule t_reachable.step [OF demo_reachable])
  with s show ?thesis by blast
qed

lemma demo_replied:
  "\<exists>s o1. t_reachable good_plat demo_params s \<and> may_complete s 7 [] (demo_completion 22 True) \<and>
     t_heap s 7 = Some o1 \<and> op_type o1 = IO_SEND"
proof -
  obtain s o1 where s: "t_reachable good_plat demo_params s" "7 \<in> t_out s" "0 < t_workers s"
    "t_heap s 7 = Some o1" "op_type o1 = IO_RECV" "op_buffer o1 = replicate BUFF_SIZE 0" using demo_accepted by blast
  let ?c = "demo_completion 1 True" and ?s = "arrive 7 [65] s"
  let ?o = "o1\<lparr>op_buffer := 65 # drop 1 (op_buffer o1)\<rparr>"
  have h: "t_heap ?s 7 = Some ?o" "t_workers ?s = t_workers s" using arrive_live [OF s(4), of "[65]"] by simp_all
  have "0 \<in> set (op_buffer ?o)" using s(6) by (simp add: BUFF_SIZE_def drop_replicate)
  then have "\<exists>s2 o2. workerThread_round good_plat demo_params ?c ?s = Done (True, s2) \<and> 7 \<in> t_out s2 \<and>
      t_workers s2 = t_workers s \<and> t_heap s2 7 = Some o2 \<and> op_type o2 = IO_SEND"
    using h s(5)
    by (simp add: workerThread_round_def demo_completion_def lookup_ctx_def recv_case_def show_buffer_def Let_def
        tsrv_defs good_recv)
  then obtain s2 o2 where s2: "workerThread_round good_plat demo_params ?c ?s = Done (True, s2)" "7 \<in> t_out s2"
    "t_workers s2 = t_workers s" "t_heap s2 7 = Some o2" "op_type o2 = IO_SEND" by blast
  have "may_complete s 7 [65] ?c"
    using s by (simp add: may_complete_def demo_completion_def BUFF_SIZE_def)
  then have "t_reachable good_plat demo_params s2"
    using t_reachable.step [OF s(1)] t_step.complete s2(1) by blast
  moreover have "may_complete s2 7 [] (demo_completion 22 True)"
    using s2 s(3) by (simp add: may_complete_def demo_completion_def)
  ultimately show ?thesis using s2 by blast
qed

theorem replied_client_leaks_witness:
  "\<exists>s s1. t_reachable good_plat demo_params s \<and> 7 \<in> t_out s \<and>
    workerThread_round good_plat demo_params (demo_completion 22 True) (arrive 7 [] s) = Done (True, s1) \<and>
    7 \<notin> t_out s1 \<and> t_heap s1 7 \<noteq> None"
proof -
  obtain s o1 where s: "t_reachable good_plat demo_params s" "may_complete s 7 [] (demo_completion 22 True)"
    "t_heap s 7 = Some o1" "op_type o1 = IO_SEND" using demo_replied by blast
  have "c_result (demo_completion 22 True)" "c_bytes (demo_completion 22 True) \<noteq> 0"
    by (simp_all add: demo_completion_def)
  from replied_client_leaks [OF s(1) good_plat_fresh s(2-4) this] show ?thesis
    using s(1,2) unfolding may_complete_def by (metis option.distinct(1) rtranclp.rtrancl_refl)
qed

end
