(* ===== verification/Fmt_Types.thy ===== *)
theory Fmt_Types
  imports Prelude
begin

text \<open>
  The data of the {fmt} core (fmt/include/fmt/base.h): argument types and sets of them,
  format specifiers, argument references, and the parse context with its automatic and
  manual argument indexing. \<open>Char\<close> is \<open>char\<close>; an error reported through \<open>report_error\<close>
  is the left of a sum, with the message.
\<close>

unbundle bit_operations_syntax

section \<open>Characters\<close>

definition code :: "char \<Rightarrow> nat" where
  "code c = of_char c"

definition is_digit :: "char \<Rightarrow> bool" where
  "is_digit c \<longleftrightarrow> 48 \<le> code c \<and> code c \<le> 57"

definition digit_value :: "char \<Rightarrow> nat" where
  "digit_value c = code c - 48"

definition is_name_start :: "char \<Rightarrow> bool" where
  "is_name_start c \<longleftrightarrow>
     97 \<le> code c \<and> code c \<le> 122 \<or> 65 \<le> code c \<and> code c \<le> 90 \<or> c = CHR ''_''"

lemma code_less [simp]: "code c < 256"
  by (simp add: code_def)

lemma code_inject: "code c = code d \<longleftrightarrow> c = d"
  by (simp add: code_def)

section \<open>Argument types\<close>

datatype arg_type =
    none_type
  | int_type | uint_type | long_long_type | ulong_long_type | int128_type | uint128_type
  | bool_type | char_type
  | float_type | double_type | long_double_type
  | cstring_type | string_type | pointer_type | custom_type

text \<open>The values of the enumeration; the order of the source matters to the tests below.\<close>

primrec type_index :: "arg_type \<Rightarrow> nat" where
  "type_index none_type = 0"
| "type_index int_type = 1"
| "type_index uint_type = 2"
| "type_index long_long_type = 3"
| "type_index ulong_long_type = 4"
| "type_index int128_type = 5"
| "type_index uint128_type = 6"
| "type_index bool_type = 7"
| "type_index char_type = 8"
| "type_index float_type = 9"
| "type_index double_type = 10"
| "type_index long_double_type = 11"
| "type_index cstring_type = 12"
| "type_index string_type = 13"
| "type_index pointer_type = 14"
| "type_index custom_type = 15"

definition is_integral_type :: "arg_type \<Rightarrow> bool" where
  "is_integral_type t \<longleftrightarrow>
     type_index t > type_index none_type \<and> type_index t \<le> type_index char_type"

definition is_arithmetic_type :: "arg_type \<Rightarrow> bool" where
  "is_arithmetic_type t \<longleftrightarrow>
     type_index t > type_index none_type \<and> type_index t \<le> type_index long_double_type"

definition type_set :: "arg_type \<Rightarrow> int" where
  "type_set rhs = push_bit (type_index rhs) 1"

definition in_set :: "arg_type \<Rightarrow> int \<Rightarrow> bool" where
  "in_set t s \<longleftrightarrow> drop_bit (type_index t) s AND 1 \<noteq> 0"

definition sint_set :: int where
  "sint_set = type_set int_type OR type_set long_long_type OR type_set int128_type"
definition uint_set :: int where
  "uint_set = type_set uint_type OR type_set ulong_long_type OR type_set uint128_type"
definition bool_set :: int where "bool_set = type_set bool_type"
definition char_set :: int where "char_set = type_set char_type"
definition float_set :: int where
  "float_set = type_set float_type OR type_set double_type OR type_set long_double_type"
definition string_set :: int where "string_set = type_set string_type"
definition cstring_set :: int where "cstring_set = type_set cstring_type"
definition pointer_set :: int where "pointer_set = type_set pointer_type"
definition integral_set :: int where
  "integral_set = sint_set OR uint_set OR bool_set OR char_set"

lemma in_set_bit: "in_set t s \<longleftrightarrow> bit s (type_index t)"
  by (auto simp: in_set_def and_one_eq bit_iff_odd_drop_bit odd_iff_mod_2_eq_one)

lemma in_set_or [simp]: "in_set t (a OR b) \<longleftrightarrow> in_set t a \<or> in_set t b"
  by (simp add: in_set_bit bit_or_iff)

lemma type_index_inject: "type_index t = type_index u \<longleftrightarrow> t = u"
  by (cases t; cases u) simp_all

lemma in_type_set [simp]: "in_set t (type_set u) \<longleftrightarrow> t = u"
  using type_index_inject [of t u] by (auto simp: in_set_bit type_set_def bit_exp_iff)

lemma in_sets [simp]:
  "in_set t sint_set \<longleftrightarrow> t \<in> {int_type, long_long_type, int128_type}"
  "in_set t uint_set \<longleftrightarrow> t \<in> {uint_type, ulong_long_type, uint128_type}"
  "in_set t bool_set \<longleftrightarrow> t = bool_type"
  "in_set t char_set \<longleftrightarrow> t = char_type"
  "in_set t float_set \<longleftrightarrow> t \<in> {float_type, double_type, long_double_type}"
  "in_set t string_set \<longleftrightarrow> t = string_type"
  "in_set t cstring_set \<longleftrightarrow> t = cstring_type"
  "in_set t pointer_set \<longleftrightarrow> t = pointer_type"
  by (simp_all add: sint_set_def uint_set_def bool_set_def char_set_def float_set_def
      string_set_def cstring_set_def pointer_set_def)

lemma in_integral_set [simp]: "in_set t integral_set \<longleftrightarrow> is_integral_type t"
  by (cases t) (simp_all add: integral_set_def is_integral_type_def)

section \<open>Format specifiers\<close>

datatype align_t = align_none | align_left | align_right | align_center | align_numeric
datatype sign_t = sign_none | sign_minus | sign_plus | sign_space

text \<open>\<open>presentation_type\<close>: several names share a value.\<close>

type_synonym presentation_type = nat
definition pres_none :: presentation_type where "pres_none = 0"
definition pres_debug :: presentation_type where "pres_debug = 1"
definition pres_string :: presentation_type where "pres_string = 2"
definition pres_dec :: presentation_type where "pres_dec = 3"
definition pres_hex :: presentation_type where "pres_hex = 4"
definition pres_oct :: presentation_type where "pres_oct = 5"
definition pres_bin :: presentation_type where "pres_bin = 6"
definition pres_chr :: presentation_type where "pres_chr = 7"
definition pres_pointer :: presentation_type where "pres_pointer = 3"
definition pres_exp :: presentation_type where "pres_exp = 1"
definition pres_fixed :: presentation_type where "pres_fixed = 2"
definition pres_general :: presentation_type where "pres_general = 3"
definition pres_hexfloat :: presentation_type where "pres_hexfloat = 4"

lemmas pres_defs = pres_none_def pres_debug_def pres_string_def pres_dec_def pres_hex_def
  pres_oct_def pres_bin_def pres_chr_def pres_pointer_def pres_exp_def pres_fixed_def
  pres_general_def pres_hexfloat_def

text \<open>\<open>fill_t\<close>: the first \<open>size_\<close> characters of \<open>data_\<close>; assigning a view of more than four
  is a failed assertion.\<close>

definition fill_assign :: "string \<Rightarrow> string option" where
  "fill_assign s = (if length s \<le> 4 then Some s else None)"

datatype arg_ref = ref_none | ref_index int | ref_name string

record format_specs =
  width :: int
  precision :: int
  pres :: presentation_type
  align :: align_t
  sign :: sign_t
  upper :: bool
  alt :: bool
  localized :: bool
  fill :: string

record dynamic_format_specs = format_specs +
  width_ref :: arg_ref
  precision_ref :: arg_ref

definition default_specs :: dynamic_format_specs where
  "default_specs = \<lparr>width = 0, precision = -1, pres = pres_none, align = align_none,
     sign = sign_none, upper = False, alt = False, localized = False, fill = '' '',
     width_ref = ref_none, precision_ref = ref_none\<rparr>"

section \<open>The parse context\<close>

text \<open>
  \<open>basic_format_parse_context\<close>: what is left of the format string and the counter of
  arguments. \<open>ctx_types\<close> is \<open>None\<close> at run time and the types of the arguments in the
  \<open>compile_parse_context\<close> of a compile-time check.
\<close>

record parse_context =
  format_str :: string
  ctx_next_id :: int
  ctx_types :: "arg_type list option"

definition do_check_arg_id :: "int \<Rightarrow> parse_context \<Rightarrow> string + parse_context" where
  "do_check_arg_id i ctx =
     (case ctx_types ctx of
        None \<Rightarrow> Inr ctx
      | Some ts \<Rightarrow> if i \<ge> int (length ts) then Inl ''argument not found'' else Inr ctx)"

definition next_arg_id :: "parse_context \<Rightarrow> string + (int \<times> parse_context)" where
  "next_arg_id ctx =
     (if ctx_next_id ctx < 0
      then Inl ''cannot switch from manual to automatic argument indexing''
      else
        let i = ctx_next_id ctx in
        bind_sum (do_check_arg_id i (ctx\<lparr>ctx_next_id := i + 1\<rparr>)) (\<lambda>ctx'. Inr (i, ctx')))"

definition check_arg_id :: "int \<Rightarrow> parse_context \<Rightarrow> string + parse_context" where
  "check_arg_id i ctx =
     (if ctx_next_id ctx > 0
      then Inl ''cannot switch from automatic to manual argument indexing''
      else do_check_arg_id i (ctx\<lparr>ctx_next_id := -1\<rparr>))"

definition check_arg_name :: "string \<Rightarrow> parse_context \<Rightarrow> string + parse_context" where
  "check_arg_name name ctx = Inr (ctx\<lparr>ctx_next_id := -1\<rparr>)"

definition check_dynamic_spec :: "int \<Rightarrow> parse_context \<Rightarrow> string + parse_context" where
  "check_dynamic_spec arg_id ctx =
     (case ctx_types ctx of
        None \<Rightarrow> Inr ctx
      | Some ts \<Rightarrow>
          if arg_id < int (length ts) \<and> \<not> is_integral_type (ts ! nat arg_id)
          then Inl ''width/precision is not integer'' else Inr ctx)"

definition advance_to :: "string \<Rightarrow> parse_context \<Rightarrow> parse_context" where
  "advance_to it ctx = ctx\<lparr>format_str := it\<rparr>"

end
