(* ===== verification/Fmt_Parse.thy ===== *)
theory Fmt_Parse
  imports Fmt_Types
begin

text \<open>
  The parsers of fmt/include/fmt/base.h for the parts of a replacement field: numbers,
  alignment, argument ids, dynamic width and precision. A pair of pointers \<open>begin\<close>,
  \<open>end\<close> is the list of the characters between them, and a parser returns what it leaves.
\<close>

section \<open>Numbers\<close>

definition INT_MAX :: int where "INT_MAX = 2147483647"

text \<open>
  The \<open>do ... while\<close> of \<open>parse_nonnegative_int\<close>; the results are \<open>value\<close>, \<open>prev\<close>, the
  number of digits, \<open>p[-1]\<close> and the rest. \<open>value\<close> wraps around.
\<close>

fun digits_loop ::
  "string \<Rightarrow> 32 word \<Rightarrow> 32 word \<Rightarrow> nat \<Rightarrow> char \<Rightarrow> 32 word \<times> 32 word \<times> nat \<times> char \<times> string" where
  "digits_loop [] val prev n lastc = (val, prev, n, lastc, [])"
| "digits_loop (c # p) val prev n lastc =
     (if is_digit c then digits_loop p (val * 10 + of_nat (digit_value c)) val (Suc n) c
      else (val, prev, n, lastc, c # p))"

definition parse_nonnegative_int :: "string \<Rightarrow> int \<Rightarrow> int \<times> string" where
  "parse_nonnegative_int p error_value =
     (case digits_loop p 0 0 0 (CHR ''0'') of (val, prev, num_digits, lastc, rest) \<Rightarrow>
      let digits10 = 32 * 3 div 10;
          max_int = (of_int INT_MAX :: 64 word);
          fits = num_digits = digits10 + 1 \<and>
            ucast prev * 10 + of_nat (digit_value lastc) \<le> max_int
      in (if num_digits \<le> digits10 then sint val
          else if fits then sint val else error_value, rest))"

section \<open>Alignment and code points\<close>

definition parse_align :: "char \<Rightarrow> align_t" where
  "parse_align c =
     (if c = CHR ''<'' then align_left else if c = CHR ''>'' then align_right
      else if c = CHR ''^'' then align_center else align_none)"

definition code_point_length :: "char \<Rightarrow> nat" where
  "code_point_length c =
     unat (drop_bit (2 * drop_bit 3 (code c)) (0x3a55000000000000 :: 64 word) AND 0x3) + 1"

section \<open>Argument ids\<close>

text \<open>What is done with an argument id, on a state of type \<open>'s\<close>.\<close>

record 's id_handler =
  on_auto :: "'s \<Rightarrow> string + 's"
  on_index :: "int \<Rightarrow> 's \<Rightarrow> string + 's"
  on_name :: "string \<Rightarrow> 's \<Rightarrow> string + 's"

definition is_name_char :: "char \<Rightarrow> bool" where
  "is_name_char c \<longleftrightarrow> is_name_start c \<or> is_digit c"

text \<open>The argument \<open>begin\<close> is not empty at any call.\<close>

definition do_parse_arg_id ::
  "string \<Rightarrow> 's id_handler \<Rightarrow> 's \<Rightarrow> string + (string \<times> 's)" where
  "do_parse_arg_id begn handler s =
     (let c = hd begn in
      if is_digit c then
        (case (if c \<noteq> CHR ''0'' then parse_nonnegative_int begn INT_MAX else (0, tl begn)) of
           (index, begn') \<Rightarrow>
             if begn' = [] \<or> hd begn' \<noteq> CHR ''}'' \<and> hd begn' \<noteq> CHR '':''
             then Inl ''invalid format string''
             else bind_sum (on_index handler index s) (\<lambda>s'. Inr (begn', s')))
      else if \<not> is_name_start c then Inl ''invalid format string''
      else
        let name = c # takeWhile is_name_char (tl begn);
            it = dropWhile is_name_char (tl begn) in
        bind_sum (on_name handler name s) (\<lambda>s'. Inr (it, s')))"

definition parse_arg_id ::
  "string \<Rightarrow> 's id_handler \<Rightarrow> 's \<Rightarrow> string + (string \<times> 's)" where
  "parse_arg_id begn handler s =
     (let c = hd begn in
      if c \<noteq> CHR ''}'' \<and> c \<noteq> CHR '':'' then do_parse_arg_id begn handler s
      else bind_sum (on_auto handler s) (\<lambda>s'. Inr (begn, s')))"

section \<open>Dynamic width and precision\<close>

definition dynamic_spec_id_handler :: "(parse_context \<times> arg_ref) id_handler" where
  "dynamic_spec_id_handler = \<lparr>
     on_auto = (\<lambda>(ctx, ref).
       bind_sum (next_arg_id ctx) (\<lambda>(i, ctx1).
       bind_sum (check_dynamic_spec i ctx1) (\<lambda>ctx2. Inr (ctx2, ref_index i)))),
     on_index = (\<lambda>i (ctx, ref).
       bind_sum (check_arg_id i ctx) (\<lambda>ctx1.
       bind_sum (check_dynamic_spec i ctx1) (\<lambda>ctx2. Inr (ctx2, ref_index i)))),
     on_name = (\<lambda>name (ctx, ref).
       bind_sum (check_arg_name name ctx) (\<lambda>ctx1. Inr (ctx1, ref_name name)))\<rparr>"

text \<open>The results are what is left, the new value, reference and context.\<close>

definition parse_dynamic_spec ::
  "string \<Rightarrow> int \<Rightarrow> arg_ref \<Rightarrow> parse_context \<Rightarrow>
   string + (string \<times> int \<times> arg_ref \<times> parse_context)" where
  "parse_dynamic_spec begn val ref ctx =
     (if is_digit (hd begn) then
        (case parse_nonnegative_int begn (-1) of (v, begn') \<Rightarrow>
           if v \<noteq> -1 then Inr (begn', v, ref, ctx) else Inl ''number is too big'')
      else if hd begn = CHR ''{'' then
        bind_sum
          (if tl begn \<noteq> [] then parse_arg_id (tl begn) dynamic_spec_id_handler (ctx, ref)
           else Inr (tl begn, (ctx, ref)))
          (\<lambda>(begn', (ctx', ref')).
            if begn' \<noteq> [] \<and> hd begn' = CHR ''}'' then Inr (tl begn', val, ref', ctx')
            else Inl ''invalid format string'')
      else Inr (begn, val, ref, ctx))"

definition parse_precision ::
  "string \<Rightarrow> int \<Rightarrow> arg_ref \<Rightarrow> parse_context \<Rightarrow>
   string + (string \<times> int \<times> arg_ref \<times> parse_context)" where
  "parse_precision begn val ref ctx =
     (let begn' = tl begn in
      if begn' = [] \<or> hd begn' = CHR ''}'' then Inl ''invalid precision''
      else parse_dynamic_spec begn' val ref ctx)"

section \<open>Numbers are read as decimal numbers\<close>

text \<open>The specification: the value of a list of digits, most significant first.\<close>

definition decimal :: "string \<Rightarrow> nat" where
  "decimal ds = foldl (\<lambda>v c. v * 10 + digit_value c) 0 ds"

lemma decimal_snoc [simp]: "decimal (ds @ [c]) = decimal ds * 10 + digit_value c"
  and decimal_Nil [simp]: "decimal [] = 0"
  by (simp_all add: decimal_def)

lemma digit_value_less: "is_digit c \<Longrightarrow> digit_value c < 10"
  by (auto simp: is_digit_def digit_value_def)

lemma decimal_less: "\<forall>c \<in> set ds. is_digit c \<Longrightarrow> decimal ds < 10 ^ length ds"
proof (induction ds rule: rev_induct)
  case (snoc c ds)
  then have "decimal ds < 10 ^ length ds" "digit_value c < 10" by (auto simp: digit_value_less)
  then show ?case by simp
qed simp

lemma digits_loop_decimal:
  assumes "\<forall>c \<in> set ds. is_digit c" "rest = [] \<or> \<not> is_digit (hd rest)" "ds \<noteq> []"
  shows "digits_loop (ds @ rest) (of_nat (decimal pre)) q n l =
    (of_nat (decimal (pre @ ds)), of_nat (decimal (pre @ butlast ds)), n + length ds, last ds, rest)"
  using assms(1,3)
proof (induction ds arbitrary: pre q n l)
  case (Cons c ds)
  show ?case
  proof (cases ds)
    case Nil
    have "digits_loop rest v p m l' = (v, p, m, l', rest)" for v p m l'
      using assms(2) by (cases rest) auto
    then show ?thesis using Cons.prems Nil by simp
  next
    case (Cons c' ds')
    have "digits_loop (ds @ rest) (of_nat (decimal (pre @ [c]))) (of_nat (decimal pre)) (Suc n) c =
        (of_nat (decimal ((pre @ [c]) @ ds)), of_nat (decimal ((pre @ [c]) @ butlast ds)),
         Suc n + length ds, last ds, rest)"
      using Cons Cons.prems by (intro Cons.IH) auto
    then show ?thesis using Cons Cons.prems by simp
  qed
qed simp

text \<open>
  \<open>parse_nonnegative_int\<close> reads all leading digits. The result is their decimal value if
  there are at most ten of them and it is at most \<open>INT_MAX\<close>, and the error value
  otherwise; the wrap-around of the 32-bit accumulator never shows. Leading zeros count
  as digits.
\<close>

lemma parse_nonnegative_int_decimal:
  assumes "\<forall>c \<in> set ds. is_digit c" "ds \<noteq> []" "rest = [] \<or> \<not> is_digit (hd rest)"
  shows "parse_nonnegative_int (ds @ rest) e =
    (if length ds \<le> 10 \<and> int (decimal ds) \<le> INT_MAX then int (decimal ds) else e, rest)"
proof -
  have loop: "digits_loop (ds @ rest) 0 0 0 (CHR ''0'') =
      (of_nat (decimal ds), of_nat (decimal (butlast ds)), length ds, last ds, rest)"
    using digits_loop_decimal [OF assms(1,3,2), of "[]" 0 0 "CHR ''0''"] by simp
  have dec: "decimal ds = decimal (butlast ds) * 10 + digit_value (last ds)"
    using assms(2) by (metis append_butlast_last_id decimal_snoc)
  have small: "sint (of_nat v :: 32 word) = int v" if "int v \<le> INT_MAX" for v
    using that by (simp add: INT_MAX_def signed_of_nat signed_take_bit_int_eq_self)
  show ?thesis
  proof (cases "length ds \<le> 9")
    case True
    have "decimal ds < 10 ^ 9"
      using decimal_less [OF assms(1)] True power_increasing [of "length ds" 9 "10 :: nat"] by simp
    then show ?thesis
      using True small [of "decimal ds"] by (simp add: parse_nonnegative_int_def loop INT_MAX_def)
  next
    case False
    show ?thesis
    proof (cases "length ds = 10")
      case True
      have "decimal (butlast ds) < 10 ^ 9"
        using decimal_less [of "butlast ds"] assms(1) True
        by (auto dest: in_set_butlastD)
      moreover have "digit_value (last ds) < 10" using assms(1,2) by (simp add: digit_value_less)
      ultimately have bound: "decimal ds < 10 ^ 10"
        "(ucast (of_nat (decimal (butlast ds)) :: 32 word) :: 64 word) =
          of_nat (decimal (butlast ds))"
        unfolding dec by (simp_all add: unsigned_of_nat take_bit_nat_eq_self)
      have "(ucast (of_nat (decimal (butlast ds)) :: 32 word) * 10 +
          of_nat (digit_value (last ds)) :: 64 word) = of_nat (decimal ds)"
        unfolding bound(2) dec by simp
      moreover have "of_nat (decimal ds) \<le> (of_int INT_MAX :: 64 word) \<longleftrightarrow>
          int (decimal ds) \<le> INT_MAX"
        using bound(1) by (simp add: word_le_nat_alt unat_of_nat INT_MAX_def)
      ultimately have "(ucast (of_nat (decimal (butlast ds)) :: 32 word) * 10 +
          of_nat (digit_value (last ds)) \<le> (of_int INT_MAX :: 64 word)) \<longleftrightarrow>
          int (decimal ds) \<le> INT_MAX" by (simp only:)
      then show ?thesis
        using True small [of "decimal ds"] by (simp add: parse_nonnegative_int_def loop Let_def)
    next
      case False
      with \<open>\<not> length ds \<le> 9\<close> show ?thesis by (simp add: parse_nonnegative_int_def loop)
    qed
  qed
qed

text \<open>
  \<open>parse_nonnegative_int\<close> reads exactly the leading digits. The result is their decimal
  value if there are at most ten of them and the value is at most \<open>INT_MAX\<close>, and the
  error value otherwise; the wrap-around of the 32-bit accumulator never shows. (Leading
  zeros count as digits.)
\<close>

theorem parse_nonnegative_int_spec:
  assumes "p \<noteq> []" "is_digit (hd p)"
  shows "parse_nonnegative_int p e =
    (if length (takeWhile is_digit p) \<le> 10 \<and> int (decimal (takeWhile is_digit p)) \<le> INT_MAX
     then int (decimal (takeWhile is_digit p)) else e, dropWhile is_digit p)"
proof -
  have "takeWhile is_digit p \<noteq> []" using assms by (cases p) auto
  moreover have "dropWhile is_digit p = [] \<or> \<not> is_digit (hd (dropWhile is_digit p))"
    using hd_dropWhile by blast
  ultimately show ?thesis
    using parse_nonnegative_int_decimal [of "takeWhile is_digit p" "dropWhile is_digit p" e]
    by (metis set_takeWhileD takeWhile_dropWhile_id)
qed

theorem parse_nonnegative_int_spec_witness:
  "parse_nonnegative_int ''2147483647}'' (-1) = (2147483647, ''}'') \<and>
   parse_nonnegative_int ''4294967297}'' (-1) = (-1, ''}'') \<and>
   parse_nonnegative_int ''00000000001}'' (-1) = (-1, ''}'')"
  using parse_nonnegative_int_spec [of "''2147483647}''" "-1"]
    parse_nonnegative_int_spec [of "''4294967297}''" "-1"]
    parse_nonnegative_int_spec [of "''00000000001}''" "-1"]
  by (simp add: is_digit_def code_def decimal_def digit_value_def INT_MAX_def)

text \<open>
  The table packed into the constant of \<open>code_point_length\<close> gives the length of a
  UTF-8 sequence by its lead byte: 1 for ASCII, 2, 3 and 4 for the three kinds of lead
  bytes, and 1 for bytes that cannot start a sequence.
\<close>

lemma code_point_length_utf8:
  "code_point_length c =
     (if code c < 0xC0 then 1 else if code c < 0xE0 then 2 else if code c < 0xF0 then 3
      else if code c < 0xF8 then 4 else 1)"
proof -
  let ?len = "\<lambda>k :: nat. if k < 24 then 1 else if k < 28 then 2
     else if k < 30 then 3 else if k < 31 then 4 else 1 :: nat"
  have "list_all (\<lambda>k. unat (drop_bit (2 * k) (0x3a55000000000000 :: 64 word) AND 0x3) + 1 = ?len k)
      [0..<32]"
    by code_simp
  moreover have "code c div 8 < 32" using code_less [of c] by linarith
  ultimately have "unat (drop_bit (2 * (code c div 8)) (0x3a55000000000000 :: 64 word) AND 0x3) + 1 =
      ?len (code c div 8)"
    by (auto simp: list_all_iff)
  moreover have "drop_bit 3 (code c) = code c div 8" by (simp add: drop_bit_eq_div)
  ultimately show ?thesis
    using code_less [of c] by (auto simp: code_point_length_def)
qed

section \<open>Parsers leave a shorter rest\<close>

lemma parse_nonnegative_int_rest:
  assumes "p \<noteq> []" "is_digit (hd p)"
  shows "snd (parse_nonnegative_int p e) = dropWhile is_digit p"
proof -
  have "takeWhile is_digit p \<noteq> []" using assms by (cases p) auto
  moreover have "dropWhile is_digit p = [] \<or> \<not> is_digit (hd (dropWhile is_digit p))"
    using hd_dropWhile by blast
  ultimately show ?thesis
    using parse_nonnegative_int_decimal [of "takeWhile is_digit p" "dropWhile is_digit p" e]
    by (metis set_takeWhileD takeWhile_dropWhile_id snd_conv)
qed

lemma parse_nonnegative_int_shorter:
  assumes "p \<noteq> []" "is_digit (hd p)" "parse_nonnegative_int p e = (v, p')"
  shows "length p' < length p"
proof -
  have "p' = dropWhile is_digit p" using parse_nonnegative_int_rest [OF assms(1,2), of e] assms(3) by simp
  then show ?thesis
    using assms(1,2) by (cases p) (simp_all add: le_imp_less_Suc length_dropWhile_le)
qed

lemma do_parse_arg_id_shorter:
  assumes "p \<noteq> []" "do_parse_arg_id p h s = Inr (p', s')"
  shows "length p' < length p"
proof (cases "is_digit (hd p)")
  case True
  show ?thesis
  proof (cases "hd p = CHR ''0''")
    case True
    then show ?thesis
      using assms \<open>is_digit (hd p)\<close>
      by (cases p) (auto simp: do_parse_arg_id_def Let_def split: if_splits)
  next
    case False
    obtain v q where "parse_nonnegative_int p INT_MAX = (v, q)" by fastforce
    moreover from this have "length q < length p"
      using parse_nonnegative_int_shorter [OF assms(1) True] by blast
    ultimately show ?thesis
      using assms(2) True False by (auto simp: do_parse_arg_id_def Let_def split: if_splits)
  qed
next
  case False
  then have "p' = dropWhile is_name_char (tl p)"
    using assms(2) by (auto simp: do_parse_arg_id_def Let_def split: if_splits)
  then show ?thesis
    using assms(1) length_dropWhile_le [of is_name_char "tl p"] by (cases p) auto
qed

lemma parse_arg_id_no_longer:
  assumes "p \<noteq> []" "parse_arg_id p h s = Inr (p', s')"
  shows "length p' \<le> length p"
  using do_parse_arg_id_shorter [OF assms(1), of h s p' s'] assms(2)
  by (auto simp: parse_arg_id_def Let_def split: if_splits)

lemma parse_dynamic_spec_shorter:
  assumes "p \<noteq> []" "parse_dynamic_spec p v r ctx = Inr (p', v', r', ctx')"
  shows "length p' \<le> length p"
    and "is_digit (hd p) \<or> hd p = CHR ''{'' \<Longrightarrow> length p' < length p"
proof -
  have "length p' < length p" if "is_digit (hd p)"
    using that assms(2) parse_nonnegative_int_shorter [OF assms(1) that]
    by (auto simp: parse_dynamic_spec_def split: if_splits prod.splits)
  moreover have "length p' < length p" if d: "\<not> is_digit (hd p)" and b: "hd p = CHR ''{''"
  proof -
    obtain q where q: "parse_arg_id (tl p) dynamic_spec_id_handler (ctx, r) = Inr (q, ctx', r')"
      "tl p \<noteq> []" "q \<noteq> []" "p' = tl q"
      using d b assms(2) by (auto simp: parse_dynamic_spec_def split: if_splits)
    have "length q \<le> length (tl p)" by (rule parse_arg_id_no_longer [OF q(2,1)])
    with q(3,4) show ?thesis using assms(1) by (cases p; cases q) auto
  qed
  moreover have "p' = p" if "\<not> is_digit (hd p)" "hd p \<noteq> CHR ''{''"
    using that assms(2) by (simp add: parse_dynamic_spec_def)
  ultimately show "length p' \<le> length p"
    and "is_digit (hd p) \<or> hd p = CHR ''{'' \<Longrightarrow> length p' < length p"
    by (metis order.refl less_imp_le)+
qed

lemma parse_precision_shorter:
  assumes "p \<noteq> []" "parse_precision p v r ctx = Inr (p', v', r', ctx')"
  shows "length p' < length p"
proof -
  have "tl p \<noteq> []" "parse_dynamic_spec (tl p) v r ctx = Inr (p', v', r', ctx')"
    using assms(2) by (auto simp: parse_precision_def Let_def split: if_splits)
  then show ?thesis
    using parse_dynamic_spec_shorter(1) [of "tl p"] assms(1) by (cases p) fastforce+
qed

section \<open>The grammar of argument ids\<close>

text \<open>The argument ids of a replacement field, as they are written.\<close>

datatype arg_id = Auto | Index string | Name string

fun print_id :: "arg_id \<Rightarrow> string" where
  "print_id Auto = []"
| "print_id (Index ds) = ds"
| "print_id (Name n) = n"

definition number_literal :: "string \<Rightarrow> bool" where
  "number_literal ds \<longleftrightarrow>
     ds \<noteq> [] \<and> (\<forall>c \<in> set ds. is_digit c) \<and> length ds \<le> 10 \<and> int (decimal ds) \<le> INT_MAX"

fun valid_id :: "arg_id \<Rightarrow> bool" where
  "valid_id Auto \<longleftrightarrow> True"
| "valid_id (Index ds) \<longleftrightarrow> ds = ''0'' \<or> number_literal ds \<and> hd ds \<noteq> CHR ''0''"
| "valid_id (Name n) \<longleftrightarrow> n \<noteq> [] \<and> is_name_start (hd n) \<and> (\<forall>c \<in> set n. is_name_char c)"

fun act_on_id :: "arg_id \<Rightarrow> 's id_handler \<Rightarrow> 's \<Rightarrow> string + 's" where
  "act_on_id Auto h s = on_auto h s"
| "act_on_id (Index ds) h s = on_index h (int (decimal ds)) s"
| "act_on_id (Name n) h s = on_name h n s"

lemma is_digit_literals [simp]:
  "is_digit (CHR ''0'')" "\<not> is_digit (CHR ''}'')" "\<not> is_digit (CHR '':'')" "\<not> is_digit (CHR ''{'')"
  "\<not> is_digit (CHR ''<'')" "\<not> is_digit (CHR ''>'')" "\<not> is_digit (CHR ''^'')"
  "\<not> is_digit (CHR ''+'')" "\<not> is_digit (CHR ''-'')" "\<not> is_digit (CHR '' '')"
  "\<not> is_digit (CHR ''#'')" "\<not> is_digit (CHR ''.'')" "\<not> is_digit (CHR ''L'')"
  by (simp_all add: is_digit_def code_def)

lemma is_name_char_literals [simp]:
  "\<not> is_name_char (CHR ''}'')" "\<not> is_name_char (CHR '':'')"
  "\<not> is_name_start (CHR ''}'')" "\<not> is_name_start (CHR '':'')"
  by (simp_all add: is_name_char_def is_name_start_def is_digit_def code_def)

lemma digit_not_special:
  "is_digit c \<Longrightarrow> c \<noteq> CHR ''}'' \<and> c \<noteq> CHR '':'' \<and> c \<noteq> CHR ''{''"
  by (auto simp: is_digit_def code_def)

lemma name_start_not_digit: "is_name_start c \<Longrightarrow> \<not> is_digit c"
  by (auto simp: is_name_start_def is_digit_def code_def)

lemma decimal_0 [simp]: "decimal ''0'' = 0"
  by (simp add: decimal_def digit_value_def code_def)

lemma parse_number_literal:
  "number_literal ds \<Longrightarrow> rest = [] \<or> \<not> is_digit (hd rest) \<Longrightarrow>
   parse_nonnegative_int (ds @ rest) e = (int (decimal ds), rest)"
  by (simp add: number_literal_def parse_nonnegative_int_decimal)

lemma parse_arg_id_valid:
  assumes "valid_id i" "x = CHR ''}'' \<or> x = CHR '':''"
  shows "parse_arg_id (print_id i @ x # r) h s = bind_sum (act_on_id i h s) (\<lambda>s'. Inr (x # r, s'))"
proof (cases i)
  case Auto
  then show ?thesis using assms(2) by (auto simp: parse_arg_id_def)
next
  case (Index ds)
  then have ds: "ds \<noteq> []" "is_digit (hd ds)"
    using assms(1) by (auto simp: number_literal_def)
  have hd: "hd (ds @ x # r) = hd ds" using ds(1) by simp
  have not: "hd ds \<noteq> CHR ''}''" "hd ds \<noteq> CHR '':''" using digit_not_special [OF ds(2)] by auto
  show ?thesis
  proof (cases "ds = ''0''")
    case True
    then show ?thesis using Index assms(2) by (auto simp: parse_arg_id_def do_parse_arg_id_def)
  next
    case False
    then have lit: "number_literal ds" "hd ds \<noteq> CHR ''0''" using assms(1) Index by auto
    have "parse_nonnegative_int (ds @ x # r) INT_MAX = (int (decimal ds), x # r)"
      using assms(2) by (intro parse_number_literal [OF lit(1)]) auto
    then show ?thesis
      using Index assms(2) ds lit(2) not
      by (auto simp: parse_arg_id_def do_parse_arg_id_def hd Let_def)
  qed
next
  case (Name n)
  then obtain c n' where n: "n = c # n'" "is_name_start c" "\<forall>c \<in> set n'. is_name_char c"
    using assms(1) by (cases n) auto
  have "\<not> is_digit c" "c \<noteq> CHR ''}''" "c \<noteq> CHR '':''"
    using n(2) by (auto simp: name_start_not_digit)
  moreover have "takeWhile is_name_char (n' @ x # r) = n'" "dropWhile is_name_char (n' @ x # r) = x # r"
    using n(3) assms(2) by (auto simp: takeWhile_append2 dropWhile_append2)
  ultimately show ?thesis
    using Name n by (simp add: parse_arg_id_def do_parse_arg_id_def Let_def)
qed

end
