(* ===== verification/Fmt_Specs.thy ===== *)
theory Fmt_Specs
  imports Fmt_Parse
begin

text \<open>
  \<open>parse_format_specs\<close> of fmt/include/fmt/base.h: the state machine that reads
  \<open>[[fill]align][sign][#][0][width][.precision][L][type]\<close>.
\<close>

section \<open>The state machine\<close>

datatype spec_state = st_start | st_align | st_sign | st_hash | st_zero | st_width
  | st_precision | st_locale

primrec state_index :: "spec_state \<Rightarrow> nat" where
  "state_index st_start = 0"
| "state_index st_align = 1"
| "state_index st_sign = 2"
| "state_index st_hash = 3"
| "state_index st_zero = 4"
| "state_index st_width = 5"
| "state_index st_precision = 6"
| "state_index st_locale = 7"

definition enter_state :: "spec_state \<Rightarrow> spec_state \<Rightarrow> bool \<Rightarrow> string + spec_state" where
  "enter_state current s valid =
     (if state_index current \<ge> state_index s \<or> \<not> valid then Inl ''invalid format specifier''
      else Inr s)"

text \<open>How one turn of the loop ends: with a \<open>return\<close> of the pointer, or at the next character.\<close>

datatype turn = Returns | Loops

type_synonym spec_result = "string + (turn \<times> string \<times> spec_state \<times> dynamic_format_specs \<times> parse_context)"

definition parse_presentation_type ::
  "arg_type \<Rightarrow> presentation_type \<Rightarrow> int \<Rightarrow> string \<Rightarrow> spec_state \<Rightarrow> dynamic_format_specs \<Rightarrow>
   parse_context \<Rightarrow> spec_result" where
  "parse_presentation_type t p s begn cur specs ctx =
     (if \<not> in_set t s then
        if t = none_type then Inr (Returns, begn, cur, specs, ctx)
        else Inl ''invalid format specifier''
      else Inr (Returns, tl begn, cur, specs\<lparr>pres := p\<rparr>, ctx))"

definition spec_default ::
  "string \<Rightarrow> spec_state \<Rightarrow> dynamic_format_specs \<Rightarrow> parse_context \<Rightarrow> spec_result" where
  "spec_default begn cur specs ctx =
     (if hd begn = CHR ''}'' then Inr (Returns, begn, cur, specs, ctx)
      else
        let n = code_point_length (hd begn) in
        if length begn \<le> n then Inl ''invalid format specifier''
        else if hd begn = CHR ''{'' then Inl (''invalid fill character '' @ [CHR 0x27, CHR ''{'', CHR 0x27])
        else
          let al = parse_align (begn ! n) in
          bind_sum (enter_state cur st_align (al \<noteq> align_none)) (\<lambda>cur'.
            Inr (Loops, drop (n + 1) begn, cur', specs\<lparr>fill := take n begn, align := al\<rparr>, ctx)))"

definition spec_switch ::
  "arg_type \<Rightarrow> char \<Rightarrow> string \<Rightarrow> spec_state \<Rightarrow> dynamic_format_specs \<Rightarrow> parse_context \<Rightarrow>
   spec_result" where
  "spec_switch t c begn cur specs ctx =
     (let pt = parse_presentation_type t;
          up = specs\<lparr>upper := True\<rparr> in
      if c \<in> {CHR ''<'', CHR ''>'', CHR ''^''} then
        bind_sum (enter_state cur st_align True) (\<lambda>cur'.
          Inr (Loops, tl begn, cur', specs\<lparr>align := parse_align c\<rparr>, ctx))
      else if c \<in> {CHR ''+'', CHR ''-'', CHR '' ''} then
        if t = none_type then Inr (Returns, begn, cur, specs, ctx)
        else bind_sum (enter_state cur st_sign (in_set t (sint_set OR float_set))) (\<lambda>cur'.
          Inr (Loops, tl begn, cur', specs\<lparr>sign := (if c = CHR ''+'' then sign_plus
            else if c = CHR ''-'' then sign_minus else sign_space)\<rparr>, ctx))
      else if c = CHR ''#'' then
        if t = none_type then Inr (Returns, begn, cur, specs, ctx)
        else bind_sum (enter_state cur st_hash (is_arithmetic_type t)) (\<lambda>cur'.
          Inr (Loops, tl begn, cur', specs\<lparr>alt := True\<rparr>, ctx))
      else if c = CHR ''0'' then
        bind_sum (enter_state cur st_zero True) (\<lambda>cur'.
          if \<not> is_arithmetic_type t \<and> t = none_type then Inr (Returns, begn, cur', specs, ctx)
          else if \<not> is_arithmetic_type t then Inl ''format specifier requires numeric argument''
          else Inr (Loops, tl begn, cur',
            (if align specs = align_none then specs\<lparr>align := align_numeric, fill := ''0''\<rparr>
             else specs), ctx))
      else if is_digit c \<or> c = CHR ''{'' then
        bind_sum (enter_state cur st_width True) (\<lambda>cur'.
        bind_sum (parse_dynamic_spec begn (width specs) (width_ref specs) ctx) (\<lambda>(begn', v, r, ctx').
          Inr (Loops, begn', cur', specs\<lparr>width := v, width_ref := r\<rparr>, ctx')))
      else if c = CHR ''.'' then
        if t = none_type then Inr (Returns, begn, cur, specs, ctx)
        else bind_sum (enter_state cur st_precision
                         (in_set t (float_set OR string_set OR cstring_set))) (\<lambda>cur'.
          bind_sum (parse_precision begn (precision specs) (precision_ref specs) ctx)
            (\<lambda>(begn', v, r, ctx').
              Inr (Loops, begn', cur', specs\<lparr>precision := v, precision_ref := r\<rparr>, ctx')))
      else if c = CHR ''L'' then
        if t = none_type then Inr (Returns, begn, cur, specs, ctx)
        else bind_sum (enter_state cur st_locale (is_arithmetic_type t)) (\<lambda>cur'.
          Inr (Loops, tl begn, cur', specs\<lparr>localized := True\<rparr>, ctx))
      else if c = CHR ''d'' then pt pres_dec integral_set begn cur specs ctx
      else if c = CHR ''X'' then pt pres_hex integral_set begn cur up ctx
      else if c = CHR ''x'' then pt pres_hex integral_set begn cur specs ctx
      else if c = CHR ''o'' then pt pres_oct integral_set begn cur specs ctx
      else if c = CHR ''B'' then pt pres_bin integral_set begn cur up ctx
      else if c = CHR ''b'' then pt pres_bin integral_set begn cur specs ctx
      else if c = CHR ''E'' then pt pres_exp float_set begn cur up ctx
      else if c = CHR ''e'' then pt pres_exp float_set begn cur specs ctx
      else if c = CHR ''F'' then pt pres_fixed float_set begn cur up ctx
      else if c = CHR ''f'' then pt pres_fixed float_set begn cur specs ctx
      else if c = CHR ''G'' then pt pres_general float_set begn cur up ctx
      else if c = CHR ''g'' then pt pres_general float_set begn cur specs ctx
      else if c = CHR ''A'' then pt pres_hexfloat float_set begn cur up ctx
      else if c = CHR ''a'' then pt pres_hexfloat float_set begn cur specs ctx
      else if c = CHR ''c'' then
        if t = bool_type then Inl ''invalid format specifier''
        else pt pres_chr integral_set begn cur specs ctx
      else if c = CHR ''s'' then
        pt pres_string (bool_set OR string_set OR cstring_set) begn cur specs ctx
      else if c = CHR ''p'' then pt pres_pointer (pointer_set OR cstring_set) begn cur specs ctx
      else if c = CHR ''?'' then
        pt pres_debug (char_set OR string_set OR cstring_set) begn cur specs ctx
      else if c = CHR ''}'' then Inr (Returns, begn, cur, specs, ctx)
      else spec_default begn cur specs ctx)"

text \<open>
  The loop. \<open>c\<close> is the character at \<open>begin\<close>, except that a first character followed by an
  alignment is masked by the null character (\<open>masked\<close>), which leads to \<open>default\<close>.
\<close>

lemma bind_sum_cong [fundef_cong]:
  "m = n \<Longrightarrow> (\<And>x. n = Inr x \<Longrightarrow> f x = g x) \<Longrightarrow> bind_sum m f = bind_sum n g"
  by (cases n) auto

lemma spec_default_shorter:
  assumes "spec_default begn cur specs ctx = Inr (Loops, begn', r)" "begn \<noteq> []"
  shows "length begn' < length begn"
  using assms by (cases begn) (auto simp: spec_default_def Let_def split: if_splits)

lemma presentation_returns:
  "parse_presentation_type t p s begn cur specs ctx = Inr (tn, r) \<Longrightarrow> tn = Returns"
  by (auto simp: parse_presentation_type_def split: if_splits)

definition masked_char :: "bool \<Rightarrow> string \<Rightarrow> char" where
  "masked_char masked begn = (if masked then char_of (0 :: nat) else hd begn)"

lemma not_digit_null [simp]: "\<not> is_digit (char_of (0 :: nat))" "char_of (0 :: nat) \<noteq> CHR ''{''"
  by (simp_all add: is_digit_def code_def flip: of_char_eq_iff [where 'a = nat])

lemma spec_switch_shorter:
  assumes "spec_switch t (masked_char masked begn) begn cur specs ctx = Inr (Loops, begn', r)"
    and "begn \<noteq> []"
  shows "length begn' < length begn"
proof -
  have tl: "length (tl begn) < length begn" using assms(2) by simp
  have width: "length q < length begn"
    if "parse_dynamic_spec begn v rf ctx = Inr (q, v', r', ctx')"
      "is_digit (masked_char masked begn) \<or> masked_char masked begn = CHR ''{''" for q v v' rf r' ctx'
    using parse_dynamic_spec_shorter(2) [OF assms(2) that(1)] that(2)
    by (auto simp: masked_char_def split: if_splits)
  note steps = tl width parse_precision_shorter [OF assms(2)] spec_default_shorter [OF _ assms(2)]
  note loops = presentation_returns [of t _ _ _ _ _ _ Loops]
  show ?thesis
    using assms(1) unfolding spec_switch_def Let_def
    by (auto split: if_splits dest!: loops intro: steps)
qed

function specs_loop ::
  "arg_type \<Rightarrow> bool \<Rightarrow> string \<Rightarrow> spec_state \<Rightarrow> dynamic_format_specs \<Rightarrow> parse_context \<Rightarrow>
   string + (string \<times> dynamic_format_specs \<times> parse_context)" where
  "specs_loop t masked begn cur specs ctx =
     (if begn = [] then Inr (begn, specs, ctx)
      else
        bind_sum (spec_switch t (masked_char masked begn) begn cur specs ctx)
          (\<lambda>(tn, begn', cur', specs', ctx').
             if tn = Returns then Inr (begn', specs', ctx')
             else specs_loop t False begn' cur' specs' ctx'))"
  by pat_completeness auto
termination
proof (relation "measure (\<lambda>(t, masked, begn, _). length begn)", goal_cases)
  case (2 t masked begn cur specs ctx x tn y begn' z cur' w specs' ctx')
  then have "tn = Loops" by (cases tn) simp_all
  with 2 show ?case by (auto intro: spec_switch_shorter)
qed simp

declare specs_loop.simps [simp del]

definition parse_format_specs ::
  "string \<Rightarrow> dynamic_format_specs \<Rightarrow> parse_context \<Rightarrow> arg_type \<Rightarrow>
   string + (string \<times> dynamic_format_specs \<times> parse_context)" where
  "parse_format_specs begn specs ctx t =
     (if length begn > 1
      then specs_loop t (parse_align (begn ! 1) \<noteq> align_none) begn st_start specs ctx
      else specs_loop t False begn st_start specs ctx)"

section \<open>The grammar\<close>

text \<open>A format specification as it is written, by the parts of the grammar.\<close>

datatype count = NoCount | Lit string | Dyn arg_id

record spec_syntax =
  s_align :: "(string \<times> char) option"   \<comment> \<open>fill (perhaps empty) and alignment\<close>
  s_sign :: "char option"
  s_alt :: bool
  s_zero :: bool
  s_width :: count
  s_precision :: count
  s_locale :: bool
  s_type :: "char option"

fun print_count :: "count \<Rightarrow> string" where
  "print_count NoCount = []"
| "print_count (Lit ds) = ds"
| "print_count (Dyn i) = CHR ''{'' # print_id i @ ''}''"

definition print_opt :: "char option \<Rightarrow> string" where
  "print_opt x = (case x of None \<Rightarrow> [] | Some c \<Rightarrow> [c])"

definition print_align :: "spec_syntax \<Rightarrow> string" where
  "print_align y = (case s_align y of None \<Rightarrow> [] | Some (f, a) \<Rightarrow> f @ [a])"

definition print_precision :: "count \<Rightarrow> string" where
  "print_precision n = (if n = NoCount then [] else CHR ''.'' # print_count n)"

definition print_tail :: "spec_syntax \<Rightarrow> string" where
  "print_tail y = print_opt (s_sign y) @ (if s_alt y then ''#'' else []) @
     (if s_zero y then ''0'' else []) @ print_count (s_width y) @
     print_precision (s_precision y) @ (if s_locale y then ''L'' else []) @ print_opt (s_type y)"

definition print_spec :: "spec_syntax \<Rightarrow> string" where
  "print_spec y = print_align y @ print_tail y"

text \<open>The type characters: presentation, the argument types they suit, upper case.\<close>

definition type_table :: "(char \<times> presentation_type \<times> int \<times> bool) list" where
  "type_table =
     [(CHR ''d'', pres_dec, integral_set, False), (CHR ''x'', pres_hex, integral_set, False),
      (CHR ''X'', pres_hex, integral_set, True), (CHR ''o'', pres_oct, integral_set, False),
      (CHR ''b'', pres_bin, integral_set, False), (CHR ''B'', pres_bin, integral_set, True),
      (CHR ''e'', pres_exp, float_set, False), (CHR ''E'', pres_exp, float_set, True),
      (CHR ''f'', pres_fixed, float_set, False), (CHR ''F'', pres_fixed, float_set, True),
      (CHR ''g'', pres_general, float_set, False), (CHR ''G'', pres_general, float_set, True),
      (CHR ''a'', pres_hexfloat, float_set, False), (CHR ''A'', pres_hexfloat, float_set, True),
      (CHR ''c'', pres_chr, integral_set, False),
      (CHR ''s'', pres_string, bool_set OR string_set OR cstring_set, False),
      (CHR ''p'', pres_pointer, pointer_set OR cstring_set, False),
      (CHR ''?'', pres_debug, char_set OR string_set OR cstring_set, False)]"

text \<open>Which specifications are valid for an argument of type \<open>t\<close>.\<close>

fun valid_count :: "count \<Rightarrow> bool" where
  "valid_count NoCount \<longleftrightarrow> True"
| "valid_count (Lit ds) \<longleftrightarrow> number_literal ds"
| "valid_count (Dyn i) \<longleftrightarrow> valid_id i"

definition valid_fill :: "string \<Rightarrow> bool" where
  "valid_fill f \<longleftrightarrow> f = [] \<or>
     length f = code_point_length (hd f) \<and> hd f \<notin> {CHR ''{'', CHR ''}''} \<and>
     (length f > 1 \<longrightarrow> parse_align (f ! 1) = align_none)"

definition valid_spec :: "arg_type \<Rightarrow> spec_syntax \<Rightarrow> bool" where
  "valid_spec t y \<longleftrightarrow> t \<noteq> none_type \<and>
     (case s_align y of None \<Rightarrow> True | Some (f, a) \<Rightarrow> valid_fill f \<and> parse_align a \<noteq> align_none) \<and>
     (case s_sign y of None \<Rightarrow> True
      | Some c \<Rightarrow> c \<in> {CHR ''+'', CHR ''-'', CHR '' ''} \<and> in_set t (sint_set OR float_set)) \<and>
     (s_alt y \<or> s_zero y \<or> s_locale y \<longrightarrow> is_arithmetic_type t) \<and>
     valid_count (s_width y) \<and> (\<forall>ds. s_width y = Lit ds \<longrightarrow> hd ds \<noteq> CHR ''0'') \<and>
     valid_count (s_precision y) \<and>
     (s_precision y \<noteq> NoCount \<longrightarrow> in_set t (float_set OR string_set OR cstring_set)) \<and>
     (case s_type y of None \<Rightarrow> True
      | Some c \<Rightarrow> (\<exists>p st u. (c, p, st, u) \<in> set type_table \<and> in_set t st) \<and>
          (c = CHR ''c'' \<longrightarrow> t \<noteq> bool_type))"

text \<open>
  What a specification means: the settings, and for a dynamic width or precision the
  argument reference, which moves or fixes the argument counter of the context.
\<close>

fun count_meaning :: "count \<Rightarrow> int \<Rightarrow> arg_ref \<Rightarrow> parse_context \<Rightarrow> string + (int \<times> arg_ref \<times> parse_context)" where
  "count_meaning NoCount v r ctx = Inr (v, r, ctx)"
| "count_meaning (Lit ds) v r ctx = Inr (int (decimal ds), r, ctx)"
| "count_meaning (Dyn i) v r ctx =
     bind_sum (act_on_id i dynamic_spec_id_handler (ctx, r)) (\<lambda>(ctx', r'). Inr (v, r', ctx'))"

definition align_meaning :: "spec_syntax \<Rightarrow> dynamic_format_specs \<Rightarrow> dynamic_format_specs" where
  "align_meaning y sp = (case s_align y of None \<Rightarrow> sp
     | Some (f, a) \<Rightarrow> (if f = [] then sp else sp\<lparr>fill := f\<rparr>)\<lparr>align := parse_align a\<rparr>)"

definition sign_meaning :: "spec_syntax \<Rightarrow> dynamic_format_specs \<Rightarrow> dynamic_format_specs" where
  "sign_meaning y sp = (case s_sign y of None \<Rightarrow> sp
     | Some c \<Rightarrow> sp\<lparr>sign := (if c = CHR ''+'' then sign_plus
         else if c = CHR ''-'' then sign_minus else sign_space)\<rparr>)"

definition zero_meaning :: "spec_syntax \<Rightarrow> dynamic_format_specs \<Rightarrow> dynamic_format_specs" where
  "zero_meaning y sp = (if s_zero y \<and> align sp = align_none
     then sp\<lparr>align := align_numeric, fill := ''0''\<rparr> else sp)"

definition type_meaning :: "spec_syntax \<Rightarrow> dynamic_format_specs \<Rightarrow> dynamic_format_specs" where
  "type_meaning y sp = (case s_type y of None \<Rightarrow> sp
     | Some c \<Rightarrow> (case map_of type_table c of None \<Rightarrow> sp
         | Some (p, _, u) \<Rightarrow> (if u then sp\<lparr>upper := True\<rparr> else sp)\<lparr>pres := p\<rparr>))"

definition spec_meaning ::
  "spec_syntax \<Rightarrow> dynamic_format_specs \<Rightarrow> parse_context \<Rightarrow>
   string + (dynamic_format_specs \<times> parse_context)" where
  "spec_meaning y sp ctx =
     (let sp1 = zero_meaning y ((\<lambda>x. if s_alt y then x\<lparr>alt := True\<rparr> else x)
            (sign_meaning y (align_meaning y sp))) in
      bind_sum (count_meaning (s_width y) (width sp1) (width_ref sp1) ctx) (\<lambda>(w, wr, ctx1).
      let sp2 = sp1\<lparr>width := w, width_ref := wr\<rparr> in
      bind_sum (count_meaning (s_precision y) (precision sp2) (precision_ref sp2) ctx1)
        (\<lambda>(p, pr, ctx2).
      let sp3 = sp2\<lparr>precision := p, precision_ref := pr\<rparr>;
          sp4 = (if s_locale y then sp3\<lparr>localized := True\<rparr> else sp3) in
      Inr (type_meaning y sp4, ctx2))))"

section \<open>The parser reads the grammar\<close>

lemma specs_loop_Nil [simp]: "specs_loop t m [] cur sp ctx = Inr ([], sp, ctx)"
  by (subst specs_loop.simps) simp

lemma specs_loop_Cons:
  "specs_loop t False (c # r) cur sp ctx =
     bind_sum (spec_switch t c (c # r) cur sp ctx) (\<lambda>(tn, begn', cur', sp', ctx').
       if tn = Returns then Inr (begn', sp', ctx') else specs_loop t False begn' cur' sp' ctx')"
  by (subst specs_loop.simps) (simp add: masked_char_def)

lemma enter_state_ok: "state_index cur < state_index s \<Longrightarrow> enter_state cur s True = Inr s"
  by (simp add: enter_state_def)

lemma loop_sign:
  assumes "state_index cur < 2" "valid_spec t y"
  shows "\<exists>cur'. state_index cur' < 3 \<and>
    specs_loop t False (print_opt (s_sign y) @ r) cur sp ctx =
      specs_loop t False r cur' (sign_meaning y sp) ctx"
proof (cases "s_sign y")
  case None
  then show ?thesis using assms(1)
    by (intro exI [of _ cur]) (simp add: print_opt_def sign_meaning_def)
next
  case (Some c)
  then have "c \<in> {CHR ''+'', CHR ''-'', CHR '' ''}" "t \<noteq> none_type"
    "in_set t (sint_set OR float_set) = True"
    using assms(2) by (auto simp: valid_spec_def)
  then show ?thesis using Some assms(1)
    by (intro exI [of _ st_sign])
      (auto simp: print_opt_def sign_meaning_def specs_loop_Cons spec_switch_def enter_state_ok
        simp del: in_set_or in_sets)
qed

lemma loop_alt:
  assumes "state_index cur < 3" "valid_spec t y"
  shows "\<exists>cur'. state_index cur' < 4 \<and>
    specs_loop t False ((if s_alt y then ''#'' else []) @ r) cur sp ctx =
      specs_loop t False r cur' (if s_alt y then sp\<lparr>alt := True\<rparr> else sp) ctx"
proof (cases "s_alt y")
  case False
  then show ?thesis using assms(1) by (intro exI [of _ cur]) simp
next
  case True
  then have "t \<noteq> none_type" "is_arithmetic_type t = True" using assms(2) by (auto simp: valid_spec_def)
  then show ?thesis using True assms(1)
    by (intro exI [of _ st_hash]) (simp add: specs_loop_Cons spec_switch_def enter_state_ok)
qed

lemma loop_zero:
  assumes "state_index cur < 4" "valid_spec t y"
  shows "\<exists>cur'. state_index cur' < 5 \<and>
    specs_loop t False ((if s_zero y then ''0'' else []) @ r) cur sp ctx =
      specs_loop t False r cur' (zero_meaning y sp) ctx"
proof (cases "s_zero y")
  case False
  then show ?thesis using assms(1) by (intro exI [of _ cur]) (simp add: zero_meaning_def)
next
  case True
  then have "is_arithmetic_type t" using assms(2) by (auto simp: valid_spec_def)
  then show ?thesis using True assms(1)
    by (intro exI [of _ st_zero])
      (simp add: specs_loop_Cons spec_switch_def enter_state_ok zero_meaning_def)
qed

text \<open>Numbers and references, as the width and the precision use them.\<close>

lemma parse_dynamic_spec_count:
  assumes "valid_count n" "n \<noteq> NoCount" "r = [] \<or> \<not> is_digit (hd r)"
  shows "parse_dynamic_spec (print_count n @ r) v rf ctx =
    bind_sum (count_meaning n v rf ctx) (\<lambda>(v', rf', ctx'). Inr (r, v', rf', ctx'))"
proof (cases n)
  case (Lit ds)
  then have lit: "number_literal ds" and "is_digit (hd (ds @ r))"
    using assms(1) by (auto simp: number_literal_def hd_append)
  moreover have "parse_nonnegative_int (ds @ r) (-1) = (int (decimal ds), r)"
    by (rule parse_number_literal [OF lit assms(3)])
  ultimately show ?thesis using Lit by (simp add: parse_dynamic_spec_def)
next
  case (Dyn i)
  have "parse_arg_id (print_id i @ CHR ''}'' # r) dynamic_spec_id_handler (ctx, rf) =
      bind_sum (act_on_id i dynamic_spec_id_handler (ctx, rf)) (\<lambda>s'. Inr (CHR ''}'' # r, s'))"
    using assms(1) Dyn by (intro parse_arg_id_valid) simp_all
  moreover have "print_id i @ CHR ''}'' # r \<noteq> []" by simp
  ultimately show ?thesis using Dyn
    by (cases "act_on_id i dynamic_spec_id_handler (ctx, rf)")
      (auto simp: parse_dynamic_spec_def)
qed (use assms in simp)

lemma count_first:
  "valid_count n \<Longrightarrow> n \<noteq> NoCount \<Longrightarrow>
   \<exists>c p. print_count n = c # p \<and> (is_digit c \<or> c = CHR ''{'')"
  by (cases n) (auto simp: number_literal_def neq_Nil_conv)

lemma loop_width:
  assumes "state_index cur < 5" "valid_spec t y" "r = [] \<or> \<not> is_digit (hd r)"
  shows "\<exists>cur'. state_index cur' < 6 \<and>
    specs_loop t False (print_count (s_width y) @ r) cur sp ctx =
      bind_sum (count_meaning (s_width y) (width sp) (width_ref sp) ctx) (\<lambda>(w, wr, ctx').
        specs_loop t False r cur' (sp\<lparr>width := w, width_ref := wr\<rparr>) ctx')"
proof (cases "s_width y = NoCount")
  case True
  then show ?thesis using assms(1) by (intro exI [of _ cur]) simp
next
  case False
  have valid: "valid_count (s_width y)" using assms(2) by (simp add: valid_spec_def)
  obtain c p where c: "print_count (s_width y) = c # p" "is_digit c \<or> c = CHR ''{''"
    using count_first [OF valid False] by blast
  have "c \<noteq> CHR ''0''" using assms(2) c
    by (cases "s_width y") (auto simp: valid_spec_def)
  moreover have "c \<notin> {CHR ''<'', CHR ''>'', CHR ''^'', CHR ''+'', CHR ''-'', CHR '' '', CHR ''#''}"
    using c(2) by auto
  ultimately show ?thesis
    using assms(1) c parse_dynamic_spec_count [OF valid False assms(3), of "width sp" "width_ref sp" ctx]
    by (intro exI [of _ st_width])
      (auto simp: specs_loop_Cons spec_switch_def enter_state_ok bind_sum_assoc split_def)
qed

lemma loop_precision:
  assumes "state_index cur < 6" "valid_spec t y" "r = [] \<or> \<not> is_digit (hd r)"
  shows "\<exists>cur'. state_index cur' < 7 \<and>
    specs_loop t False (print_precision (s_precision y) @ r) cur sp ctx =
      bind_sum (count_meaning (s_precision y) (precision sp) (precision_ref sp) ctx) (\<lambda>(w, wr, ctx').
        specs_loop t False r cur' (sp\<lparr>precision := w, precision_ref := wr\<rparr>) ctx')"
proof (cases "s_precision y = NoCount")
  case True
  then show ?thesis using assms(1) by (intro exI [of _ cur]) (simp add: print_precision_def)
next
  case False
  have valid: "valid_count (s_precision y)" "t \<noteq> none_type"
    "in_set t (float_set OR string_set OR cstring_set) = True"
    using assms(2) False by (auto simp: valid_spec_def)
  obtain c p where c: "print_count (s_precision y) = c # p" "is_digit c \<or> c = CHR ''{''"
    using count_first [OF valid(1) False] by blast
  then have "parse_precision (print_precision (s_precision y) @ r) (precision sp) (precision_ref sp) ctx =
      parse_dynamic_spec (print_count (s_precision y) @ r) (precision sp) (precision_ref sp) ctx"
    using False by (auto simp: parse_precision_def print_precision_def)
  then show ?thesis
    using assms(1) False valid
      parse_dynamic_spec_count [OF valid(1) False assms(3), of "precision sp" "precision_ref sp" ctx]
    by (intro exI [of _ st_precision])
      (auto simp: specs_loop_Cons spec_switch_def enter_state_ok bind_sum_assoc split_def
        print_precision_def simp del: in_set_or in_sets)
qed

lemma loop_locale:
  assumes "state_index cur < 7" "valid_spec t y"
  shows "\<exists>cur'. specs_loop t False ((if s_locale y then ''L'' else []) @ r) cur sp ctx =
      specs_loop t False r cur' (if s_locale y then sp\<lparr>localized := True\<rparr> else sp) ctx"
proof (cases "s_locale y")
  case True
  then have "t \<noteq> none_type" "is_arithmetic_type t = True" using assms(2) by (auto simp: valid_spec_def)
  then show ?thesis using True assms(1)
    by (intro exI [of _ st_locale]) (simp add: specs_loop_Cons spec_switch_def enter_state_ok)
qed auto

lemma is_digit_type_chars [simp]:
  "(c, x) \<in> set type_table \<Longrightarrow> \<not> is_digit c"
  by (auto simp: type_table_def is_digit_def code_def)

lemma spec_switch_type:
  assumes "(c, p, st, u) \<in> set type_table" "c = CHR ''c'' \<Longrightarrow> t \<noteq> bool_type"
  shows "spec_switch t c begn cur sp ctx =
    parse_presentation_type t p st begn cur (if u then sp\<lparr>upper := True\<rparr> else sp) ctx"
proof -
  have "\<not> is_digit c" using assms(1) by simp
  then show ?thesis
    using assms unfolding type_table_def set_simps insert_iff empty_iff prod.inject
    by (elim disjE conjE FalseE; simp add: spec_switch_def)
qed

lemma distinct_type_table: "distinct (map fst type_table)"
  by (simp add: type_table_def)

lemma loop_type:
  assumes "valid_spec t y" "r = [] \<or> hd r = CHR ''}''"
  shows "specs_loop t False (print_opt (s_type y) @ r) cur sp ctx = Inr (r, type_meaning y sp, ctx)"
proof (cases "s_type y")
  case None
  then show ?thesis using assms(2)
    by (cases r) (simp_all add: print_opt_def type_meaning_def specs_loop_Cons spec_switch_def)
next
  case (Some c)
  then obtain p st u where c: "(c, p, st, u) \<in> set type_table" "in_set t st"
    "c = CHR ''c'' \<longrightarrow> t \<noteq> bool_type"
    using assms(1) by (auto simp: valid_spec_def)
  have "map_of type_table c = Some (p, st, u)"
    using c(1) distinct_type_table by (rule map_of_is_SomeI [rotated])
  then show ?thesis using Some c(2,3) spec_switch_type [OF c(1)]
    by (simp add: print_opt_def type_meaning_def specs_loop_Cons parse_presentation_type_def)
qed

lemma parse_align_chars: "parse_align c \<noteq> align_none \<longleftrightarrow> c \<in> {CHR ''<'', CHR ''>'', CHR ''^''}"
  by (simp add: parse_align_def)

text \<open>No character of a specification behind the alignment looks like an alignment.\<close>

lemma parse_align_none:
  "is_digit c \<Longrightarrow> parse_align c = align_none" "is_name_char c \<Longrightarrow> parse_align c = align_none"
  by (auto simp: parse_align_def is_name_char_def is_name_start_def is_digit_def code_def)

lemma parse_align_literals [simp]:
  "parse_align (CHR ''{'') = align_none" "parse_align (CHR ''}'') = align_none"
  "parse_align (CHR ''#'') = align_none" "parse_align (CHR ''0'') = align_none"
  "parse_align (CHR ''.'') = align_none" "parse_align (CHR ''L'') = align_none"
  by (simp_all add: parse_align_def)

lemma print_count_no_align:
  "valid_count n \<Longrightarrow> c \<in> set (print_count n) \<Longrightarrow> parse_align c = align_none"
proof (induction n)
  case (Dyn i)
  then show ?case
    by (cases i) (auto simp: number_literal_def parse_align_none)
qed (auto simp: number_literal_def parse_align_none)

lemma print_tail_no_align:
  assumes "valid_spec t y" "c \<in> set (print_tail y)"
  shows "parse_align c = align_none"
proof -
  have type: "parse_align d = align_none" if "(d, x) \<in> set type_table" for d x
    using that by (auto simp: type_table_def parse_align_def)
  have "parse_align d = align_none" if "s_type y = Some d" for d
    using assms(1) that type by (auto simp: valid_spec_def)
  moreover have "parse_align d = align_none" if "s_sign y = Some d" for d
    using assms(1) that by (auto simp: valid_spec_def parse_align_def)
  moreover have "valid_count (s_width y)" "valid_count (s_precision y)"
    using assms(1) by (simp_all add: valid_spec_def)
  ultimately show ?thesis using assms(2) print_count_no_align
    by (auto simp: print_tail_def print_opt_def print_precision_def
        split: option.splits if_splits)
qed

lemma spec_switch_default:
  assumes "c = char_of (0 :: nat) \<or> 192 \<le> code c"
  shows "spec_switch t c begn cur sp ctx = spec_default begn cur sp ctx"
proof -
  have code: "code c = 0 \<or> 192 \<le> code c" using assms by (auto simp: code_def)
  then have "\<not> is_digit c" by (auto simp: is_digit_def)
  moreover have "c \<noteq> d" if "0 < code d" "code d < 192" for d using that code by auto
  note this [of "CHR ''<''"] this [of "CHR ''>''"] this [of "CHR ''^''"] this [of "CHR ''+''"]
    this [of "CHR ''-''"] this [of "CHR '' ''"] this [of "CHR ''#''"] this [of "CHR ''0''"]
    this [of "CHR ''{''"] this [of "CHR ''.''"] this [of "CHR ''L''"] this [of "CHR ''d''"]
    this [of "CHR ''X''"] this [of "CHR ''x''"] this [of "CHR ''o''"] this [of "CHR ''B''"]
    this [of "CHR ''b''"] this [of "CHR ''E''"] this [of "CHR ''e''"] this [of "CHR ''F''"]
    this [of "CHR ''f''"] this [of "CHR ''G''"] this [of "CHR ''g''"] this [of "CHR ''A''"]
    this [of "CHR ''a''"] this [of "CHR ''c''"] this [of "CHR ''s''"] this [of "CHR ''p''"]
    this [of "CHR ''?''"] this [of "CHR ''}''"]
  ultimately show ?thesis by (simp add: spec_switch_def code_def)
qed

lemma loop_masked:
  "specs_loop t True (c # r) cur sp ctx =
     bind_sum (spec_default (c # r) cur sp ctx) (\<lambda>(tn, begn', cur', sp', ctx').
       if tn = Returns then Inr (begn', sp', ctx') else specs_loop t False begn' cur' sp' ctx')"
  by (subst specs_loop.simps) (simp add: masked_char_def spec_switch_default)

lemma loop_brace:
  "specs_loop t m (CHR ''}'' # r) cur sp ctx = Inr (CHR ''}'' # r, sp, ctx)"
  by (cases m) (simp_all add: loop_masked specs_loop_Cons spec_default_def spec_switch_def)

lemma spec_default_fill:
  assumes "valid_fill f" "f \<noteq> []" "parse_align a \<noteq> align_none"
  shows "spec_default (f @ a # r) st_start sp ctx =
    Inr (Loops, r, st_align, sp\<lparr>fill := f, align := parse_align a\<rparr>, ctx)"
proof -
  have n: "code_point_length (hd f) = length f" "hd f \<noteq> CHR ''{''" "hd f \<noteq> CHR ''}''"
    using assms(1,2) by (auto simp: valid_fill_def)
  then show ?thesis using assms(2,3) by (simp add: spec_default_def enter_state_ok)
qed

lemma parse_specs_align:
  assumes "valid_spec t y" "r = print_tail y @ rest" "rest = [] \<or> hd rest = CHR ''}''"
  shows "\<exists>cur. state_index cur < 2 \<and>
    parse_format_specs (print_align y @ r) sp ctx t = specs_loop t False r cur (align_meaning y sp) ctx"
proof -
  have tail: "parse_align c = align_none" if "c \<in> set (print_tail y)" for c
    using print_tail_no_align [OF assms(1) that] .
  have first: "parse_align (hd r) = align_none" if "r \<noteq> []"
    using that tail assms(2,3) by (cases "print_tail y") auto
  show ?thesis
  proof (cases "s_align y")
    case None
    have "parse_format_specs r sp ctx t = specs_loop t False r st_start sp ctx"
    proof (cases "length r > 1 \<and> parse_align (r ! 1) \<noteq> align_none")
      case True
      have "print_tail y = []"
      proof (rule ccontr)
        assume "print_tail y \<noteq> []"
        then obtain c p where cp: "print_tail y = c # p" by (cases "print_tail y") auto
        then show False using True tail assms(2,3) by (cases p; cases rest) auto
      qed
      then obtain r' where "r = CHR ''}'' # r'" using True assms(2,3) by (cases rest) auto
      then show ?thesis
        by (simp add: parse_format_specs_def loop_brace)
    qed (auto simp: parse_format_specs_def)
    then show ?thesis using None
      by (intro exI [of _ st_start]) (simp add: print_align_def align_meaning_def)
  next
    case (Some fa)
    obtain f a where fa: "fa = (f, a)" by (cases fa)
    then have f: "valid_fill f" and a: "parse_align a \<noteq> align_none"
      using assms(1) Some by (auto simp: valid_spec_def)
    show ?thesis
    proof (cases "length f \<le> 1")
      case True
      show ?thesis
      proof (cases "f = []")
        case True
        have "parse_format_specs (a # r) sp ctx t = specs_loop t False (a # r) st_start sp ctx"
          using first by (cases r) (simp_all add: parse_format_specs_def)
        moreover have "a \<in> {CHR ''<'', CHR ''>'', CHR ''^''}" using a parse_align_chars by blast
        ultimately show ?thesis using Some fa True
          by (intro exI [of _ st_align])
            (auto simp: print_align_def align_meaning_def specs_loop_Cons spec_switch_def
              enter_state_ok)
      next
        case False
        then obtain c where c: "f = [c]" using True by (cases f) auto
        have "spec_default (c # a # r) st_start sp ctx =
            Inr (Loops, r, st_align, sp\<lparr>fill := f, align := parse_align a\<rparr>, ctx)"
          using spec_default_fill [OF f False a] c by simp
        then show ?thesis using Some fa a c
          by (intro exI [of _ st_align])
            (simp add: print_align_def align_meaning_def parse_format_specs_def loop_masked)
      qed
    next
      case False
      then have long: "f \<noteq> []" "1 < length f" by auto
      then have n: "code_point_length (hd f) = length f" "parse_align (f ! 1) = align_none"
        using f by (auto simp: valid_fill_def)
      have "192 \<le> code (hd f)"
        using n(1) long(2) by (simp add: code_point_length_utf8 split: if_splits)
      moreover obtain c f' where c: "f = c # f'" using long(1) by (cases f) auto
      ultimately have "spec_switch t c (f @ a # r) st_start sp ctx =
          Inr (Loops, r, st_align, sp\<lparr>fill := f, align := parse_align a\<rparr>, ctx)"
        using spec_switch_default spec_default_fill [OF f long(1) a] by simp
      moreover have "parse_format_specs (f @ a # r) sp ctx t =
          specs_loop t False (f @ a # r) st_start sp ctx"
        using long n(2) by (simp add: parse_format_specs_def nth_append)
      ultimately show ?thesis using Some fa a c
        by (intro exI [of _ st_align]) (simp add: print_align_def align_meaning_def specs_loop_Cons)
    qed
  qed
qed

lemma type_not_digit:
  assumes "valid_spec t y" "rest = [] \<or> hd rest = CHR ''}''"
  defines "r \<equiv> (if s_locale y then ''L'' else []) @ print_opt (s_type y) @ rest"
  shows "r = [] \<or> \<not> is_digit (hd r)"
    and "print_precision n @ r = [] \<or> \<not> is_digit (hd (print_precision n @ r))"
proof -
  have "\<not> is_digit c" if "s_type y = Some c" for c
    using that assms(1) by (auto simp: valid_spec_def)
  then show r: "r = [] \<or> \<not> is_digit (hd r)"
    using assms(2) unfolding r_def by (auto simp: print_opt_def split: option.splits)
  show "print_precision n @ r = [] \<or> \<not> is_digit (hd (print_precision n @ r))"
    using r by (simp add: print_precision_def)
qed

lemma parse_specs_valid:
  assumes "valid_spec t y" "rest = [] \<or> hd rest = CHR ''}''"
  shows "parse_format_specs (print_spec y @ rest) sp ctx t =
    bind_sum (spec_meaning y sp ctx) (\<lambda>(sp', ctx'). Inr (rest, sp', ctx'))"
proof -
  let ?r6 = "print_opt (s_type y) @ rest"
  let ?r5 = "(if s_locale y then ''L'' else []) @ ?r6"
  let ?r4 = "print_precision (s_precision y) @ ?r5"
  let ?r3 = "print_count (s_width y) @ ?r4"
  let ?r2 = "(if s_zero y then ''0'' else []) @ ?r3"
  let ?r1 = "(if s_alt y then ''#'' else []) @ ?r2"
  let ?r0 = "print_opt (s_sign y) @ ?r1"
  note digits = type_not_digit [OF assms]
  have r0: "?r0 = print_tail y @ rest" by (simp add: print_tail_def)
  obtain c0 where c0: "state_index c0 < 2" "parse_format_specs (print_align y @ ?r0) sp ctx t =
      specs_loop t False ?r0 c0 (align_meaning y sp) ctx"
    using parse_specs_align [OF assms(1) r0 assms(2)] by blast
  let ?sp0 = "align_meaning y sp"
  obtain c1 where c1: "state_index c1 < 3" "specs_loop t False ?r0 c0 ?sp0 ctx =
      specs_loop t False ?r1 c1 (sign_meaning y ?sp0) ctx"
    using loop_sign [OF c0(1) assms(1)] by blast
  let ?sp1 = "sign_meaning y ?sp0"
  let ?sp2 = "if s_alt y then ?sp1\<lparr>alt := True\<rparr> else ?sp1"
  obtain c2 where c2: "state_index c2 < 4" "specs_loop t False ?r1 c1 ?sp1 ctx =
      specs_loop t False ?r2 c2 ?sp2 ctx"
    using loop_alt [OF c1(1) assms(1)] by blast
  let ?sp3 = "zero_meaning y ?sp2"
  obtain c3 where c3: "state_index c3 < 5" "specs_loop t False ?r2 c2 ?sp2 ctx =
      specs_loop t False ?r3 c3 ?sp3 ctx"
    using loop_zero [OF c2(1) assms(1)] by blast
  obtain c4 where c4: "state_index c4 < 6" "specs_loop t False ?r3 c3 ?sp3 ctx =
      bind_sum (count_meaning (s_width y) (width ?sp3) (width_ref ?sp3) ctx) (\<lambda>(w, wr, ctx').
        specs_loop t False ?r4 c4 (?sp3\<lparr>width := w, width_ref := wr\<rparr>) ctx')"
    using loop_width [OF c3(1) assms(1) digits(2)] by blast
  have finish: "specs_loop t False ?r4 c4 sp' ctx' =
      bind_sum (count_meaning (s_precision y) (precision sp') (precision_ref sp') ctx')
        (\<lambda>(v, pr, ctx2). Inr (rest, type_meaning y
          (if s_locale y then sp'\<lparr>precision := v, precision_ref := pr, localized := True\<rparr>
           else sp'\<lparr>precision := v, precision_ref := pr\<rparr>), ctx2))" for sp' ctx'
  proof -
    obtain c5 where c5: "state_index c5 < 7" "specs_loop t False ?r4 c4 sp' ctx' =
        bind_sum (count_meaning (s_precision y) (precision sp') (precision_ref sp') ctx')
          (\<lambda>(v, pr, ctx2). specs_loop t False ?r5 c5 (sp'\<lparr>precision := v, precision_ref := pr\<rparr>) ctx2)"
      using loop_precision [OF c4(1) assms(1) digits(1)] by blast
    have last_parts: "specs_loop t False ?r5 c5 sp2 ctx2 = Inr (rest, type_meaning y
        (if s_locale y then sp2\<lparr>localized := True\<rparr> else sp2), ctx2)" for sp2 ctx2
      using loop_locale [OF c5(1) assms(1), of ?r6 sp2 ctx2] loop_type [OF assms] by metis
    show ?thesis unfolding c5(2) last_parts by (rule refl)
  qed
  have "parse_format_specs (print_spec y @ rest) sp ctx t =
      bind_sum (count_meaning (s_width y) (width ?sp3) (width_ref ?sp3) ctx) (\<lambda>(w, wr, ctx').
        specs_loop t False ?r4 c4 (?sp3\<lparr>width := w, width_ref := wr\<rparr>) ctx')"
    using c0(2) c1(2) c2(2) c3(2) c4(2) by (simp only: print_spec_def append_assoc r0)
  then show ?thesis
    unfolding finish spec_meaning_def Let_def by (simp add: bind_sum_assoc split_def)
qed



end
