(* ===== verification/Fmt_Format_String.thy ===== *)
theory Fmt_Format_String
  imports Fmt_Specs
begin

text \<open>
  \<open>parse_replacement_field\<close> and \<open>parse_format_string\<close> of fmt/include/fmt/base.h: the walk
  over a format string, with its simple loop for short strings and its two searches for
  long ones, for any handler of the events it finds. The contract between the walk and its
  handlers is the locale \<open>format_handler\<close>.
\<close>

section \<open>Handlers\<close>

text \<open>
  The handler of \<open>parse_format_string\<close>, on a state of type \<open>'s\<close>. \<open>on_error\<close> of every
  handler of the code calls \<open>report_error\<close>. The \<open>end\<close> that \<open>on_format_specs\<close> gets is the
  end of the string, so the pointer \<open>begin\<close> carries both.
\<close>

record 's handler =
  on_text :: "string \<Rightarrow> 's \<Rightarrow> string + 's"
  on_arg_auto :: "'s \<Rightarrow> string + (int \<times> 's)"
  on_arg_index :: "int \<Rightarrow> 's \<Rightarrow> string + (int \<times> 's)"
  on_arg_name :: "string \<Rightarrow> 's \<Rightarrow> string + (int \<times> 's)"
  on_replacement_field :: "int \<Rightarrow> string \<Rightarrow> 's \<Rightarrow> string + 's"
  on_format_specs :: "int \<Rightarrow> string \<Rightarrow> 's \<Rightarrow> string + (string \<times> 's)"

definition id_adapter :: "'s handler \<Rightarrow> (int \<times> 's) id_handler" where
  "id_adapter h = \<lparr>
     on_auto = (\<lambda>(_, s). on_arg_auto h s),
     on_index = (\<lambda>i (_, s). on_arg_index h i s),
     on_name = (\<lambda>n (_, s). on_arg_name h n s)\<rparr>"

section \<open>The walk\<close>

text \<open>\<open>begn\<close> starts with the opening brace.\<close>

definition parse_replacement_field ::
  "string \<Rightarrow> 's handler \<Rightarrow> 's \<Rightarrow> string + (string \<times> 's)" where
  "parse_replacement_field begn h s =
     (let b = tl begn in
      if b = [] then Inl ''invalid format string''
      else if hd b = CHR ''}'' then
        bind_sum (on_arg_auto h s) (\<lambda>(i, s1).
        bind_sum (on_replacement_field h i b s1) (\<lambda>s2. Inr (tl b, s2)))
      else if hd b = CHR ''{'' then
        bind_sum (on_text h [hd b] s) (\<lambda>s1. Inr (tl b, s1))
      else
        bind_sum (parse_arg_id b (id_adapter h) (0, s)) (\<lambda>(b1, (i, s1)).
          if b1 \<noteq> [] \<and> hd b1 = CHR ''}'' then
            bind_sum (on_replacement_field h i b1 s1) (\<lambda>s2. Inr (tl b1, s2))
          else if b1 \<noteq> [] \<and> hd b1 = CHR '':'' then
            bind_sum (on_format_specs h i (tl b1) s1) (\<lambda>(b2, s2).
              if b2 = [] \<or> hd b2 \<noteq> CHR ''}'' then Inl ''unknown format specifier''
              else Inr (tl b2, s2))
          else Inl (''missing '' @ [CHR 0x27, CHR ''}'', CHR 0x27] @ '' in format string'')))"

definition unmatched :: string where
  "unmatched = ''unmatched '' @ [CHR 0x27, CHR ''}'', CHR 0x27] @ '' in format string''"

text \<open>
  The loop for short strings: \<open>seg\<close> is the text from \<open>begin\<close> to \<open>p\<close>. A handler could hand
  back more than it was given, so the loops may not end in general.
\<close>

partial_function (option) small_loop ::
  "'s handler \<Rightarrow> string \<Rightarrow> string \<Rightarrow> 's \<Rightarrow> (string + 's) option" where
  "small_loop h seg p s =
     (case p of
        [] \<Rightarrow> Some (on_text h seg s)
      | c # p' \<Rightarrow>
          if c = CHR ''{'' then
            (case bind_sum (on_text h seg s) (parse_replacement_field p h) of
               Inl e \<Rightarrow> Some (Inl e)
             | Inr r \<Rightarrow> small_loop h [] (fst r) (snd r))
          else if c = CHR ''}'' then
            (if p' = [] \<or> hd p' \<noteq> CHR ''}'' then Some (Inl unmatched)
             else (case on_text h (seg @ [c]) s of
                Inl e \<Rightarrow> Some (Inl e)
              | Inr s1 \<Rightarrow> small_loop h [] (tl p') s1))
          else small_loop h (seg @ [c]) p' s)"

text \<open>The \<open>writer\<close> of the path for long strings: text without opening braces.\<close>

function writer_loop :: "'s handler \<Rightarrow> string \<Rightarrow> 's \<Rightarrow> string + 's" where
  "writer_loop h frm s =
     (let p = dropWhile (\<lambda>c. c \<noteq> CHR ''}'') frm in
      if p = [] then on_text h frm s
      else if tl p = [] \<or> hd (tl p) \<noteq> CHR ''}'' then Inl unmatched
      else bind_sum (on_text h (takeWhile (\<lambda>c. c \<noteq> CHR ''}'') frm @ ''}'') s)
             (writer_loop h (tl (tl p))))"
  by pat_completeness auto
termination
proof (relation "measure (\<lambda>(h, frm, s). length frm)", goal_cases)
  case (2 h frm s p x)
  then have "0 < length p" by simp
  then have "length (tl (tl p)) < length p" unfolding length_tl by linarith
  moreover have "length p \<le> length frm" using 2 by (simp add: length_dropWhile_le)
  ultimately show ?case by simp
qed simp

declare writer_loop.simps [simp del]

definition writer :: "'s handler \<Rightarrow> string \<Rightarrow> 's \<Rightarrow> string + 's" where
  "writer h frm s = (if frm = [] then Inr s else writer_loop h frm s)"

text \<open>The loop for long strings.\<close>

partial_function (option) large_loop ::
  "'s handler \<Rightarrow> string \<Rightarrow> 's \<Rightarrow> (string + 's) option" where
  "large_loop h begn s =
     (if begn = [] then Some (Inr s)
      else
        let p = dropWhile (\<lambda>c. c \<noteq> CHR ''{'') begn in
        if p = [] then Some (writer h begn s)
        else
          case bind_sum (writer h (takeWhile (\<lambda>c. c \<noteq> CHR ''{'') begn) s)
                 (parse_replacement_field p h) of
            Inl e \<Rightarrow> Some (Inl e)
          | Inr r \<Rightarrow> large_loop h (fst r) (snd r))"

definition parse_format_string :: "string \<Rightarrow> 's handler \<Rightarrow> 's \<Rightarrow> (string + 's) option" where
  "parse_format_string fmt h s =
     (if length fmt < 32 then small_loop h [] fmt s else large_loop h fmt s)"

section \<open>The contract of handlers\<close>

locale format_handler =
  fixes h :: "'s handler"
  assumes text_nil: "on_text h [] s = Inr s"
    and specs_no_longer: "on_format_specs h i b s = Inr (b', s') \<Longrightarrow> length b' \<le> length b"
begin

lemma field_shorter:
  assumes "p \<noteq> []" "parse_replacement_field p h s = Inr (q, s')"
  shows "length q < length p"
proof -
  have tail: "tl p \<noteq> []" "length (tl p) < length p"
    using assms by (auto simp: parse_replacement_field_def split: if_splits)
  consider (one) "q = tl (tl p)"
    | (plain) b1 i s1 where "parse_arg_id (tl p) (id_adapter h) (0, s) = Inr (b1, i, s1)"
        "b1 \<noteq> []" "q = tl b1"
    | (specs) b1 i s1 b2 s2 where "parse_arg_id (tl p) (id_adapter h) (0, s) = Inr (b1, i, s1)"
        "b1 \<noteq> []" "on_format_specs h i (tl b1) s1 = Inr (b2, s2)" "q = tl b2"
    using assms(2) by (auto simp: parse_replacement_field_def Let_def split: if_splits)
  then show ?thesis
  proof cases
    case plain
    from parse_arg_id_no_longer [OF tail(1) plain(1)] plain tail show ?thesis by (cases b1) auto
  next
    case specs
    from parse_arg_id_no_longer [OF tail(1) specs(1)] specs_no_longer [OF specs(3)] specs tail
    show ?thesis by (cases b1) auto
  qed (use tail in auto)
qed

text \<open>Both loops treat a text before a brace alike.\<close>

lemma small_text:
  assumes "CHR ''{'' \<notin> set pre" "q = [] \<or> hd q = CHR ''{''" "CHR ''}'' \<notin> set seg"
  shows "small_loop h seg (pre @ q) s =
    (case writer_loop h (seg @ pre) s of Inl e \<Rightarrow> Some (Inl e) | Inr s1 \<Rightarrow> small_loop h [] q s1)"
  using assms(1,3)
proof (induction "length pre" arbitrary: pre seg s rule: less_induct)
  case less
  show ?case
  proof (cases pre)
    case Nil
    have "writer_loop h seg s = on_text h seg s"
    proof -
      have "dropWhile (\<lambda>c. c \<noteq> CHR ''}'') seg = []"
        using less.prems(2) by (auto simp: dropWhile_eq_Nil_conv)
      then show ?thesis by (subst writer_loop.simps) (simp add: Let_def)
    qed
    then show ?thesis using Nil assms(2)
      by (cases q) (auto simp: small_loop.simps [of h seg] small_loop.simps [of h "[]"] text_nil
          split: sum.splits)
  next
    case (Cons c pre')
    show ?thesis
    proof (cases "c = CHR ''}''")
      case False
      moreover have "c \<noteq> CHR ''{''" using Cons less.prems(1) by auto
      ultimately show ?thesis using Cons less.prems less.hyps [of pre' "seg @ [c]"]
        by (subst small_loop.simps) simp
    next
      case True
      have split: "takeWhile (\<lambda>c. c \<noteq> CHR ''}'') (seg @ pre) = seg"
        "dropWhile (\<lambda>c. c \<noteq> CHR ''}'') (seg @ pre) = pre"
      proof -
        have "\<And>x. x \<in> set seg \<Longrightarrow> x \<noteq> CHR ''}''" using less.prems(2) by auto
        then show "takeWhile (\<lambda>c. c \<noteq> CHR ''}'') (seg @ pre) = seg"
          "dropWhile (\<lambda>c. c \<noteq> CHR ''}'') (seg @ pre) = pre"
          using Cons True by (simp_all add: takeWhile_append2 dropWhile_append2)
      qed
      show ?thesis
      proof (cases "pre' = [] \<or> hd pre' \<noteq> CHR ''}''")
        case True
        then have "writer_loop h (seg @ pre) s = Inl unmatched"
          using Cons split(2) by (subst writer_loop.simps) (simp add: Let_def)
        moreover have "pre' @ q = [] \<or> hd (pre' @ q) \<noteq> CHR ''}''"
          using True assms(2) by (cases pre') auto
        ultimately show ?thesis
          using Cons \<open>c = CHR ''}''\<close> by (subst small_loop.simps) auto
      next
        case False
        then obtain pre'' where pre'': "pre' = CHR ''}'' # pre''" by (cases pre') auto
        have "writer_loop h (seg @ pre) s =
            bind_sum (on_text h (seg @ ''}'') s) (writer_loop h pre'')"
          using split Cons pre'' by (subst writer_loop.simps) (simp add: Let_def)
        then show ?thesis
          using Cons \<open>c = CHR ''}''\<close> pre'' less.prems(1) less.hyps [of pre'' "[]"]
          by (subst small_loop.simps) (auto split: sum.splits)
      qed
    qed
  qed
qed

lemma writer_writer_loop: "writer h t s = writer_loop h t s"
  by (subst writer_loop.simps) (simp add: writer_def text_nil writer_loop.simps [of h t])

lemma small_brace:
  "small_loop h [] (CHR ''{'' # q) s =
    (case parse_replacement_field (CHR ''{'' # q) h s of Inl e \<Rightarrow> Some (Inl e)
     | Inr r \<Rightarrow> small_loop h [] (fst r) (snd r))"
  by (simp add: small_loop.simps [of h "[]" "CHR ''{'' # q"] text_nil)

lemma loops_agree_and_end:
  "small_loop h [] fmt s = large_loop h fmt s \<and> (\<exists>r. large_loop h fmt s = Some r)"
proof (induction "length fmt" arbitrary: fmt s rule: less_induct)
  case less
  let ?pre = "takeWhile (\<lambda>c. c \<noteq> CHR ''{'') fmt" and ?q = "dropWhile (\<lambda>c. c \<noteq> CHR ''{'') fmt"
  have no: "CHR ''{'' \<notin> set ?pre" using set_takeWhileD by fastforce
  have q: "?q = [] \<or> hd ?q = CHR ''{''" using hd_dropWhile by blast
  have small: "small_loop h [] fmt s =
      (case writer h ?pre s of Inl e \<Rightarrow> Some (Inl e) | Inr s1 \<Rightarrow> small_loop h [] ?q s1)"
    using small_text [OF no q, of "[]" s] by (simp add: writer_writer_loop)
  show ?case
  proof (cases "?q = []")
    case True
    then have pre: "?pre = fmt" by (metis append.right_neutral takeWhile_dropWhile_id)
    have "large_loop h fmt s = Some (writer h fmt s)"
      using True by (subst large_loop.simps) (simp add: writer_def)
    moreover have "small_loop h [] fmt s = Some (writer h fmt s)"
      unfolding small True pre
      by (simp add: small_loop.simps [of h "[]" "[]"] text_nil split: sum.splits)
    ultimately show ?thesis by simp
  next
    case False
    then have "fmt \<noteq> []" by auto
    obtain q' where q': "?q = CHR ''{'' # q'" using False q by (cases ?q) auto
    have large: "large_loop h fmt s =
        (case bind_sum (writer h ?pre s) (parse_replacement_field ?q h) of Inl e \<Rightarrow> Some (Inl e)
         | Inr r \<Rightarrow> large_loop h (fst r) (snd r))"
      by (subst large_loop.simps) (simp only: Let_def False \<open>fmt \<noteq> []\<close> if_False)
    have small': "small_loop h [] fmt s =
        (case bind_sum (writer h ?pre s) (parse_replacement_field ?q h) of Inl e \<Rightarrow> Some (Inl e)
         | Inr r \<Rightarrow> small_loop h [] (fst r) (snd r))"
      unfolding small q' by (cases "writer h ?pre s") (simp_all add: small_brace)
    have shorter: "length (fst r) < length fmt"
      if "bind_sum (writer h ?pre s) (parse_replacement_field ?q h) = Inr r" for r
    proof -
      from that obtain s1 where "parse_replacement_field ?q h s1 = Inr (fst r, snd r)" by auto
      from field_shorter [OF False this] show ?thesis
        using length_dropWhile_le [of _ fmt] by (meson order_less_le_trans)
    qed
    show ?thesis unfolding large small'
      using less.hyps [OF shorter] by (auto split: sum.splits)
  qed
qed

lemma parse_format_string_eq: "parse_format_string fmt h s = small_loop h [] fmt s"
  using loops_agree_and_end by (simp add: parse_format_string_def)

lemma parse_format_string_ends: "\<exists>r. parse_format_string fmt h s = Some r"
  using loops_agree_and_end by (simp add: parse_format_string_def)

end

end
