(* ===== verification/Fmt_Text.thy ===== *)
theory Fmt_Text
  imports Fmt_Format_String
begin

text \<open>
  Format strings made of characters and of replacement fields without a specification, and
  what the walk of \<open>parse_format_string\<close> does with them: the contract of handlers whose text
  may be handed over in pieces, and the meaning of such a string for every handler that
  satisfies it.
\<close>

section \<open>Format strings as lists of events\<close>

datatype event = Ch char | Fld arg_id

fun print_event :: "event \<Rightarrow> string" where
  "print_event (Ch c) = (if c = CHR ''{'' \<or> c = CHR ''}'' then [c, c] else [c])"
| "print_event (Fld i) = ''{'' @ print_id i @ ''}''"

fun valid_event :: "event \<Rightarrow> bool" where
  "valid_event (Ch c) = True"
| "valid_event (Fld i) = valid_id i"

definition print_events :: "event list \<Rightarrow> string" where
  "print_events evs = concat (map print_event evs)"

text \<open>What the handler does with them, one after the other.\<close>

definition act_on_event :: "'s handler \<Rightarrow> event \<Rightarrow> 's \<Rightarrow> string + 's" where
  "act_on_event h e s =
     (case e of
        Ch c \<Rightarrow> on_text h [c] s
      | Fld i \<Rightarrow> bind_sum (act_on_id i (id_adapter h) (0, s)) (\<lambda>(k, s1). on_replacement_field h k ''}'' s1))"

fun act_on_events :: "'s handler \<Rightarrow> event list \<Rightarrow> 's \<Rightarrow> string + 's" where
  "act_on_events h [] s = Inr s"
| "act_on_events h (e # evs) s = bind_sum (act_on_event h e s) (act_on_events h evs)"

lemma print_id_head:
  "valid_id i \<Longrightarrow> i \<noteq> Auto \<Longrightarrow> \<exists>c cs. print_id i = c # cs \<and> c \<noteq> CHR ''}'' \<and> c \<noteq> CHR ''{''"
proof (cases i)
  case (Index ds)
  assume "valid_id i"
  with Index have "ds \<noteq> []" "is_digit (hd ds)" by (auto simp: number_literal_def)
  with Index show ?thesis using digit_not_special [of "hd ds"] by (cases ds) auto
next
  case (Name n)
  assume "valid_id i"
  with Name have "n \<noteq> []" "is_name_start (hd n)" by auto
  with Name show ?thesis by (cases n) (auto simp: is_name_start_def code_def)
qed simp

section \<open>The contract\<close>

locale text_handler = format_handler h for h :: "'s handler" +
  assumes text_append: "on_text h (a @ b) s = bind_sum (on_text h a s) (on_text h b)"
    and field_any: "on_replacement_field h i b s = on_replacement_field h i b' s"
begin

lemma field_event:
  assumes "valid_id i"
  shows "parse_replacement_field (print_event (Fld i) @ r) h s =
    bind_sum (act_on_event h (Fld i) s) (\<lambda>s1. Inr (r, s1))"
proof (cases "i = Auto")
  case True
  then show ?thesis
    using field_any [of _ "CHR ''}'' # r" _ "''}''"]
    by (simp add: parse_replacement_field_def act_on_event_def id_adapter_def split_def bind_sum_assoc)
next
  case False
  have p: "parse_arg_id (print_id i @ CHR ''}'' # r) (id_adapter h) (0, s) =
      bind_sum (act_on_id i (id_adapter h) (0, s)) (\<lambda>s'. Inr (CHR ''}'' # r, s'))"
    by (rule parse_arg_id_valid [OF assms]) simp
  obtain c cs where "print_id i = c # cs" "c \<noteq> CHR ''}''" "c \<noteq> CHR ''{''"
    using print_id_head [OF assms False] by blast
  with p show ?thesis
    using field_any [of _ "CHR ''}'' # r" _ "''}''"]
    by (simp add: parse_replacement_field_def act_on_event_def split_def bind_sum_assoc Let_def)
qed

lemma small_loop_events:
  "\<forall>e \<in> set evs. valid_event e \<Longrightarrow>
    small_loop h seg (print_events evs) s = Some (bind_sum (on_text h seg s) (act_on_events h evs))"
proof (induction evs arbitrary: seg s)
  case Nil
  then show ?case by (simp add: print_events_def small_loop.simps [of h seg "[]"])
next
  case (Cons e evs)
  have p: "print_events (e # evs) = print_event e @ print_events evs" for e by (simp add: print_events_def)
  have IH: "small_loop h seg (print_events evs) s = Some (bind_sum (on_text h seg s) (act_on_events h evs))" for seg s
    using Cons by simp
  have next_loop: "(case m of Inl e \<Rightarrow> Some (Inl e) | Inr r \<Rightarrow> small_loop h [] (print_events evs) r) =
      Some (bind_sum m (act_on_events h evs))" for m
    by (cases m) (simp_all add: IH text_nil)
  have field: "small_loop h seg (CHR ''{'' # q @ print_events evs) s =
      Some (bind_sum (bind_sum (on_text h seg s) f) (act_on_events h evs))"
    if "\<And>s. parse_replacement_field (CHR ''{'' # q @ print_events evs) h s =
      bind_sum (f s) (\<lambda>s1. Inr (print_events evs, s1))" for f q
  proof -
    have eta: "parse_replacement_field (CHR ''{'' # q @ print_events evs) h =
        (\<lambda>s. bind_sum (f s) (\<lambda>s1. Inr (print_events evs, s1)))"
      by (rule ext) (rule that)
    have "small_loop h seg (CHR ''{'' # q @ print_events evs) s =
        (case bind_sum (bind_sum (on_text h seg s) f) (\<lambda>s1. Inr (print_events evs, s1)) of
           Inl e \<Rightarrow> Some (Inl e) | Inr r \<Rightarrow> small_loop h [] (fst r) (snd r))"
      by (subst small_loop.simps) (simp add: eta bind_sum_assoc)
    then show ?thesis
      by (cases "bind_sum (on_text h seg s) f") (simp_all add: IH text_nil del: bind_sum_Inr)
  qed
  show ?case
  proof (cases e)
    case (Fld i)
    then have "valid_id i" using Cons.prems by simp
    from field [of "print_id i @ ''}''" "act_on_event h e"] field_event [OF this, of "print_events evs"]
    show ?thesis by (simp add: p Fld bind_sum_assoc del: bind_sum_Inr)
  next
    case (Ch c)
    have act: "act_on_event h (Ch c) = on_text h [c]" for c
      by (rule ext) (simp add: act_on_event_def)
    consider "c = CHR ''{''" | "c = CHR ''}''" | "c \<noteq> CHR ''{''" "c \<noteq> CHR ''}''" by blast
    then show ?thesis
    proof cases
      case 1
      have "parse_replacement_field (CHR ''{'' # CHR ''{'' # print_events evs) h s =
          bind_sum (on_text h ''{'' s) (\<lambda>s1. Inr (print_events evs, s1))" for s
        by (simp add: parse_replacement_field_def)
      with field [of "''{''" "on_text h ''{''"] show ?thesis
        by (simp add: p Ch 1 act bind_sum_assoc del: bind_sum_Inr)
    next
      case 2
      have "small_loop h seg (print_events (e # evs)) s =
          (case on_text h (seg @ ''}'') s of Inl e \<Rightarrow> Some (Inl e) | Inr r \<Rightarrow> small_loop h [] (print_events evs) r)"
        by (subst small_loop.simps) (simp add: p Ch 2 split: sum.split)
      then show ?thesis
        unfolding next_loop text_append by (simp add: act Ch 2 bind_sum_assoc del: bind_sum_Inr)
    next
      case 3
      have "small_loop h seg (print_events (e # evs)) s = small_loop h (seg @ [c]) (print_events evs) s"
        by (subst small_loop.simps) (simp add: p Ch 3)
      then show ?thesis
        unfolding IH text_append by (simp add: act Ch bind_sum_assoc del: bind_sum_Inr)
    qed
  qed
qed

lemma parse_format_string_events:
  "\<forall>e \<in> set evs. valid_event e \<Longrightarrow>
    parse_format_string (print_events evs) h s = Some (act_on_events h evs s)"
  using small_loop_events [of evs "[]" s] by (simp add: parse_format_string_eq text_nil)

end

end
