(* ===== verification/Fmt_Args.thy ===== *)
theory Fmt_Args
  imports Fmt_Types
begin

unbundle bit_operations_syntax

text \<open>
  The type-erased arguments of fmt/include/fmt/base.h: \<open>basic_format_arg\<close>,
  \<open>format_arg_store\<close> and \<open>basic_format_args\<close>, which keeps the types of up to 15 arguments
  in a 64-bit descriptor, four bits each, and a table of names in front of the values.
\<close>

section \<open>Arguments\<close>

text \<open>
  The member of the union that is set. Floating-point values have type \<open>'f\<close> and objects of
  user-defined types type \<open>'c\<close>; a C string is its address and the characters there, \<open>None\<close>
  for the null pointer.
\<close>

datatype ('f, 'c) arg_value =
    V_none
  | V_int int
  | V_bool bool
  | V_char char
  | V_float 'f
  | V_cstring nat "string option"
  | V_string string
  | V_pointer nat
  | V_custom 'c

record ('f, 'c) format_arg =
  arg_ty :: arg_type
  arg_val :: "('f, 'c) arg_value"

definition empty_arg :: "('f, 'c) format_arg" where
  "empty_arg = \<lparr>arg_ty = none_type, arg_val = V_none\<rparr>"

definition packed_arg_bits :: nat where "packed_arg_bits = 4"
definition max_packed_args :: nat where "max_packed_args = 62 div packed_arg_bits"
definition is_unpacked_bit :: "64 word" where "is_unpacked_bit = push_bit 63 1"
definition has_named_args_bit :: "64 word" where "has_named_args_bit = push_bit 62 1"

fun encode_types :: "arg_type list \<Rightarrow> 64 word" where
  "encode_types [] = 0"
| "encode_types (t # ts) = word_of_nat (type_index t) OR push_bit packed_arg_bits (encode_types ts)"

definition make_descriptor :: "arg_type list \<Rightarrow> 64 word" where
  "make_descriptor ts =
     (if length ts \<le> max_packed_args then encode_types ts else is_unpacked_bit OR word_of_nat (length ts))"

text \<open>\<open>named\<close> is the table that \<open>values_[-1]\<close> or \<open>args_[-1].value_\<close> points to.\<close>

record ('f, 'c) format_args =
  desc :: "64 word"
  packed_values :: "('f, 'c) arg_value list"
  unpacked_args :: "('f, 'c) format_arg list"
  named :: "(string \<times> int) list"

definition is_packed :: "('f, 'c) format_args \<Rightarrow> bool" where
  "is_packed args \<longleftrightarrow> desc args AND is_unpacked_bit = 0"

definition has_named_args :: "('f, 'c) format_args \<Rightarrow> bool" where
  "has_named_args args \<longleftrightarrow> desc args AND has_named_args_bit \<noteq> 0"

definition type_of_index :: "nat \<Rightarrow> arg_type" where
  "type_of_index n =
     [none_type, int_type, uint_type, long_long_type, ulong_long_type, int128_type, uint128_type,
      bool_type, char_type, float_type, double_type, long_double_type, cstring_type, string_type,
      pointer_type, custom_type] ! n"

definition type_at :: "('f, 'c) format_args \<Rightarrow> int \<Rightarrow> arg_type" where
  "type_at args index =
     (let shift = nat index * packed_arg_bits; mask = push_bit packed_arg_bits 1 - 1
      in type_of_index (unat (drop_bit shift (desc args) AND mask)))"

definition max_size :: "('f, 'c) format_args \<Rightarrow> int" where
  "max_size args =
     (if is_packed args then int max_packed_args
      else sint (ucast (desc args AND NOT is_unpacked_bit) :: 32 word))"

definition get_arg_at :: "('f, 'c) format_args \<Rightarrow> int \<Rightarrow> ('f, 'c) format_arg" where
  "get_arg_at args i =
     (if \<not> is_packed args then if i < max_size args then unpacked_args args ! nat i else empty_arg
      else if i \<ge> int max_packed_args then empty_arg
      else let t = type_at args i in
        if t = none_type then empty_arg
        else \<lparr>arg_ty = t, arg_val = packed_values args ! nat i\<rparr>)"

fun get_id_loop :: "(string \<times> int) list \<Rightarrow> string \<Rightarrow> int" where
  "get_id_loop [] name = -1"
| "get_id_loop ((n, i) # nas) name = (if n = name then i else get_id_loop nas name)"

definition get_id :: "('f, 'c) format_args \<Rightarrow> string \<Rightarrow> int" where
  "get_id args name = (if \<not> has_named_args args then -1 else get_id_loop (named args) name)"

definition get_arg_named :: "('f, 'c) format_args \<Rightarrow> string \<Rightarrow> ('f, 'c) format_arg" where
  "get_arg_named args name =
     (let i = get_id args name in if i \<ge> 0 then get_arg_at args i else empty_arg)"

text \<open>\<open>format_arg_store\<close> and \<open>make_format_args\<close>, of arguments with or without names.\<close>

fun init_named_args :: "int \<Rightarrow> (string option \<times> ('f, 'c) format_arg) list \<Rightarrow> (string \<times> int) list" where
  "init_named_args arg_index [] = []"
| "init_named_args arg_index ((None, a) # vals) = init_named_args (arg_index + 1) vals"
| "init_named_args arg_index ((Some n, a) # vals) = (n, arg_index) # init_named_args (arg_index + 1) vals"

definition make_format_args :: "(string option \<times> ('f, 'c) format_arg) list \<Rightarrow> ('f, 'c) format_args" where
  "make_format_args vals =
     (let d = make_descriptor (map (\<lambda>(n, a). arg_ty a) vals); nas = init_named_args 0 vals in
      \<lparr>desc = (if nas \<noteq> [] then d OR has_named_args_bit else d),
       packed_values = (if length vals \<le> max_packed_args then map (\<lambda>(n, a). arg_val a) vals else []),
       unpacked_args = (if length vals \<le> max_packed_args then [] else map snd vals),
       named = nas\<rparr>)"

section \<open>The packed types can be read back\<close>

lemma type_index_less: "type_index t < 16"
  by (cases t) simp_all

lemma type_of_index_type_index [simp]: "type_of_index (type_index t) = t"
  by (cases t) (simp_all add: type_of_index_def numeral_eq_Suc)

lemma type_index_0: "type_of_index 0 = none_type"
  by (simp add: type_of_index_def)

lemma bit_type_index: "bit (word_of_nat (type_index t) :: 64 word) n \<longleftrightarrow> n < 4 \<and> bit (type_index t) n"
proof -
  have "\<not> bit (type_index t) n" if "4 \<le> n"
  proof -
    have "type_index t < 2 ^ n"
      using type_index_less [of t] power_increasing [OF that, of "2 :: nat"] by simp
    then show ?thesis by (simp add: bit_iff_odd)
  qed
  then show ?thesis by (cases "n < 4") (auto simp: bit_simps not_less)
qed

lemma bit_encode_types:
  "length ts \<le> 15 \<Longrightarrow> bit (encode_types ts) n \<longleftrightarrow>
    n div 4 < length ts \<and> bit (type_index (ts ! (n div 4))) (n mod 4)"
proof (induction ts arbitrary: n)
  case (Cons t ts)
  have le: "length ts \<le> 15" using Cons.prems by simp
  show ?case
  proof (cases "n < 4")
    case True
    then show ?thesis
      by (auto simp: bit_or_iff bit_type_index bit_push_bit_iff packed_arg_bits_def)
  next
    case False
    then have n: "n div 4 = Suc ((n - 4) div 4)" "n mod 4 = (n - 4) mod 4"
      by (simp_all add: le_div_geq le_mod_geq not_less)
    have "bit (encode_types (t # ts)) n \<longleftrightarrow> n < 64 \<and> bit (encode_types ts) (n - 4)"
      using False by (auto simp: bit_or_iff bit_type_index bit_push_bit_iff packed_arg_bits_def)
    also have "\<dots> \<longleftrightarrow> n div 4 < length (t # ts) \<and> bit (type_index ((t # ts) ! (n div 4))) (n mod 4)"
      using Cons.IH [OF le, of "n - 4"] Cons.prems n by auto
    finally show ?thesis .
  qed
qed simp

lemma drop_mask_bits: "bit (drop_bit (i * 4) (d :: 64 word) AND 15) n \<longleftrightarrow> n < 4 \<and> bit d (i * 4 + n)"
proof -
  have m: "(15 :: 64 word) = mask 4" by (simp add: mask_eq_exp_minus_1)
  have "bit d (i * 4 + n) \<Longrightarrow> i * 4 + n < 64" using bit_imp_le_length [of d "i * 4 + n"] by simp
  then show ?thesis unfolding m bit_and_iff bit_mask_iff bit_drop_bit_eq by auto
qed

lemma type_at_encode:
  assumes "\<And>n. n < 60 \<Longrightarrow> bit (desc args) n \<longleftrightarrow> bit (encode_types ts) n" "length ts \<le> 15" "i < 15"
  shows "type_at args (int i) = (if i < length ts then ts ! i else none_type)"
proof -
  have "bit (drop_bit (i * 4) (desc args) AND 15) n \<longleftrightarrow>
      bit (word_of_nat (if i < length ts then type_index (ts ! i) else 0) :: 64 word) n" for n
  proof (cases "n < 4")
    case True
    then have "i * 4 + n < 60" "(i * 4 + n) div 4 = i" "(i * 4 + n) mod 4 = n" using assms(3) by simp_all
    then have "bit (desc args) (i * 4 + n) \<longleftrightarrow> i < length ts \<and> bit (type_index (ts ! i)) n"
      using assms(1) [of "i * 4 + n"] bit_encode_types [OF assms(2), of "i * 4 + n"] by simp
    then show ?thesis using True unfolding drop_mask_bits by (auto simp: bit_type_index)
  next
    case False
    then show ?thesis unfolding drop_mask_bits by (auto simp: bit_type_index)
  qed
  then have "drop_bit (i * 4) (desc args) AND 15 =
      word_of_nat (if i < length ts then type_index (ts ! i) else 0)"
    by (rule bit_word_eqI)
  then have "unat (drop_bit (i * 4) (desc args) AND 15) = (if i < length ts then type_index (ts ! i) else 0)"
    using type_index_less [of "ts ! i"] by (simp add: unat_of_nat)
  then show ?thesis
    by (simp add: type_at_def packed_arg_bits_def type_index_0)
qed

lemma bit_flags: "bit is_unpacked_bit n \<longleftrightarrow> n = 63" "bit has_named_args_bit n \<longleftrightarrow> n = 62"
  unfolding is_unpacked_bit_def has_named_args_bit_def bit_push_bit_iff bit_1_iff by auto

lemma desc_make_format_args:
  "desc (make_format_args vals) =
    (if init_named_args 0 vals \<noteq> [] then make_descriptor (map (\<lambda>(n, a). arg_ty a) vals) OR has_named_args_bit
     else make_descriptor (map (\<lambda>(n, a). arg_ty a) vals))"
  by (simp add: make_format_args_def Let_def)

lemma packed_descriptor:
  assumes "length vals \<le> 15"
  shows "is_packed (make_format_args vals)"
    and "n < 60 \<Longrightarrow> bit (desc (make_format_args vals)) n \<longleftrightarrow>
      bit (encode_types (map (\<lambda>(n, a). arg_ty a) vals)) n"
proof -
  let ?ts = "map (\<lambda>(n, a). arg_ty a) vals"
  have d: "make_descriptor ?ts = encode_types ?ts"
    using assms by (simp add: make_descriptor_def max_packed_args_def packed_arg_bits_def)
  have "\<not> bit (encode_types ?ts) 63" using bit_encode_types [of ?ts 63] assms by simp
  then have "\<not> bit (desc (make_format_args vals)) 63"
    by (simp add: desc_make_format_args d bit_simps bit_flags)
  then have "\<not> bit (desc (make_format_args vals) AND is_unpacked_bit) n" for n
    by (auto simp: bit_simps bit_flags)
  then show "is_packed (make_format_args vals)" by (simp add: is_packed_def bit_eq_iff)
  show "n < 60 \<Longrightarrow> bit (desc (make_format_args vals)) n \<longleftrightarrow> bit (encode_types ?ts) n"
    by (auto simp: desc_make_format_args d bit_simps bit_flags)
qed

lemma unpacked_descriptor:
  assumes "15 < length vals" "length vals < 2 ^ 31"
  shows "\<not> is_packed (make_format_args vals)" "max_size (make_format_args vals) = int (length vals)"
proof -
  let ?ts = "map (\<lambda>(n, a). arg_ty a) vals"
  have d: "make_descriptor ?ts = is_unpacked_bit OR word_of_nat (length vals)"
    using assms by (simp add: make_descriptor_def max_packed_args_def packed_arg_bits_def)
  have "bit (desc (make_format_args vals) AND is_unpacked_bit) 63"
    by (simp add: desc_make_format_args d bit_simps bit_flags)
  then show p: "\<not> is_packed (make_format_args vals)" by (auto simp: is_packed_def)
  have "bit (ucast (desc (make_format_args vals) AND NOT is_unpacked_bit) :: 32 word) n \<longleftrightarrow>
      bit (word_of_nat (length vals) :: 32 word) n" for n
    by (auto simp: desc_make_format_args d bit_simps bit_flags)
  then have "(ucast (desc (make_format_args vals) AND NOT is_unpacked_bit) :: 32 word) = word_of_nat (length vals)"
    by (rule bit_word_eqI)
  then show "max_size (make_format_args vals) = int (length vals)"
    using p assms(2) by (simp add: max_size_def signed_of_nat signed_take_bit_int_eq_self)
qed

text \<open>Names: the first argument with the name, by its index.\<close>

lemma find_Suc: "find P (map Suc xs) = map_option Suc (find (\<lambda>i. P (Suc i)) xs)"
  by (induction xs) simp_all

lemma upt_Suc_map: "[0..<Suc n] = 0 # map Suc [0..<n]"
  by (simp add: upt_conv_Cons map_Suc_upt del: upt_Suc)

lemma get_id_loop_init:
  "get_id_loop (init_named_args k vals) name =
    (case find (\<lambda>i. fst (vals ! i) = Some name) [0..<length vals] of None \<Rightarrow> -1 | Some i \<Rightarrow> k + int i)"
proof (induction k vals rule: init_named_args.induct)
  case (2 k a vals)
  have "find (\<lambda>i. fst (((None, a) # vals) ! i) = Some name) [0..<Suc (length vals)] =
      map_option Suc (find (\<lambda>i. fst (vals ! i) = Some name) [0..<length vals])"
    unfolding upt_Suc_map by (simp add: find_Suc)
  with 2 show ?case by (simp split: option.splits del: upt_Suc)
next
  case (3 k n a vals)
  have "find (\<lambda>i. fst (((Some n, a) # vals) ! i) = Some name) [0..<Suc (length vals)] =
      (if n = name then Some 0 else map_option Suc (find (\<lambda>i. fst (vals ! i) = Some name) [0..<length vals]))"
    unfolding upt_Suc_map by (simp add: find_Suc)
  with 3 show ?case by (simp split: option.splits del: upt_Suc)
qed simp

lemma get_arg_at_make:
  assumes "length vals < 2 ^ 31" "\<forall>(n, a) \<in> set vals. arg_ty a \<noteq> none_type"
  shows "get_arg_at (make_format_args vals) (int i) = (if i < length vals then snd (vals ! i) else empty_arg)"
proof (cases "length vals \<le> 15")
  case False
  with assms(1) show ?thesis
    using unpacked_descriptor [of vals]
    by (simp add: get_arg_at_def make_format_args_def max_packed_args_def packed_arg_bits_def Let_def)
next
  case True
  show ?thesis
  proof (cases "i < 15")
    case False
    with True show ?thesis
      using packed_descriptor(1) [OF True]
      by (simp add: get_arg_at_def max_packed_args_def packed_arg_bits_def)
  next
    case i: True
    have t: "type_at (make_format_args vals) (int i) =
        (if i < length vals then arg_ty (snd (vals ! i)) else none_type)"
      using type_at_encode [OF packed_descriptor(2) [OF True], of i] True i
      by (simp add: split_def)
    have "arg_ty (snd (vals ! i)) \<noteq> none_type" if "i < length vals"
      using assms(2) nth_mem [OF that] by (auto simp: split_def)
    then show ?thesis
      using packed_descriptor(1) [OF True] True i t
      by (auto simp: get_arg_at_def make_format_args_def max_packed_args_def packed_arg_bits_def Let_def split_def)
  qed
qed

lemma has_named_make:
  assumes "length vals < 2 ^ 31"
  shows "has_named_args (make_format_args vals) \<longleftrightarrow> init_named_args 0 vals \<noteq> []"
proof -
  let ?ts = "map (\<lambda>(n, a). arg_ty a) vals"
  have "\<not> bit (make_descriptor ?ts) 62"
  proof (cases "length vals \<le> 15")
    case True
    then show ?thesis
      using bit_encode_types [of ?ts 62] by (simp add: make_descriptor_def max_packed_args_def packed_arg_bits_def)
  next
    case False
    have "length vals < 2 ^ 62" using assms by simp
    then have "\<not> bit (length vals) 62" by (simp add: bit_iff_odd)
    then show ?thesis
      using False by (simp add: make_descriptor_def max_packed_args_def packed_arg_bits_def bit_simps bit_flags)
  qed
  then have "bit (desc (make_format_args vals) AND has_named_args_bit) n \<longleftrightarrow>
      n = 62 \<and> init_named_args 0 vals \<noteq> []" for n
    by (auto simp: desc_make_format_args bit_simps bit_flags)
  then have iff: "bit (desc (make_format_args vals) AND has_named_args_bit) n \<longleftrightarrow>
      n = 62 \<and> init_named_args 0 vals \<noteq> []" for n .
  show ?thesis
  proof (cases "init_named_args 0 vals = []")
    case True
    have "desc (make_format_args vals) AND has_named_args_bit = 0"
      by (rule bit_word_eqI) (simp only: iff True, simp)
    then show ?thesis using True by (simp add: has_named_args_def)
  next
    case False
    have "bit (desc (make_format_args vals) AND has_named_args_bit) 62" unfolding iff using False by simp
    then show ?thesis using False by (auto simp: has_named_args_def)
  qed
qed

lemma get_id_make:
  assumes "length vals < 2 ^ 31"
  shows "get_id (make_format_args vals) name =
    (case find (\<lambda>i. fst (vals ! i) = Some name) [0..<length vals] of None \<Rightarrow> -1 | Some i \<Rightarrow> int i)"
proof -
  have "named (make_format_args vals) = init_named_args 0 vals" by (simp add: make_format_args_def Let_def)
  then have "get_id (make_format_args vals) name = get_id_loop (init_named_args 0 vals) name"
    by (simp add: get_id_def has_named_make [OF assms])
  then show ?thesis by (simp add: get_id_loop_init split: option.split del: upt_Suc)
qed

text \<open>
  C26. The arguments stored by \<open>make_format_args\<close>, with their types packed into the descriptor
  or kept beside the values, are found again by their position and by their name, the first
  one of several with the same name, and nothing else is found.
\<close>

theorem make_format_args_roundtrip:
  assumes "length vals < 2 ^ 31" "\<forall>(n, a) \<in> set vals. arg_ty a \<noteq> none_type"
  shows "get_arg_at (make_format_args vals) (int i) = (if i < length vals then snd (vals ! i) else empty_arg) \<and>
    get_arg_named (make_format_args vals) name =
      (case find (\<lambda>i. fst (vals ! i) = Some name) [0..<length vals] of
         None \<Rightarrow> empty_arg | Some j \<Rightarrow> snd (vals ! j))"
proof -
  have "j < length vals" if "find (\<lambda>i. fst (vals ! i) = Some name) [0..<length vals] = Some j" for j
    using that by (auto simp: find_Some_iff)
  then show ?thesis
    using get_arg_at_make [OF assms]
    by (auto simp: get_arg_named_def get_id_make [OF assms(1)] Let_def split: option.splits)
qed

theorem make_format_args_roundtrip_witness:
  "get_arg_at (make_format_args
     [(None, \<lparr>arg_ty = int_type, arg_val = V_int 42 :: (unit, unit) arg_value\<rparr>),
      (Some ''x'', \<lparr>arg_ty = bool_type, arg_val = V_bool True\<rparr>)]) 1 =
    \<lparr>arg_ty = bool_type, arg_val = V_bool True\<rparr>"
  using make_format_args_roundtrip [of
     "[(None, \<lparr>arg_ty = int_type, arg_val = V_int 42 :: (unit, unit) arg_value\<rparr>),
      (Some ''x'', \<lparr>arg_ty = bool_type, arg_val = V_bool True\<rparr>)]" 1]
  by simp

end
