(* ===== verification/Fmt_Unicode.thy ===== *)
theory Fmt_Unicode
  imports Fmt_Types
begin

unbundle bit_operations_syntax

text \<open>
  Text as UTF-8 in fmt/include/fmt/format.h and format-inl.h: the branchless decoder
  \<open>utf8_decode\<close>, the iteration over the code points of a string in blocks of four
  characters with a zero-padded tail, the display width and the index of a code point, and
  the tables of \<open>is_printable\<close>. A read behind the end of an array is \<open>Undefined\<close>; that
  none happens is part of the theorems.
\<close>

section \<open>The decoder\<close>

definition utf8_lengths :: "nat list" where
  "utf8_lengths = replicate 16 1 @ replicate 8 0 @ [2, 2, 2, 2, 3, 3, 4, 0]"

definition utf8_masks :: "nat list" where "utf8_masks = [0x00, 0x7f, 0x1f, 0x0f, 0x07]"
definition utf8_mins :: "nat list" where "utf8_mins = [4194304, 0, 128, 2048, 65536]"
definition utf8_shiftc :: "nat list" where "utf8_shiftc = [0, 18, 12, 6, 0]"
definition utf8_shifte :: "nat list" where "utf8_shifte = [0, 6, 4, 2, 0]"

text \<open>The results are the code point, the error flags and the offset of the next character.\<close>

definition utf8_decode :: "string \<Rightarrow> (nat \<times> nat \<times> nat) outcome" where
  "utf8_decode s =
     (if length s < 4 then Undefined
      else
        let len = utf8_lengths ! drop_bit 3 (code (s ! 0));
            nxt = len + of_bool (len = 0);
            c = push_bit 18 (code (s ! 0) AND utf8_masks ! len);
            c = c OR push_bit 12 (code (s ! 1) AND 0x3f);
            c = c OR push_bit 6 (code (s ! 2) AND 0x3f);
            c = c OR push_bit 0 (code (s ! 3) AND 0x3f);
            c = drop_bit (utf8_shiftc ! len) c;
            e = push_bit 6 (of_bool (c < utf8_mins ! len));
            e = e OR push_bit 7 (of_bool (drop_bit 11 c = 0x1b));
            e = e OR push_bit 8 (of_bool (c > 0x10FFFF));
            e = e OR drop_bit 2 (code (s ! 1) AND 0xc0);
            e = e OR drop_bit 4 (code (s ! 2) AND 0xc0);
            e = e OR drop_bit 6 (code (s ! 3));
            e = e XOR 0x2a;
            e = drop_bit (utf8_shifte ! len) e
        in Done (c, e, nxt))"

text \<open>What UTF-8 is: the scalar values and their encodings.\<close>

definition scalar :: "nat \<Rightarrow> bool" where
  "scalar cp \<longleftrightarrow> cp < 0x110000 \<and> \<not> (0xD800 \<le> cp \<and> cp < 0xE000)"

definition utf8_bytes :: "nat \<Rightarrow> nat list" where
  "utf8_bytes cp =
     (if cp < 0x80 then [cp]
      else if cp < 0x800 then [0xC0 + cp div 64, 0x80 + cp mod 64]
      else if cp < 0x10000 then [0xE0 + cp div 4096, 0x80 + cp div 64 mod 64, 0x80 + cp mod 64]
      else [0xF0 + cp div 262144, 0x80 + cp div 4096 mod 64, 0x80 + cp div 64 mod 64,
            0x80 + cp mod 64])"

definition utf8 :: "nat \<Rightarrow> string" where
  "utf8 cp = map char_of (utf8_bytes cp)"

subsection \<open>The decoder in arithmetic\<close>

lemma and_push_bit: "x AND push_bit k m = push_bit k (drop_bit k x AND m)" for x m :: nat
  by (rule bit_eqI) (auto simp: bit_simps)

lemma and_ones: "x AND 0x3f = x mod 64" "x AND 0x7f = x mod 128" "x AND 0x1f = x mod 32"
  "x AND 0x0f = x mod 16" "x AND 0x07 = x mod 8" for x :: nat
  using take_bit_eq_mask [of 6 x] take_bit_eq_mask [of 7 x] take_bit_eq_mask [of 5 x]
    take_bit_eq_mask [of 4 x] take_bit_eq_mask [of 3 x]
  by (simp_all add: take_bit_eq_mod mask_eq_exp_minus_1)

lemma or_disjoint: "y < 2 ^ n \<Longrightarrow> push_bit n x OR y = x * 2 ^ n + y" for x y :: nat
proof -
  assume y: "y < 2 ^ n"
  have "\<not> bit y k" if "n \<le> k" for k
  proof -
    have "y < 2 ^ k" using y that by (meson less_le_trans one_le_numeral power_increasing)
    then show ?thesis by (simp add: bit_iff_odd)
  qed
  then have "push_bit n x + y = push_bit n x OR y"
    by (intro disjunctive_add) (auto simp: bit_simps not_le)
  then show ?thesis by (simp add: push_bit_eq_mult)
qed

lemma top_bits: "b < 256 \<Longrightarrow> b AND 0xc0 = b div 64 * 64" for b :: nat
  using and_push_bit [of b 6 3] take_bit_eq_mask [of 2 "b div 64"]
  by (simp add: push_bit_eq_mult drop_bit_eq_div take_bit_eq_mod mask_eq_exp_minus_1)

lemma or_pack:
  "y < 2 ^ n \<Longrightarrow> push_bit (n + m) a OR push_bit m y = push_bit m (a * 2 ^ n + y)" for a y :: nat
  using or_disjoint [of y n a] by (simp add: add.commute flip: push_bit_or push_bit_push_bit)

lemma xor_eq_0_nat: "x XOR y = 0 \<longleftrightarrow> x = y" for x y :: nat
  by (metis bit.xor_self xor.assoc xor.left_neutral xor.right_neutral xor_self_eq)

lemma decode_code_point:
  fixes a x y z :: nat
  assumes "x < 64" "y < 64" "z < 64"
  shows "((push_bit 18 a OR push_bit 12 x) OR push_bit 6 y) OR push_bit 0 z =
    a * 262144 + x * 4096 + y * 64 + z"
  using or_pack [of x 6 12 a] or_pack [of y 6 6 "a * 64 + x"] or_disjoint [of z 6] assms
  by simp

text \<open>The word of the error flags, before it is shifted.\<close>

definition error_flags :: "bool \<Rightarrow> bool \<Rightarrow> bool \<Rightarrow> nat \<Rightarrow> nat \<Rightarrow> nat \<Rightarrow> nat" where
  "error_flags f1 f2 f3 t1 t2 t3 =
     (((((push_bit 6 (of_bool f1) OR push_bit 7 (of_bool f2)) OR
       push_bit 8 (of_bool f3)) OR t1 * 16) OR t2 * 4) OR t3) XOR 0x2a"

lemma error_flags:
  assumes t: "t1 < 4" "t2 < 4" "t3 < 4"
  shows "drop_bit 6 (error_flags f1 f2 f3 t1 t2 t3) = 0 \<longleftrightarrow> \<not> f1 \<and> \<not> f2 \<and> \<not> f3"
    and "drop_bit 4 (error_flags f1 f2 f3 t1 t2 t3) = 0 \<longleftrightarrow> \<not> f1 \<and> \<not> f2 \<and> \<not> f3 \<and> t1 = 2"
    and "drop_bit 2 (error_flags f1 f2 f3 t1 t2 t3) = 0 \<longleftrightarrow>
      \<not> f1 \<and> \<not> f2 \<and> \<not> f3 \<and> t1 = 2 \<and> t2 = 2"
    and "drop_bit 0 (error_flags f1 f2 f3 t1 t2 t3) = 0 \<longleftrightarrow>
      \<not> f1 \<and> \<not> f2 \<and> \<not> f3 \<and> t1 = 2 \<and> t2 = 2 \<and> t3 = 2"
proof -
  define F :: nat where "F = of_bool f1 + 2 * of_bool f2 + 4 * of_bool f3"
  have F: "F = 0 \<longleftrightarrow> \<not> f1 \<and> \<not> f2 \<and> \<not> f3" by (auto simp: F_def)
  have "(push_bit 6 (of_bool f1) OR push_bit 7 (of_bool f2)) OR push_bit 8 (of_bool f3) = push_bit 6 F"
    unfolding F_def by (cases f1; cases f2; cases f3; simp add: push_bit_eq_mult)
  then have e: "error_flags f1 f2 f3 t1 t2 t3 = (64 * F + 16 * t1 + t2 * 4 + t3) XOR 42"
    using or_pack [of t1 2 4 F] or_pack [of t2 2 2 "F * 4 + t1"]
      or_disjoint [of t3 2 "F * 16 + t1 * 4 + t2"] t
    by (simp add: error_flags_def push_bit_eq_mult)
  have d: "drop_bit k (error_flags f1 f2 f3 t1 t2 t3) = 0 \<longleftrightarrow>
      (64 * F + 16 * t1 + t2 * 4 + t3) div 2 ^ k = 42 div 2 ^ k" for k
    unfolding e drop_bit_xor xor_eq_0_nat by (simp add: drop_bit_eq_div)
  let ?n = "64 * F + 16 * t1 + t2 * 4 + t3"
  have "?n div 64 = F" "?n div 16 = F * 4 + t1" "?n div 4 = F * 16 + t1 * 4 + t2"
    using t by (intro div_nat_eqI; simp)+
  moreover have pair: "x * 4 + t = 4 * y + 2 \<longleftrightarrow> x = y \<and> t = 2" if "t < 4" for x y t :: nat
  proof
    assume eq: "x * 4 + t = 4 * y + 2"
    then have "x = y" using that by linarith
    with eq show "x = y \<and> t = 2" by simp
  qed simp
  moreover have "F * 4 + t1 = 2 \<longleftrightarrow> F = 0 \<and> t1 = 2"
    "F * 16 + t1 * 4 + t2 = 10 \<longleftrightarrow> F = 0 \<and> t1 = 2 \<and> t2 = 2"
    "?n = 42 \<longleftrightarrow> F = 0 \<and> t1 = 2 \<and> t2 = 2 \<and> t3 = 2"
    using pair [OF t(1), of F 0] pair [OF t(2), of "F * 4 + t1" 2]
      pair [OF t(3), of "F * 16 + t1 * 4 + t2" 10] by (simp_all add: algebra_simps numeral_2_eq_2)
  ultimately show "drop_bit 6 (error_flags f1 f2 f3 t1 t2 t3) = 0 \<longleftrightarrow> \<not> f1 \<and> \<not> f2 \<and> \<not> f3"
    "drop_bit 4 (error_flags f1 f2 f3 t1 t2 t3) = 0 \<longleftrightarrow> \<not> f1 \<and> \<not> f2 \<and> \<not> f3 \<and> t1 = 2"
    "drop_bit 2 (error_flags f1 f2 f3 t1 t2 t3) = 0 \<longleftrightarrow>
      \<not> f1 \<and> \<not> f2 \<and> \<not> f3 \<and> t1 = 2 \<and> t2 = 2"
    "drop_bit 0 (error_flags f1 f2 f3 t1 t2 t3) = 0 \<longleftrightarrow>
      \<not> f1 \<and> \<not> f2 \<and> \<not> f3 \<and> t1 = 2 \<and> t2 = 2 \<and> t3 = 2"
    using F d [of 0] by (simp_all add: d [of 6] d [of 4] d [of 2])
qed

text \<open>The value and the validity of four characters, by the class of the first one.\<close>

definition seq_length :: "nat \<Rightarrow> nat" where
  "seq_length b = (if b < 0x80 then 1 else if b < 0xC0 then 0 else if b < 0xE0 then 2
     else if b < 0xF0 then 3 else if b < 0xF8 then 4 else 0)"

lemma utf8_lengths_class: "b < 256 \<Longrightarrow> utf8_lengths ! (b div 8) = seq_length b"
proof -
  assume "b < 256"
  then have "b div 8 < 32" by linarith
  moreover have "list_all (\<lambda>k. utf8_lengths ! k = (if k < 16 then 1 else if k < 24 then 0
      else if k < 28 then 2 else if k < 30 then 3 else if k < 31 then 4 else 0)) [0..<32]"
    by code_simp
  ultimately have "utf8_lengths ! (b div 8) = (if b div 8 < 16 then 1 else if b div 8 < 24 then 0
      else if b div 8 < 28 then 2 else if b div 8 < 30 then 3 else if b div 8 < 31 then 4 else 0)"
    by (auto simp: list_all_iff)
  then show ?thesis unfolding seq_length_def by (auto split: if_splits)
qed

definition seq_value :: "nat \<Rightarrow> nat list \<Rightarrow> nat" where
  "seq_value n bs =
     (if n = 1 then bs ! 0 mod 128
      else if n = 2 then bs ! 0 mod 32 * 64 + bs ! 1 mod 64
      else if n = 3 then bs ! 0 mod 16 * 4096 + bs ! 1 mod 64 * 64 + bs ! 2 mod 64
      else bs ! 0 mod 8 * 262144 + bs ! 1 mod 64 * 4096 + bs ! 2 mod 64 * 64 + bs ! 3 mod 64)"

definition seq_min :: "nat \<Rightarrow> nat" where
  "seq_min n = (if n = 1 then 0 else if n = 2 then 128 else if n = 3 then 2048 else 65536)"

text \<open>The fields of the decoder for the bytes \<open>b0\<close> to \<open>b3\<close>.\<close>

definition wide_value :: "nat \<Rightarrow> nat \<Rightarrow> nat \<Rightarrow> nat \<Rightarrow> nat" where
  "wide_value x b1 b2 b3 = x * 262144 + b1 mod 64 * 4096 + b2 mod 64 * 64 + b3 mod 64"

lemma utf8_decode_fields:
  assumes "4 \<le> length s"
    and b: "b0 = code (s ! 0)" "b1 = code (s ! 1)" "b2 = code (s ! 2)" "b3 = code (s ! 3)"
  defines "n \<equiv> seq_length b0"
  defines "c \<equiv> drop_bit (utf8_shiftc ! n) (wide_value (b0 AND utf8_masks ! n) b1 b2 b3)"
  shows "utf8_decode s = Done (c, drop_bit (utf8_shifte ! n)
    (error_flags (c < utf8_mins ! n) (drop_bit 11 c = 27) (c > 0x10FFFF)
      (b1 div 64) (b2 div 64) (b3 div 64)), n + of_bool (n = 0))"
proof -
  have len: "utf8_lengths ! drop_bit 3 b0 = n"
    using utf8_lengths_class [of b0] by (simp add: n_def drop_bit_eq_div b)
  have tails: "drop_bit 2 (b1 AND 0xc0) = b1 div 64 * 16" "drop_bit 4 (b2 AND 0xc0) = b2 div 64 * 4"
    "drop_bit 6 b3 = b3 div 64"
    by (simp_all add: top_bits drop_bit_eq_div b)
  have wide: "((push_bit 18 x OR push_bit 12 (b1 AND 0x3f)) OR push_bit 6 (b2 AND 0x3f)) OR
      push_bit 0 (b3 AND 0x3f) = wide_value x b1 b2 b3" for x
    unfolding and_ones wide_value_def by (rule decode_code_point) simp_all
  have "\<not> length s < 4" using assms(1) by simp
  then show ?thesis
    unfolding utf8_decode_def Let_def b [symmetric] len wide tails c_def [symmetric]
      error_flags_def [symmetric]
    by (rule if_not_P)
qed

lemma wide_value_shift:
  "wide_value x b1 b2 b3 div 262144 = x"
  "wide_value x b1 b2 b3 div 4096 = x * 64 + b1 mod 64"
  "wide_value x b1 b2 b3 div 64 = x * 4096 + b1 mod 64 * 64 + b2 mod 64"
proof -
  have m: "b1 mod 64 < 64" "b2 mod 64 < 64" "b3 mod 64 < 64" by simp_all
  show "wide_value x b1 b2 b3 div 262144 = x"
    "wide_value x b1 b2 b3 div 4096 = x * 64 + b1 mod 64"
    "wide_value x b1 b2 b3 div 64 = x * 4096 + b1 mod 64 * 64 + b2 mod 64"
    unfolding wide_value_def using m by (intro div_nat_eqI; simp)+
qed

lemmas utf8_tables = utf8_masks_def utf8_mins_def utf8_shiftc_def utf8_shifte_def

text \<open>
  The decoder by the class of the first byte. No error means that the value is a scalar
  value that is not encoded too long, and that the other bytes are continuation bytes.
\<close>

lemma scalar_flags: "cp div 2048 \<noteq> 27 \<and> cp \<le> 0x10FFFF \<longleftrightarrow> scalar cp"
proof -
  have "cp div 2048 = 27 \<longleftrightarrow> 0xD800 \<le> cp \<and> cp < 0xE000"
    using div_nat_eqI [of 27 2048 cp] div_times_less_eq_dividend [of cp 2048] dividend_less_div_times [of 2048 cp]
    by auto
  then show ?thesis unfolding scalar_def by auto
qed

lemma utf8_decode_cases:
  assumes "4 \<le> length s"
    and b: "b0 = code (s ! 0)" "b1 = code (s ! 1)" "b2 = code (s ! 2)" "b3 = code (s ! 3)"
  shows "b0 < 0x80 \<Longrightarrow> utf8_decode s = Done (b0, 0, 1)"
    and "0x80 \<le> b0 \<Longrightarrow> b0 < 0xC0 \<or> 0xF8 \<le> b0 \<Longrightarrow>
      \<exists>c e. utf8_decode s = Done (c, e, 1) \<and> e \<noteq> 0"
    and "0xC0 \<le> b0 \<Longrightarrow> b0 < 0xE0 \<Longrightarrow> c = b0 mod 32 * 64 + b1 mod 64 \<Longrightarrow>
      \<exists>e. utf8_decode s = Done (c, e, 2) \<and> (e = 0 \<longleftrightarrow> 0x80 \<le> c \<and> b1 div 64 = 2)"
    and "0xE0 \<le> b0 \<Longrightarrow> b0 < 0xF0 \<Longrightarrow> c = b0 mod 16 * 4096 + b1 mod 64 * 64 + b2 mod 64 \<Longrightarrow>
      \<exists>e. utf8_decode s = Done (c, e, 3) \<and>
        (e = 0 \<longleftrightarrow> 0x800 \<le> c \<and> scalar c \<and> b1 div 64 = 2 \<and> b2 div 64 = 2)"
    and "0xF0 \<le> b0 \<Longrightarrow> b0 < 0xF8 \<Longrightarrow>
      c = b0 mod 8 * 262144 + b1 mod 64 * 4096 + b2 mod 64 * 64 + b3 mod 64 \<Longrightarrow>
      \<exists>e. utf8_decode s = Done (c, e, 4) \<and>
        (e = 0 \<longleftrightarrow> 0x10000 \<le> c \<and> scalar c \<and> b1 div 64 = 2 \<and> b2 div 64 = 2 \<and> b3 div 64 = 2)"
proof -
  note dec = utf8_decode_fields [OF assms]
  have "b1 < 256" "b2 < 256" "b3 < 256" by (simp_all add: b)
  then have t: "b1 div 64 < 4" "b2 div 64 < 4" "b3 div 64 < 4" by (simp_all add: less_mult_imp_div_less)
  note flags = error_flags [OF t]
  {
    assume b0: "b0 < 0x80"
    then have "b0 div 2048 \<noteq> 27" by simp
    with b0 show "utf8_decode s = Done (b0, 0, 1)"
      using flags(1) by (simp add: dec seq_length_def utf8_tables and_ones drop_bit_eq_div [of 18] drop_bit_eq_div [of 11] wide_value_shift)
  next
    assume b0: "0x80 \<le> b0" "b0 < 0xC0 \<or> 0xF8 \<le> b0"
    then have n: "seq_length (b0) = 0" by (auto simp: seq_length_def)
    let ?c = "wide_value 0 (b1) (b2) (b3)"
    have "?c < 4194304" using wide_value_shift(1) [of 0 b1 b2 b3] by simp
    then have "drop_bit 0 (error_flags (?c < 4194304) (drop_bit 11 ?c = 27) (1114111 < ?c)
        (b1 div 64) (b2 div 64) (b3 div 64)) \<noteq> 0"
      using flags(4) by blast
    then show "\<exists>c e. utf8_decode s = Done (c, e, 1) \<and> e \<noteq> 0"
      by (simp add: dec n utf8_tables)
  next
    assume b0: "0xC0 \<le> b0" "b0 < 0xE0" and c: "c = b0 mod 32 * 64 + b1 mod 64"
    have n: "seq_length (b0) = 2" using b0 by (simp add: seq_length_def)
    have "c < 2048" unfolding c by (simp add: mod_less_divisor)
    then have "c div 2048 = 0" "c \<le> 0x10FFFF" by simp_all
    then show "\<exists>e. utf8_decode s = Done (c, e, 2) \<and> (e = 0 \<longleftrightarrow> 0x80 \<le> c \<and> b1 div 64 = 2)"
      using flags(2) c
      by (simp add: dec n utf8_tables and_ones drop_bit_eq_div [of 12] drop_bit_eq_div [of 11] wide_value_shift not_less)
  next
    assume b0: "0xE0 \<le> b0" "b0 < 0xF0" and c: "c = b0 mod 16 * 4096 + b1 mod 64 * 64 + b2 mod 64"
    have n: "seq_length (b0) = 3" using b0 by (simp add: seq_length_def)
    show "\<exists>e. utf8_decode s = Done (c, e, 3) \<and>
        (e = 0 \<longleftrightarrow> 0x800 \<le> c \<and> scalar c \<and> b1 div 64 = 2 \<and> b2 div 64 = 2)"
      using flags(3) c
      by (simp add: dec n utf8_tables and_ones drop_bit_eq_div [of 6] drop_bit_eq_div [of 11]
          wide_value_shift not_less flip: scalar_flags)
  next
    assume b0: "0xF0 \<le> b0" "b0 < 0xF8" and
      c: "c = b0 mod 8 * 262144 + b1 mod 64 * 4096 + b2 mod 64 * 64 + b3 mod 64"
    have n: "seq_length (b0) = 4" using b0 by (simp add: seq_length_def)
    have "wide_value (b0 mod 8) b1 b2 b3 = c" by (simp add: c wide_value_def)
    then show "\<exists>e. utf8_decode s = Done (c, e, 4) \<and>
        (e = 0 \<longleftrightarrow> 0x10000 \<le> c \<and> scalar c \<and> b1 div 64 = 2 \<and> b2 div 64 = 2 \<and> b3 div 64 = 2)"
      using flags(4)
      by (simp add: dec n utf8_tables and_ones drop_bit_eq_div [of 11] not_less flip: scalar_flags)
  }
qed


subsection \<open>What the decoder accepts\<close>

lemma code_char_of [simp]: "n < 256 \<Longrightarrow> code (char_of n) = n"
  by (simp add: code_def)

lemma utf8_code_points:
  "cp < 0x80 \<Longrightarrow> utf8 cp = [char_of cp]"
  "0x80 \<le> cp \<Longrightarrow> cp < 0x800 \<Longrightarrow> utf8 cp = [char_of (0xC0 + cp div 64), char_of (0x80 + cp mod 64)]"
  "0x800 \<le> cp \<Longrightarrow> cp < 0x10000 \<Longrightarrow> utf8 cp =
    [char_of (0xE0 + cp div 4096), char_of (0x80 + cp div 64 mod 64), char_of (0x80 + cp mod 64)]"
  "0x10000 \<le> cp \<Longrightarrow> utf8 cp = [char_of (0xF0 + cp div 262144), char_of (0x80 + cp div 4096 mod 64),
    char_of (0x80 + cp div 64 mod 64), char_of (0x80 + cp mod 64)]"
  by (simp_all add: utf8_def utf8_bytes_def)

lemma lead_byte: "k < m \<Longrightarrow> (m * q + k) mod m = k" "k < m \<Longrightarrow> (m * q + k) div m = q" for m q k :: nat
  by (simp_all add: div_nat_eqI)

lemma tail_byte: "(0x80 + k mod 64) mod 64 = k mod 64" "(0x80 + k mod 64) div 64 = 2"
  "0x80 + k mod 64 < 256" for k :: nat
  proof -
  have "k mod 64 < 64" by simp
  then show "(0x80 + k mod 64) mod 64 = k mod 64" "(0x80 + k mod 64) div 64 = 2"
    "0x80 + k mod 64 < 256"
    using lead_byte [of "k mod 64" 64 2] by simp_all
qed

lemma regroup_digits:
  "k div 64 * 64 + k mod 64 = k"
  "k div 4096 * 4096 + k div 64 mod 64 * 64 + k mod 64 = k"
  "k div 262144 * 262144 + k div 4096 mod 64 * 4096 + k div 64 mod 64 * 64 + k mod 64 = k" for k :: nat
proof -
  show a: "k div 64 * 64 + k mod 64 = k" for k :: nat by (rule div_mult_mod_eq)
  have d: "k div 4096 = k div 64 div 64" "k div 262144 = k div 4096 div 64"
    by (simp_all add: div_mult2_eq [symmetric])
  show b: "k div 4096 * 4096 + k div 64 mod 64 * 64 + k mod 64 = k"
    using a [of "k div 64"] a [of k] unfolding d(1) by linarith
  show "k div 262144 * 262144 + k div 4096 mod 64 * 4096 + k div 64 mod 64 * 64 + k mod 64 = k"
    using a [of "k div 4096"] b unfolding d(2) by linarith
qed

lemma utf8_decode_utf8:
  assumes "scalar cp" "4 \<le> length (utf8 cp @ r)"
  shows "utf8_decode (utf8 cp @ r) = Done (cp, 0, length (utf8 cp))"
proof -
  let ?s = "utf8 cp @ r"
  note cases = utf8_decode_cases [OF assms(2) _ _ _ refl]
  have cp: "cp < 0x110000" using assms(1) by (simp add: scalar_def)
  consider "cp < 0x80" | "0x80 \<le> cp" "cp < 0x800" | "0x800 \<le> cp" "cp < 0x10000" | "0x10000 \<le> cp"
    by linarith
  then show ?thesis
  proof cases
    case 1
    then show ?thesis using cases(1) [of cp] by (simp add: utf8_code_points)
  next
    case 2
    then have k: "cp div 64 < 32" by (simp add: less_mult_imp_div_less)
    have lead: "(0xC0 + cp div 64) mod 32 = cp div 64" using lead_byte(1) [OF k, of 6] by simp
    have b: "0xC0 + cp div 64 = code (?s ! 0)" "0x80 + cp mod 64 = code (?s ! 1)"
      using k tail_byte(3) [of cp] by (simp_all add: utf8_code_points 2)
    have "\<exists>e. utf8_decode ?s = Done (cp, e, 2) \<and> (e = 0 \<longleftrightarrow> 0x80 \<le> cp \<and> (0x80 + cp mod 64) div 64 = 2)"
      using k by (intro cases(3) [OF b refl]) (simp_all only: lead tail_byte regroup_digits)
    then show ?thesis using 2 tail_byte(2) [of cp] by (simp add: utf8_code_points)
  next
    case 3
    then have k: "cp div 4096 < 16" by (simp add: less_mult_imp_div_less)
    have lead: "(0xE0 + cp div 4096) mod 16 = cp div 4096" using lead_byte(1) [OF k, of 14] by simp
    have b: "0xE0 + cp div 4096 = code (?s ! 0)" "0x80 + cp div 64 mod 64 = code (?s ! 1)"
      "0x80 + cp mod 64 = code (?s ! 2)"
      using k tail_byte(3) [of cp] tail_byte(3) [of "cp div 64"] by (simp_all add: utf8_code_points 3)
    have "\<exists>e. utf8_decode ?s = Done (cp, e, 3) \<and> (e = 0 \<longleftrightarrow> 0x800 \<le> cp \<and> scalar cp \<and>
        (0x80 + cp div 64 mod 64) div 64 = 2 \<and> (0x80 + cp mod 64) div 64 = 2)"
      using k by (intro cases(4) [OF b]) (simp_all only: lead tail_byte regroup_digits)
    then show ?thesis
      using 3 assms(1) tail_byte(2) [of cp] tail_byte(2) [of "cp div 64"] by (simp add: utf8_code_points)
  next
    case 4
    then have k: "cp div 262144 < 8" using cp by (simp add: less_mult_imp_div_less)
    have lead: "(0xF0 + cp div 262144) mod 8 = cp div 262144" using lead_byte(1) [OF k, of 30] by simp
    have b: "0xF0 + cp div 262144 = code (?s ! 0)" "0x80 + cp div 4096 mod 64 = code (?s ! 1)"
      "0x80 + cp div 64 mod 64 = code (?s ! 2)" "0x80 + cp mod 64 = code (?s ! 3)"
      using k tail_byte(3) [of cp] tail_byte(3) [of "cp div 64"] tail_byte(3) [of "cp div 4096"]
      by (simp_all add: utf8_code_points 4 numeral_3_eq_3)
    have "\<exists>e. utf8_decode ?s = Done (cp, e, 4) \<and> (e = 0 \<longleftrightarrow> 0x10000 \<le> cp \<and> scalar cp \<and>
        (0x80 + cp div 4096 mod 64) div 64 = 2 \<and> (0x80 + cp div 64 mod 64) div 64 = 2 \<and>
        (0x80 + cp mod 64) div 64 = 2)"
      using k by (intro utf8_decode_cases(5) [OF assms(2) b]) (simp_all only: lead tail_byte regroup_digits)
    then show ?thesis
      using 4 assms(1) tail_byte(2) [of cp] tail_byte(2) [of "cp div 64"] tail_byte(2) [of "cp div 4096"]
      by (simp add: utf8_code_points)
  qed
qed


lemma take_chars:
  assumes "4 \<le> length s"
  shows "take 1 s = [s ! 0]" "take 2 s = [s ! 0, s ! 1]" "take 3 s = [s ! 0, s ! 1, s ! 2]"
    "take 4 s = [s ! 0, s ! 1, s ! 2, s ! 3]"
proof -
  obtain a b c d r where "s = a # b # c # d # r"
    using assms by (auto simp: Suc_le_length_iff numeral_eq_Suc)
  then show "take 1 s = [s ! 0]" "take 2 s = [s ! 0, s ! 1]" "take 3 s = [s ! 0, s ! 1, s ! 2]"
    "take 4 s = [s ! 0, s ! 1, s ! 2, s ! 3]"
    by simp_all
qed

lemma lead_byte_sum: "m * q \<le> b \<Longrightarrow> b < m * q + m \<Longrightarrow> m * q + b mod m = b" for m q b :: nat
  using lead_byte(1) [of "b - m * q" m q] by simp

lemma tail_byte_sum: "b div 64 = 2 \<Longrightarrow> 0x80 + b mod 64 = b" for b :: nat
  using div_mult_mod_eq [of b 64] by simp

lemma regroup64:
  "a * 4096 + b * 64 + c = 64 * (a * 64 + b) + c"
  "a * 262144 + b * 4096 + c * 64 + d = 64 * (a * 4096 + b * 64 + c) + d" for a b c d :: nat
  by simp_all

lemma utf8_decode_accepts:
  assumes len: "4 \<le> length s" and ok: "utf8_decode s = Done (c, 0, n)"
  shows "scalar c \<and> n = length (utf8 c) \<and> take n s = utf8 c"
proof -
  define b where "b i = code (s ! i)" for i
  have ch: "s ! i = char_of (b i)" for i by (simp add: b_def code_def)
  note cases = utf8_decode_cases [OF len b_def b_def b_def b_def]
  have m: "b 0 mod 32 < 32" "b 0 mod 16 < 16" "b 1 mod 64 < 64" "b 2 mod 64 < 64" "b 3 mod 64 < 64"
    by simp_all
  consider "b 0 < 0x80" | "0x80 \<le> b 0" "b 0 < 0xC0 \<or> 0xF8 \<le> b 0" | "0xC0 \<le> b 0" "b 0 < 0xE0"
    | "0xE0 \<le> b 0" "b 0 < 0xF0" | "0xF0 \<le> b 0" "b 0 < 0xF8"
    by linarith
  then show ?thesis
  proof cases
    case 1
    then have "c = b 0" "n = 1" using cases(1) ok by simp_all
    with 1 show ?thesis using take_chars(1) [OF len] ch [of 0] by (simp add: utf8_code_points scalar_def)
  next
    case 2
    then show ?thesis using cases(2) ok by auto
  next
    case 3
    then have c: "c = b 0 mod 32 * 64 + b 1 mod 64" "n = 2" "0x80 \<le> c" "b 1 div 64 = 2"
      using cases(3) [OF 3 refl] ok by auto
    have "c < 0x800" using c(1) m by linarith
    moreover have "c div 64 = b 0 mod 32" "c mod 64 = b 1 mod 64"
      using lead_byte [of "b 1 mod 64" 64 "b 0 mod 32"] m c(1) by (simp_all add: mult.commute)
    ultimately have "utf8 c = [char_of (b 0), char_of (b 1)]"
      using utf8_code_points(2) [OF c(3)] lead_byte_sum [of 32 6 "b 0"] 3 tail_byte_sum [OF c(4)] by simp
    with \<open>c < 0x800\<close> c(2) show ?thesis by (simp only: take_chars [OF len] ch) (simp add: scalar_def)
  next
    case 4
    then have c: "c = b 0 mod 16 * 4096 + b 1 mod 64 * 64 + b 2 mod 64" "n = 3" "0x800 \<le> c" "scalar c"
      "b 1 div 64 = 2" "b 2 div 64 = 2"
      using cases(4) [OF 4 refl] ok by auto
    have lt: "c < 0x10000" using c(1) m by linarith
    have w: "c = wide_value 0 (b 0 mod 16) (b 1) (b 2)" by (simp add: c(1) wide_value_def)
    have d: "c div 4096 = b 0 mod 16" "c div 64 = b 0 mod 16 * 64 + b 1 mod 64"
      using m by (simp_all only: w wide_value_shift) simp_all
    have "c = 64 * (c div 64) + b 2 mod 64" unfolding d(2) by (subst c(1)) (rule regroup64)
    moreover have "c div 64 = 64 * (b 0 mod 16) + b 1 mod 64" unfolding d by simp
    ultimately have "c mod 64 = b 2 mod 64" "c div 64 mod 64 = b 1 mod 64"
      using m lead_byte(1) by metis+
    moreover note d(1)
    ultimately have "utf8 c = [char_of (b 0), char_of (b 1), char_of (b 2)]"
      using utf8_code_points(3) [OF c(3) lt] lead_byte_sum [of 16 14 "b 0"] 4 tail_byte_sum [OF c(5)]
        tail_byte_sum [OF c(6)] by simp
    with c(2,4) show ?thesis by (simp only: take_chars [OF len] ch) simp
  next
    case 5
    then have c: "c = b 0 mod 8 * 262144 + b 1 mod 64 * 4096 + b 2 mod 64 * 64 + b 3 mod 64" "n = 4"
      "0x10000 \<le> c" "scalar c" "b 1 div 64 = 2" "b 2 div 64 = 2" "b 3 div 64 = 2"
      using cases(5) [OF 5 refl] ok by auto
    have w: "c = wide_value (b 0 mod 8) (b 1) (b 2) (b 3)" by (simp add: c(1) wide_value_def)
    have d: "c div 262144 = b 0 mod 8" "c div 4096 = b 0 mod 8 * 64 + b 1 mod 64"
      "c div 64 = b 0 mod 8 * 4096 + b 1 mod 64 * 64 + b 2 mod 64"
      by (simp_all only: w wide_value_shift)
    have "c = 64 * (c div 64) + b 3 mod 64" unfolding d(3) by (subst c(1)) (rule regroup64)
    moreover have "c div 64 = 64 * (c div 4096) + b 2 mod 64" unfolding d by (rule regroup64)
    moreover have "c div 4096 = 64 * (b 0 mod 8) + b 1 mod 64" unfolding d by simp
    ultimately have e: "c mod 64 = b 3 mod 64" "c div 64 mod 64 = b 2 mod 64" "c div 4096 mod 64 = b 1 mod 64"
      using m lead_byte(1) by metis+
    then have "utf8 c = [char_of (b 0), char_of (b 1), char_of (b 2), char_of (b 3)]"
      using utf8_code_points(4) [OF c(3)] lead_byte_sum [of 8 30 "b 0"] 5 tail_byte_sum [OF c(5)]
        tail_byte_sum [OF c(6)] tail_byte_sum [OF c(7)] d(1) e by simp
    with c(2,4) show ?thesis by (simp only: take_chars [OF len] ch) simp
  qed
qed

lemma utf8_decode_total:
  assumes "4 \<le> length s"
  obtains c e n where "utf8_decode s = Done (c, e, n)" "0 < n"
  using utf8_decode_fields [OF assms refl refl refl refl] that
  by (cases "seq_length (code (s ! 0)) = 0") force+

lemma utf8_decode_next: "utf8_decode s = Done (c, e, n) \<Longrightarrow> 0 < n"
proof (cases "4 \<le> length s")
  case True
  assume "utf8_decode s = Done (c, e, n)"
  with utf8_decode_total [OF True] show ?thesis by auto
next
  case False
  assume "utf8_decode s = Done (c, e, n)"
  with False show ?thesis by (simp add: utf8_decode_def)
qed



section \<open>Iterating over code points\<close>

definition invalid_code_point :: nat where "invalid_code_point = 0xFFFFFFFF"

text \<open>
  The callback gets the code point, its position and its length in the string and threads a
  state \<open>'s\<close>; it says whether to go on. The lambda \<open>decode\<close> returns how far to advance, or
  \<open>None\<close> for the null pointer.
\<close>

type_synonym 's codepoint_fun = "nat \<Rightarrow> nat \<Rightarrow> nat \<Rightarrow> 's \<Rightarrow> bool \<times> 's"

definition decode_one :: "'s codepoint_fun \<Rightarrow> string \<Rightarrow> nat \<Rightarrow> 's \<Rightarrow> (nat option \<times> 's) outcome" where
  "decode_one f buf_ptr ptr st =
     (case utf8_decode buf_ptr of
        Done (cp, err, nxt) \<Rightarrow>
          let n = (if err \<noteq> 0 then 1 else nxt);
              (result, st') = f (if err \<noteq> 0 then invalid_code_point else cp) ptr n st
          in Done (if result then Some n else None, st')
      | _ \<Rightarrow> Undefined)"

lemma decode_one_advances: "decode_one f buf p st = Done (Some n, st') \<Longrightarrow> 0 < n"
  by (auto simp: decode_one_def Let_def dest: utf8_decode_next split: outcome.splits if_splits prod.splits)

function blocks_loop ::
  "'s codepoint_fun \<Rightarrow> string \<Rightarrow> nat \<Rightarrow> 's \<Rightarrow> (nat option \<times> 's) outcome" where
  "blocks_loop f s p st =
     (if p + 3 < length s then
        (case decode_one f (drop p s) p st of
           Done (Some n, st') \<Rightarrow> blocks_loop f s (p + n) st'
         | Done (None, st') \<Rightarrow> Done (None, st')
         | _ \<Rightarrow> Undefined)
      else Done (Some p, st))"
  by pat_completeness auto
termination
  by (relation "measure (\<lambda>(f, s, p, st). length s - p)") (auto dest: decode_one_advances)

function tail_loop ::
  "'s codepoint_fun \<Rightarrow> string \<Rightarrow> nat \<Rightarrow> nat \<Rightarrow> nat \<Rightarrow> 's \<Rightarrow> 's outcome" where
  "tail_loop f buf left k p st =
     (case decode_one f (drop k buf) p st of
        Done (Some n, st') \<Rightarrow>
          if k + n < left then tail_loop f buf left (k + n) (p + n) st' else Done st'
      | Done (None, st') \<Rightarrow> Done st'
      | _ \<Rightarrow> Undefined)"
  by pat_completeness auto
termination
  by (relation "measure (\<lambda>(f, buf, left, k, p, st). left - k)") (auto dest: decode_one_advances)

declare blocks_loop.simps [simp del] tail_loop.simps [simp del]

definition for_each_codepoint :: "string \<Rightarrow> 's codepoint_fun \<Rightarrow> 's \<Rightarrow> 's outcome" where
  "for_each_codepoint s f st =
     (case (if 4 \<le> length s then blocks_loop f s 0 st else Done (Some 0, st)) of
        Done (Some p, st') \<Rightarrow>
          let left = length s - p in
          if left \<noteq> 0 then
            tail_loop f (drop p s @ replicate (7 - left) (char_of (0 :: nat))) left 0 p st'
          else Done st'
      | Done (None, st') \<Rightarrow> Done st'
      | _ \<Rightarrow> Undefined)"

text \<open>
  The reference: the string is cut into encoded scalar values and single characters that do
  not start one, and the callback sees the pieces from left to right.
\<close>

definition first_char :: "string \<Rightarrow> nat \<times> nat" where
  "first_char s =
     (case utf8_decode (s @ replicate 3 (char_of (0 :: nat))) of
        Done (cp, err, nxt) \<Rightarrow> if err \<noteq> 0 then (invalid_code_point, 1) else (cp, nxt)
      | _ \<Rightarrow> (invalid_code_point, 1))"

lemma first_char_length: "0 < snd (first_char s)"
  by (auto simp: first_char_def dest: utf8_decode_next split: outcome.splits)

function code_points :: "string \<Rightarrow> (nat \<times> nat) list" where
  "code_points s = (if s = [] then [] else first_char s # code_points (drop (snd (first_char s)) s))"
  by pat_completeness auto
termination
  by (relation "measure length") (auto simp: first_char_length)

declare code_points.simps [simp del]

fun visit :: "'s codepoint_fun \<Rightarrow> (nat \<times> nat) list \<Rightarrow> nat \<Rightarrow> 's \<Rightarrow> 's" where
  "visit f [] p st = st"
| "visit f ((cp, n) # cps) p st =
     (let (result, st') = f cp p n st in if result then visit f cps (p + n) st' else st')"

lemma utf8_decode_first_four:
  "4 \<le> length s \<Longrightarrow> 4 \<le> length t \<Longrightarrow> take 4 s = take 4 t \<Longrightarrow> utf8_decode s = utf8_decode t"
proof -
  assume a: "4 \<le> length s" "4 \<le> length t" "take 4 s = take 4 t"
  have "s ! i = t ! i" if "i < 4" for i using a(3) that by (metis nth_take)
  with a show ?thesis by (simp add: utf8_decode_def)
qed

lemma utf8_tail_bytes: "i < length (utf8_bytes cp) \<Longrightarrow> 0 < i \<Longrightarrow> \<exists>k. utf8_bytes cp ! i = 0x80 + k mod 64"
  by (cases i; cases "i - 1"; cases "i - 2") (simp_all add: utf8_bytes_def split: if_splits, blast+)

lemma utf8_tail_not_zero: "i < length (utf8 cp) \<Longrightarrow> 0 < i \<Longrightarrow> utf8 cp ! i \<noteq> char_of (0 :: nat)"
proof
  assume i: "i < length (utf8 cp)" "0 < i" and eq: "utf8 cp ! i = char_of (0 :: nat)"
  then obtain k where "utf8_bytes cp ! i = 0x80 + k mod 64"
    using utf8_tail_bytes [of i cp] by (auto simp: utf8_def)
  then have "utf8 cp ! i = char_of (0x80 + k mod 64)" using i by (simp add: utf8_def)
  with eq have "code (char_of (0x80 + k mod 64)) = code (char_of (0 :: nat))" by simp
  then show False using tail_byte(3) [of k] by simp
qed

lemma first_char_le: "s \<noteq> [] \<Longrightarrow> snd (first_char s) \<le> length s"
proof -
  assume s: "s \<noteq> []"
  let ?z = "replicate 3 (char_of (0 :: nat))"
  have len: "4 \<le> length (s @ ?z)" using s by (cases s) auto
  obtain c e n where d: "utf8_decode (s @ ?z) = Done (c, e, n)"
    using utf8_decode_total [OF len] by blast
  show ?thesis
  proof (cases "e = 0")
    case True
    with d have a: "n = length (utf8 c)" "take n (s @ ?z) = utf8 c"
      using utf8_decode_accepts [OF len] by blast+
    have "\<not> length s < n"
    proof
      assume l: "length s < n"
      have "n \<le> length (s @ ?z)" using a by (metis length_take min.cobounded1)
      then have "(s @ ?z) ! length s = char_of (0 :: nat)" by (simp add: nth_append)
      moreover have "(s @ ?z) ! length s = utf8 c ! length s" using a(2) l by (metis nth_take)
      ultimately show False using utf8_tail_not_zero [of "length s" c] l a(1) s by simp
    qed
    with d True show ?thesis by (simp add: first_char_def)
  next
    case False
    with d show ?thesis using s by (cases s) (simp_all add: first_char_def)
  qed
qed

lemma decode_one_first:
  assumes "t \<noteq> []" "4 \<le> length b" "take 4 b = take 4 (t @ replicate 3 (char_of (0 :: nat)))"
  shows "decode_one f b p st =
    (let (cp, n) = first_char t; (result, st') = f cp p n st
     in Done (if result then Some n else None, st'))"
proof -
  have len: "4 \<le> length (t @ replicate 3 (char_of (0 :: nat)))" using assms(1) by (cases t) auto
  have eq: "utf8_decode b = utf8_decode (t @ replicate 3 (char_of (0 :: nat)))"
    using utf8_decode_first_four [OF assms(2) len assms(3)] .
  obtain c e n where "utf8_decode b = Done (c, e, n)"
    using utf8_decode_total [OF assms(2)] by blast
  then show ?thesis unfolding decode_one_def first_char_def eq [symmetric] by (simp add: Let_def split: prod.split)
qed

lemma visit_first:
  "s \<noteq> [] \<Longrightarrow> visit f (code_points s) p st =
    (let (cp, n) = first_char s; (result, st') = f cp p n st
     in if result then visit f (code_points (drop n s)) (p + n) st' else st')"
  by (cases "first_char s") (subst code_points.simps, simp)

lemma blocks_loop_visits:
  "p \<le> length s \<Longrightarrow>
    (case blocks_loop f s p st of
       Done (Some q, st') \<Rightarrow> q \<le> length s \<and> length s < q + 4 \<and>
         visit f (code_points (drop p s)) p st = visit f (code_points (drop q s)) q st'
     | Done (None, st') \<Rightarrow> visit f (code_points (drop p s)) p st = st'
     | _ \<Rightarrow> False)"
proof (induction f s p st rule: blocks_loop.induct)
  case (1 f s p st)
  show ?case
  proof (cases "p + 3 < length s")
    case False
    with 1(2) show ?thesis by (subst blocks_loop.simps) simp
  next
    case True
    then have d: "drop p s \<noteq> []" "4 \<le> length (drop p s)" by simp_all
    obtain cp n where c: "first_char (drop p s) = (cp, n)" by fastforce
    obtain r st' where f: "f cp p n st = (r, st')" by fastforce
    have one: "decode_one f (drop p s) p st = Done (if r then Some n else None, st')"
      using decode_one_first [OF d, of f p st] d(2) by (simp add: c f)
    have v: "visit f (code_points (drop p s)) p st =
        (if r then visit f (code_points (drop (p + n) s)) (p + n) st' else st')"
      using visit_first [OF d(1), of f p st] by (simp add: c f add.commute)
    have n: "p + n \<le> length s" using first_char_le [OF d(1)] c 1(2) by simp
    show ?thesis
    proof (cases r)
      case r: True
      with one have one': "decode_one f (drop p s) p st = Done (Some n, st')" by simp
      have v': "visit f (code_points (drop p s)) p st = visit f (code_points (drop (p + n) s)) (p + n) st'"
        using v r by simp
      have step: "blocks_loop f s p st = blocks_loop f s (p + n) st'"
        by (subst blocks_loop.simps) (simp add: True one')
      show ?thesis unfolding v' step using 1(1) [OF True one' refl refl n] .
    next
      case False
      with one v True show ?thesis by (subst blocks_loop.simps) simp
    qed
  qed
qed

lemma tail_loop_visits:
  assumes "length t \<le> 3"
  shows "k < length t \<Longrightarrow>
    tail_loop f (t @ replicate (7 - length t) (char_of (0 :: nat))) (length t) k p st =
      Done (visit f (code_points (drop k t)) p st)"
proof (induction f "t @ replicate (7 - length t) (char_of (0 :: nat))" "length t" k p st rule: tail_loop.induct)
  case (1 f k p st)
  let ?b = "drop k (t @ replicate (7 - length t) (char_of (0 :: nat)))"
  have t: "drop k t \<noteq> []" using 1(2) by simp
  have b: "?b = drop k t @ replicate (7 - length t) (char_of (0 :: nat))" using 1(2) by simp
  have "4 \<le> length ?b" using 1(2) assms by simp
  moreover have "take 4 ?b = take 4 (drop k t @ replicate 3 (char_of (0 :: nat)))"
    unfolding b using 1(2) assms by (simp add: min_def) linarith
  ultimately have one: "decode_one f ?b p st = (let (cp, n) = first_char (drop k t); (result, st') = f cp p n st
     in Done (if result then Some n else None, st'))"
    by (rule decode_one_first [OF t])
  obtain cp n where c: "first_char (drop k t) = (cp, n)" by fastforce
  obtain r st' where f: "f cp p n st = (r, st')" by fastforce
  have v: "visit f (code_points (drop k t)) p st =
      (if r then visit f (code_points (drop (k + n) t)) (p + n) st' else st')"
    using visit_first [OF t, of f p st] by (simp add: c f add.commute)
  show ?case
  proof (cases r)
    case r: True
    with one have one': "decode_one f ?b p st = Done (Some n, st')" by (simp add: c f)
    show ?thesis
    proof (cases "k + n < length t")
      case True
      from 1(1) [OF one' refl refl this this] r one' v True show ?thesis
        by (subst tail_loop.simps) simp
    next
      case False
      with r one' v show ?thesis by (subst tail_loop.simps) (simp add: code_points.simps [of "[]"])
    qed
  next
    case False
    with one v show ?thesis by (subst tail_loop.simps) (simp add: c f)
  qed
qed

lemma for_each_codepoint_eq:
  "for_each_codepoint s f st = Done (visit f (code_points s) 0 st)"
proof -
  have nil: "visit f (code_points []) p st = st" for p st by (simp add: code_points.simps)
  have tail: "(let left = length s - p in
       if left \<noteq> 0 then tail_loop f (drop p s @ replicate (7 - left) (char_of (0 :: nat))) left 0 p st'
       else Done st') = Done (visit f (code_points (drop p s)) p st')"
    if "p \<le> length s" "length s < p + 4" for p st'
    using tail_loop_visits [of "drop p s" 0 f p st'] that nil by (auto simp: Let_def)
  show ?thesis
  proof (cases "4 \<le> length s")
    case True
    then show ?thesis
      using blocks_loop_visits [of 0 s f st] tail
      by (auto simp: for_each_codepoint_def split: outcome.splits option.splits)
  next
    case False
    then show ?thesis using tail [of 0 st] by (simp add: for_each_codepoint_def)
  qed
qed

section \<open>Display width and index of a code point\<close>

definition is_wide :: "nat \<Rightarrow> bool" where
  "is_wide cp \<longleftrightarrow> cp \<ge> 0x1100 \<and>
     (cp \<le> 0x115f \<or> cp = 0x2329 \<or> cp = 0x232a \<or>
      (cp \<ge> 0x2e80 \<and> cp \<le> 0xa4cf \<and> cp \<noteq> 0x303f) \<or>
      (cp \<ge> 0xac00 \<and> cp \<le> 0xd7a3) \<or>
      (cp \<ge> 0xf900 \<and> cp \<le> 0xfaff) \<or>
      (cp \<ge> 0xfe10 \<and> cp \<le> 0xfe19) \<or>
      (cp \<ge> 0xfe30 \<and> cp \<le> 0xfe6f) \<or>
      (cp \<ge> 0xff00 \<and> cp \<le> 0xff60) \<or>
      (cp \<ge> 0xffe0 \<and> cp \<le> 0xffe6) \<or>
      (cp \<ge> 0x20000 \<and> cp \<le> 0x2fffd) \<or>
      (cp \<ge> 0x30000 \<and> cp \<le> 0x3fffd) \<or>
      (cp \<ge> 0x1f300 \<and> cp \<le> 0x1f64f) \<or>
      (cp \<ge> 0x1f900 \<and> cp \<le> 0x1f9ff))"

definition count_code_points :: "nat codepoint_fun" where
  "count_code_points cp p n cnt = (True, cnt + (1 + of_bool (is_wide cp)))"

definition compute_width :: "string \<Rightarrow> nat outcome" where
  "compute_width s = for_each_codepoint s count_code_points 0"

definition find_code_point :: "(nat \<times> nat) codepoint_fun" where
  "find_code_point cp p len = (\<lambda>(n, result). if n \<noteq> 0 then (True, (n - 1, result)) else (False, (n, p)))"

definition code_point_index :: "string \<Rightarrow> nat \<Rightarrow> nat outcome" where
  "code_point_index s n =
     bind_outcome (for_each_codepoint s find_code_point (n, length s)) (\<lambda>(n, result). Done result)"

lemma sum_code_points: "sum_list (map snd (code_points s)) = length s"
proof (induction s rule: code_points.induct)
  case (1 s)
  show ?case
  proof (cases "s = []")
    case True
    then show ?thesis by (simp add: code_points.simps)
  next
    case False
    with 1 first_char_le [OF False] show ?thesis by (subst code_points.simps) simp
  qed
qed

text \<open>
  C33. The iteration over code points - blocks of four characters read in place, the last
  ones from a zero-padded copy - ends, never reads outside its arrays and shows the callback
  exactly the pieces the reference cuts the string into, at their positions; the pieces are not
  empty and make up the whole string.
\<close>

theorem for_each_codepoint_spec:
  "for_each_codepoint s f st = Done (visit f (code_points s) 0 st) \<and>
   sum_list (map snd (code_points s)) = length s \<and> 0 \<notin> set (map snd (code_points s))"
proof -
  have "\<forall>(cp, n) \<in> set (code_points s). 0 < n"
  proof (induction s rule: code_points.induct)
    case (1 s)
    then show ?case
      using first_char_length [of s] by (subst code_points.simps) (auto split: prod.splits)
  qed
  then show ?thesis using for_each_codepoint_eq sum_code_points by force
qed

lemma visit_width:
  "visit count_code_points cps p w = w + sum_list (map (\<lambda>(cp, n). 1 + of_bool (is_wide cp)) cps)"
  by (induction cps arbitrary: p w) (auto simp: count_code_points_def)

lemma compute_width_eq:
  "compute_width s = Done (sum_list (map (\<lambda>(cp, n). 1 + of_bool (is_wide cp)) (code_points s)))"
  by (simp add: compute_width_def for_each_codepoint_eq visit_width)

lemma visit_index:
  "snd (visit find_code_point cps p (n, r)) =
    (if n < length cps then p + sum_list (map snd (take n cps)) else r)"
  by (induction cps arbitrary: p n) (auto simp: find_code_point_def take_Cons split: nat.split)

lemma code_point_index_eq:
  "code_point_index s n = Done (sum_list (map snd (take n (code_points s))))"
proof -
  have "sum_list (map snd (take n (code_points s))) = length s" if "length (code_points s) \<le> n"
    using that sum_code_points [of s] by simp
  then show ?thesis
    by (cases "visit find_code_point (code_points s) 0 (n, length s)")
      (use visit_index [of "code_points s" 0 n "length s"] in
        \<open>auto simp: code_point_index_def for_each_codepoint_eq not_less split: if_splits\<close>)
qed

text \<open>On a well-formed text the pieces are the encoded code points.\<close>

lemma utf8_not_Nil [simp]: "utf8 cp \<noteq> []"
  by (simp add: utf8_def utf8_bytes_def)

lemma first_char_utf8: "scalar cp \<Longrightarrow> first_char (utf8 cp @ r) = (cp, length (utf8 cp))"
proof -
  assume cp: "scalar cp"
  have "4 \<le> length (utf8 cp @ (r @ replicate 3 (char_of (0 :: nat))))"
    by (cases "utf8 cp") (auto simp: Suc_le_eq)
  from utf8_decode_utf8 [OF cp this] show ?thesis by (simp add: first_char_def)
qed

lemma code_points_utf8:
  "\<forall>cp \<in> set cps. scalar cp \<Longrightarrow>
    code_points (concat (map utf8 cps)) = map (\<lambda>cp. (cp, length (utf8 cp))) cps"
proof (induction cps)
  case Nil
  show ?case by (simp add: code_points.simps)
next
  case (Cons cp cps)
  then show ?case by (subst code_points.simps) (simp add: first_char_utf8)
qed

lemma code_point_index_concat:
  assumes "\<forall>cp \<in> set cps. scalar cp"
  shows "code_point_index (concat (map utf8 cps)) n = Done (length (concat (map utf8 (take n cps))))"
  using code_points_utf8 [OF assms]
  by (simp add: code_point_index_eq take_map [symmetric] length_concat comp_def)

lemma compute_width_concat:
  assumes "\<forall>cp \<in> set cps. scalar cp"
  shows "compute_width (concat (map utf8 cps)) = Done (\<Sum>cp \<leftarrow> cps. if is_wide cp then 2 else 1)"
proof -
  have "Suc (of_bool b) = (if b then 2 else 1)" for b by simp
  then show ?thesis
    using code_points_utf8 [OF assms] by (simp add: compute_width_eq comp_def)
qed

text \<open>
  Of a well-formed UTF-8 text, \<open>code_point_index\<close> finds where its n-th code point
  starts, so that cutting there never splits a code point, and \<open>compute_width\<close> is the sum of
  the columns of the code points, two for the wide ones.
\<close>

theorem code_point_index_utf8:
  assumes "\<forall>cp \<in> set cps. scalar cp"
  shows "code_point_index (concat (map utf8 cps)) n = Done (length (concat (map utf8 (take n cps)))) \<and>
    compute_width (concat (map utf8 cps)) = Done (\<Sum>cp \<leftarrow> cps. if is_wide cp then 2 else 1)"
  using code_point_index_concat [OF assms] compute_width_concat [OF assms] by blast

theorem code_point_index_utf8_witness:
  "code_point_index (concat (map utf8 [0x41, 0x20AC, 0x1F600])) 2 = Done 4 \<and>
   compute_width (concat (map utf8 [0x41, 0x20AC, 0x1F600])) = Done 4"
  using code_point_index_utf8 [of "[0x41, 0x20AC, 0x1F600]" 2]
  by (simp add: scalar_def is_wide_def utf8_def utf8_bytes_def)

end
