(* ===== verification/Fmt_Printable.thy ===== *)
theory Fmt_Printable
  imports Fmt_Types
begin

unbundle bit_operations_syntax

text \<open>
  \<open>is_printable\<close> of fmt/include/fmt/format-inl.h: which code points a debug representation
  writes as they are. The tables list single code points (the high byte and the number of
  low bytes that belong to it) and the lengths of alternating runs; the loops walk through
  them with indices, and an index behind the end of a table is \<open>Undefined\<close>.
\<close>

section \<open>The loops\<close>

text \<open>Is \<open>x AND 0xff\<close> among the low bytes from index \<open>j\<close> up to \<open>lower_end\<close>?\<close>

function lowers_loop :: "nat \<Rightarrow> nat list \<Rightarrow> nat \<Rightarrow> nat \<Rightarrow> bool outcome" where
  "lowers_loop x singleton_lowers j lower_end =
     (if j < lower_end then
        if length singleton_lowers \<le> j then Undefined
        else if singleton_lowers ! j = x AND 0xff then Done True
        else lowers_loop x singleton_lowers (j + 1) lower_end
      else Done False)"
  by pat_completeness auto
termination
  by (relation "measure (\<lambda>(x, ls, j, e). e - j)") auto

declare lowers_loop.simps [simp del]

fun singletons_loop :: "nat \<Rightarrow> (nat \<times> nat) list \<Rightarrow> nat list \<Rightarrow> nat \<Rightarrow> bool outcome" where
  "singletons_loop x [] singleton_lowers lower_start = Done False"
| "singletons_loop x ((s_upper, s_lower_count) # singletons) singleton_lowers lower_start =
     (let upper = drop_bit 8 x; lower_end = lower_start + s_lower_count in
      if upper < s_upper then Done False
      else
        bind_outcome
          (if upper = s_upper then lowers_loop x singleton_lowers lower_start lower_end else Done False)
          (\<lambda>found. if found then Done True
             else singletons_loop x singletons singleton_lowers lower_end))"

fun normal_loop :: "int \<Rightarrow> nat list \<Rightarrow> bool \<Rightarrow> bool outcome" where
  "normal_loop xsigned [] current = Done current"
| "normal_loop xsigned (v # normal) current =
     (if v AND 0x80 \<noteq> 0 then
        (case normal of
           [] \<Rightarrow> Undefined
         | w # normal' \<Rightarrow>
             let xsigned' = xsigned - int (push_bit 8 (v AND 0x7f) OR w) in
             if xsigned' < 0 then Done current else normal_loop xsigned' normal' (\<not> current))
      else
        let xsigned' = xsigned - int v in
        if xsigned' < 0 then Done current else normal_loop xsigned' normal (\<not> current))"

definition is_printable16 ::
  "nat \<Rightarrow> (nat \<times> nat) list \<Rightarrow> nat list \<Rightarrow> nat list \<Rightarrow> bool outcome" where
  "is_printable16 x singletons singleton_lowers normal =
     bind_outcome (singletons_loop x singletons singleton_lowers 0) (\<lambda>found.
       if found then Done False else normal_loop (int x) normal True)"

section \<open>The tables\<close>

definition singletons0 :: "(nat \<times> nat) list" where
  "singletons0 =
    [(0x00, 1), (0x03, 5), (0x05, 6), (0x06, 3), (0x07, 6), (0x08, 8), (0x09, 17), (0x0a, 28),
     (0x0b, 25), (0x0c, 20), (0x0d, 16), (0x0e, 13), (0x0f, 4), (0x10, 3), (0x12, 18), (0x13, 9),
     (0x16, 1), (0x17, 5), (0x18, 2), (0x19, 3), (0x1a, 7), (0x1c, 2), (0x1d, 1), (0x1f, 22),
     (0x20, 3), (0x2b, 3), (0x2c, 2), (0x2d, 11), (0x2e, 1), (0x30, 3), (0x31, 2), (0x32, 1),
     (0xa7, 2), (0xa9, 2), (0xaa, 4), (0xab, 8), (0xfa, 2), (0xfb, 5), (0xfd, 4), (0xfe, 3),
     (0xff, 9)]"

definition singletons0_lower :: "nat list" where
  "singletons0_lower =
    [0xad, 0x78, 0x79, 0x8b, 0x8d, 0xa2, 0x30, 0x57, 0x58, 0x8b, 0x8c, 0x90,
     0x1c, 0x1d, 0xdd, 0x0e, 0x0f, 0x4b, 0x4c, 0xfb, 0xfc, 0x2e, 0x2f, 0x3f,
     0x5c, 0x5d, 0x5f, 0xb5, 0xe2, 0x84, 0x8d, 0x8e, 0x91, 0x92, 0xa9, 0xb1,
     0xba, 0xbb, 0xc5, 0xc6, 0xc9, 0xca, 0xde, 0xe4, 0xe5, 0xff, 0x00, 0x04,
     0x11, 0x12, 0x29, 0x31, 0x34, 0x37, 0x3a, 0x3b, 0x3d, 0x49, 0x4a, 0x5d,
     0x84, 0x8e, 0x92, 0xa9, 0xb1, 0xb4, 0xba, 0xbb, 0xc6, 0xca, 0xce, 0xcf,
     0xe4, 0xe5, 0x00, 0x04, 0x0d, 0x0e, 0x11, 0x12, 0x29, 0x31, 0x34, 0x3a,
     0x3b, 0x45, 0x46, 0x49, 0x4a, 0x5e, 0x64, 0x65, 0x84, 0x91, 0x9b, 0x9d,
     0xc9, 0xce, 0xcf, 0x0d, 0x11, 0x29, 0x45, 0x49, 0x57, 0x64, 0x65, 0x8d,
     0x91, 0xa9, 0xb4, 0xba, 0xbb, 0xc5, 0xc9, 0xdf, 0xe4, 0xe5, 0xf0, 0x0d,
     0x11, 0x45, 0x49, 0x64, 0x65, 0x80, 0x84, 0xb2, 0xbc, 0xbe, 0xbf, 0xd5,
     0xd7, 0xf0, 0xf1, 0x83, 0x85, 0x8b, 0xa4, 0xa6, 0xbe, 0xbf, 0xc5, 0xc7,
     0xce, 0xcf, 0xda, 0xdb, 0x48, 0x98, 0xbd, 0xcd, 0xc6, 0xce, 0xcf, 0x49,
     0x4e, 0x4f, 0x57, 0x59, 0x5e, 0x5f, 0x89, 0x8e, 0x8f, 0xb1, 0xb6, 0xb7,
     0xbf, 0xc1, 0xc6, 0xc7, 0xd7, 0x11, 0x16, 0x17, 0x5b, 0x5c, 0xf6, 0xf7,
     0xfe, 0xff, 0x80, 0x0d, 0x6d, 0x71, 0xde, 0xdf, 0x0e, 0x0f, 0x1f, 0x6e,
     0x6f, 0x1c, 0x1d, 0x5f, 0x7d, 0x7e, 0xae, 0xaf, 0xbb, 0xbc, 0xfa, 0x16,
     0x17, 0x1e, 0x1f, 0x46, 0x47, 0x4e, 0x4f, 0x58, 0x5a, 0x5c, 0x5e, 0x7e,
     0x7f, 0xb5, 0xc5, 0xd4, 0xd5, 0xdc, 0xf0, 0xf1, 0xf5, 0x72, 0x73, 0x8f,
     0x74, 0x75, 0x96, 0x2f, 0x5f, 0x26, 0x2e, 0x2f, 0xa7, 0xaf, 0xb7, 0xbf,
     0xc7, 0xcf, 0xd7, 0xdf, 0x9a, 0x40, 0x97, 0x98, 0x30, 0x8f, 0x1f, 0xc0,
     0xc1, 0xce, 0xff, 0x4e, 0x4f, 0x5a, 0x5b, 0x07, 0x08, 0x0f, 0x10, 0x27,
     0x2f, 0xee, 0xef, 0x6e, 0x6f, 0x37, 0x3d, 0x3f, 0x42, 0x45, 0x90, 0x91,
     0xfe, 0xff, 0x53, 0x67, 0x75, 0xc8, 0xc9, 0xd0, 0xd1, 0xd8, 0xd9, 0xe7,
     0xfe, 0xff]"

definition singletons1 :: "(nat \<times> nat) list" where
  "singletons1 =
    [(0x00, 6), (0x01, 1), (0x03, 1), (0x04, 2), (0x08, 8), (0x09, 2), (0x0a, 5), (0x0b, 2),
     (0x0e, 4), (0x10, 1), (0x11, 2), (0x12, 5), (0x13, 17), (0x14, 1), (0x15, 2), (0x17, 2),
     (0x19, 13), (0x1c, 5), (0x1d, 8), (0x24, 1), (0x6a, 3), (0x6b, 2), (0xbc, 2), (0xd1, 2),
     (0xd4, 12), (0xd5, 9), (0xd6, 2), (0xd7, 2), (0xda, 1), (0xe0, 5), (0xe1, 2), (0xe8, 2),
     (0xee, 32), (0xf0, 4), (0xf8, 2), (0xf9, 2), (0xfa, 2), (0xfb, 1)]"

definition singletons1_lower :: "nat list" where
  "singletons1_lower =
    [0x0c, 0x27, 0x3b, 0x3e, 0x4e, 0x4f, 0x8f, 0x9e, 0x9e, 0x9f, 0x06, 0x07,
     0x09, 0x36, 0x3d, 0x3e, 0x56, 0xf3, 0xd0, 0xd1, 0x04, 0x14, 0x18, 0x36,
     0x37, 0x56, 0x57, 0x7f, 0xaa, 0xae, 0xaf, 0xbd, 0x35, 0xe0, 0x12, 0x87,
     0x89, 0x8e, 0x9e, 0x04, 0x0d, 0x0e, 0x11, 0x12, 0x29, 0x31, 0x34, 0x3a,
     0x45, 0x46, 0x49, 0x4a, 0x4e, 0x4f, 0x64, 0x65, 0x5c, 0xb6, 0xb7, 0x1b,
     0x1c, 0x07, 0x08, 0x0a, 0x0b, 0x14, 0x17, 0x36, 0x39, 0x3a, 0xa8, 0xa9,
     0xd8, 0xd9, 0x09, 0x37, 0x90, 0x91, 0xa8, 0x07, 0x0a, 0x3b, 0x3e, 0x66,
     0x69, 0x8f, 0x92, 0x6f, 0x5f, 0xee, 0xef, 0x5a, 0x62, 0x9a, 0x9b, 0x27,
     0x28, 0x55, 0x9d, 0xa0, 0xa1, 0xa3, 0xa4, 0xa7, 0xa8, 0xad, 0xba, 0xbc,
     0xc4, 0x06, 0x0b, 0x0c, 0x15, 0x1d, 0x3a, 0x3f, 0x45, 0x51, 0xa6, 0xa7,
     0xcc, 0xcd, 0xa0, 0x07, 0x19, 0x1a, 0x22, 0x25, 0x3e, 0x3f, 0xc5, 0xc6,
     0x04, 0x20, 0x23, 0x25, 0x26, 0x28, 0x33, 0x38, 0x3a, 0x48, 0x4a, 0x4c,
     0x50, 0x53, 0x55, 0x56, 0x58, 0x5a, 0x5c, 0x5e, 0x60, 0x63, 0x65, 0x66,
     0x6b, 0x73, 0x78, 0x7d, 0x7f, 0x8a, 0xa4, 0xaa, 0xaf, 0xb0, 0xc0, 0xd0,
     0xae, 0xaf, 0x79, 0xcc, 0x6e, 0x6f, 0x93]"

definition normal0 :: "nat list" where
  "normal0 =
    [0x00, 0x20, 0x5f, 0x22, 0x82, 0xdf, 0x04, 0x82, 0x44, 0x08, 0x1b, 0x04,
     0x06, 0x11, 0x81, 0xac, 0x0e, 0x80, 0xab, 0x35, 0x28, 0x0b, 0x80, 0xe0,
     0x03, 0x19, 0x08, 0x01, 0x04, 0x2f, 0x04, 0x34, 0x04, 0x07, 0x03, 0x01,
     0x07, 0x06, 0x07, 0x11, 0x0a, 0x50, 0x0f, 0x12, 0x07, 0x55, 0x07, 0x03,
     0x04, 0x1c, 0x0a, 0x09, 0x03, 0x08, 0x03, 0x07, 0x03, 0x02, 0x03, 0x03,
     0x03, 0x0c, 0x04, 0x05, 0x03, 0x0b, 0x06, 0x01, 0x0e, 0x15, 0x05, 0x3a,
     0x03, 0x11, 0x07, 0x06, 0x05, 0x10, 0x07, 0x57, 0x07, 0x02, 0x07, 0x15,
     0x0d, 0x50, 0x04, 0x43, 0x03, 0x2d, 0x03, 0x01, 0x04, 0x11, 0x06, 0x0f,
     0x0c, 0x3a, 0x04, 0x1d, 0x25, 0x5f, 0x20, 0x6d, 0x04, 0x6a, 0x25, 0x80,
     0xc8, 0x05, 0x82, 0xb0, 0x03, 0x1a, 0x06, 0x82, 0xfd, 0x03, 0x59, 0x07,
     0x15, 0x0b, 0x17, 0x09, 0x14, 0x0c, 0x14, 0x0c, 0x6a, 0x06, 0x0a, 0x06,
     0x1a, 0x06, 0x59, 0x07, 0x2b, 0x05, 0x46, 0x0a, 0x2c, 0x04, 0x0c, 0x04,
     0x01, 0x03, 0x31, 0x0b, 0x2c, 0x04, 0x1a, 0x06, 0x0b, 0x03, 0x80, 0xac,
     0x06, 0x0a, 0x06, 0x21, 0x3f, 0x4c, 0x04, 0x2d, 0x03, 0x74, 0x08, 0x3c,
     0x03, 0x0f, 0x03, 0x3c, 0x07, 0x38, 0x08, 0x2b, 0x05, 0x82, 0xff, 0x11,
     0x18, 0x08, 0x2f, 0x11, 0x2d, 0x03, 0x20, 0x10, 0x21, 0x0f, 0x80, 0x8c,
     0x04, 0x82, 0x97, 0x19, 0x0b, 0x15, 0x88, 0x94, 0x05, 0x2f, 0x05, 0x3b,
     0x07, 0x02, 0x0e, 0x18, 0x09, 0x80, 0xb3, 0x2d, 0x74, 0x0c, 0x80, 0xd6,
     0x1a, 0x0c, 0x05, 0x80, 0xff, 0x05, 0x80, 0xdf, 0x0c, 0xee, 0x0d, 0x03,
     0x84, 0x8d, 0x03, 0x37, 0x09, 0x81, 0x5c, 0x14, 0x80, 0xb8, 0x08, 0x80,
     0xcb, 0x2a, 0x38, 0x03, 0x0a, 0x06, 0x38, 0x08, 0x46, 0x08, 0x0c, 0x06,
     0x74, 0x0b, 0x1e, 0x03, 0x5a, 0x04, 0x59, 0x09, 0x80, 0x83, 0x18, 0x1c,
     0x0a, 0x16, 0x09, 0x4c, 0x04, 0x80, 0x8a, 0x06, 0xab, 0xa4, 0x0c, 0x17,
     0x04, 0x31, 0xa1, 0x04, 0x81, 0xda, 0x26, 0x07, 0x0c, 0x05, 0x05, 0x80,
     0xa5, 0x11, 0x81, 0x6d, 0x10, 0x78, 0x28, 0x2a, 0x06, 0x4c, 0x04, 0x80,
     0x8d, 0x04, 0x80, 0xbe, 0x03, 0x1b, 0x03, 0x0f, 0x0d]"

definition normal1 :: "nat list" where
  "normal1 =
    [0x5e, 0x22, 0x7b, 0x05, 0x03, 0x04, 0x2d, 0x03, 0x66, 0x03, 0x01, 0x2f,
     0x2e, 0x80, 0x82, 0x1d, 0x03, 0x31, 0x0f, 0x1c, 0x04, 0x24, 0x09, 0x1e,
     0x05, 0x2b, 0x05, 0x44, 0x04, 0x0e, 0x2a, 0x80, 0xaa, 0x06, 0x24, 0x04,
     0x24, 0x04, 0x28, 0x08, 0x34, 0x0b, 0x01, 0x80, 0x90, 0x81, 0x37, 0x09,
     0x16, 0x0a, 0x08, 0x80, 0x98, 0x39, 0x03, 0x63, 0x08, 0x09, 0x30, 0x16,
     0x05, 0x21, 0x03, 0x1b, 0x05, 0x01, 0x40, 0x38, 0x04, 0x4b, 0x05, 0x2f,
     0x04, 0x0a, 0x07, 0x09, 0x07, 0x40, 0x20, 0x27, 0x04, 0x0c, 0x09, 0x36,
     0x03, 0x3a, 0x05, 0x1a, 0x07, 0x04, 0x0c, 0x07, 0x50, 0x49, 0x37, 0x33,
     0x0d, 0x33, 0x07, 0x2e, 0x08, 0x0a, 0x81, 0x26, 0x52, 0x4e, 0x28, 0x08,
     0x2a, 0x56, 0x1c, 0x14, 0x17, 0x09, 0x4e, 0x04, 0x1e, 0x0f, 0x43, 0x0e,
     0x19, 0x07, 0x0a, 0x06, 0x48, 0x08, 0x27, 0x09, 0x75, 0x0b, 0x3f, 0x41,
     0x2a, 0x06, 0x3b, 0x05, 0x0a, 0x06, 0x51, 0x06, 0x01, 0x05, 0x10, 0x03,
     0x05, 0x80, 0x8b, 0x62, 0x1e, 0x48, 0x08, 0x0a, 0x80, 0xa6, 0x5e, 0x22,
     0x45, 0x0b, 0x0a, 0x06, 0x0d, 0x13, 0x39, 0x07, 0x0a, 0x36, 0x2c, 0x04,
     0x10, 0x80, 0xc0, 0x3c, 0x64, 0x53, 0x0c, 0x48, 0x09, 0x0a, 0x46, 0x45,
     0x1b, 0x48, 0x08, 0x53, 0x1d, 0x39, 0x81, 0x07, 0x46, 0x0a, 0x1d, 0x03,
     0x47, 0x49, 0x37, 0x03, 0x0e, 0x08, 0x0a, 0x06, 0x39, 0x07, 0x0a, 0x81,
     0x36, 0x19, 0x80, 0xb7, 0x01, 0x0f, 0x32, 0x0d, 0x83, 0x9b, 0x66, 0x75,
     0x0b, 0x80, 0xc4, 0x8a, 0xbc, 0x84, 0x2f, 0x8f, 0xd1, 0x82, 0x47, 0xa1,
     0xb9, 0x82, 0x39, 0x07, 0x2a, 0x04, 0x02, 0x60, 0x26, 0x0a, 0x46, 0x0a,
     0x28, 0x05, 0x13, 0x82, 0xb0, 0x5b, 0x65, 0x4b, 0x04, 0x39, 0x07, 0x11,
     0x40, 0x05, 0x0b, 0x02, 0x0e, 0x97, 0xf8, 0x08, 0x84, 0xd6, 0x2a, 0x09,
     0xa2, 0xf7, 0x81, 0x1f, 0x31, 0x03, 0x11, 0x04, 0x08, 0x81, 0x8c, 0x89,
     0x04, 0x6b, 0x05, 0x0d, 0x03, 0x09, 0x07, 0x10, 0x93, 0x60, 0x80, 0xf6,
     0x0a, 0x73, 0x08, 0x6e, 0x17, 0x46, 0x80, 0x9a, 0x14, 0x0c, 0x57, 0x09,
     0x19, 0x80, 0x87, 0x81, 0x47, 0x03, 0x85, 0x42, 0x0f, 0x15, 0x85, 0x50,
     0x2b, 0x80, 0xd5, 0x2d, 0x03, 0x1a, 0x04, 0x02, 0x81, 0x70, 0x3a, 0x05,
     0x01, 0x85, 0x00, 0x80, 0xd7, 0x29, 0x4c, 0x04, 0x0a, 0x04, 0x02, 0x83,
     0x11, 0x44, 0x4c, 0x3d, 0x80, 0xc2, 0x3c, 0x06, 0x01, 0x04, 0x55, 0x05,
     0x1b, 0x34, 0x02, 0x81, 0x0e, 0x2c, 0x04, 0x64, 0x0c, 0x56, 0x0a, 0x80,
     0xae, 0x38, 0x1d, 0x0d, 0x2c, 0x04, 0x09, 0x07, 0x02, 0x0e, 0x06, 0x80,
     0x9a, 0x83, 0xd8, 0x08, 0x0d, 0x03, 0x0d, 0x03, 0x74, 0x0c, 0x59, 0x07,
     0x0c, 0x14, 0x0c, 0x04, 0x38, 0x08, 0x0a, 0x06, 0x28, 0x08, 0x22, 0x4e,
     0x81, 0x54, 0x0c, 0x15, 0x03, 0x03, 0x05, 0x07, 0x09, 0x19, 0x07, 0x07,
     0x09, 0x03, 0x0d, 0x07, 0x29, 0x80, 0xcb, 0x25, 0x0a, 0x84, 0x06]"

section \<open>The function\<close>

definition is_printable :: "nat \<Rightarrow> bool outcome" where
  "is_printable cp =
     (let lower = cp mod 0x10000 in
      if cp < 0x10000 then is_printable16 lower singletons0 singletons0_lower normal0
      else if cp < 0x20000 then is_printable16 lower singletons1 singletons1_lower normal1
      else if 0x2a6de \<le> cp \<and> cp < 0x2a700 then Done False
      else if 0x2b735 \<le> cp \<and> cp < 0x2b740 then Done False
      else if 0x2b81e \<le> cp \<and> cp < 0x2b820 then Done False
      else if 0x2cea2 \<le> cp \<and> cp < 0x2ceb0 then Done False
      else if 0x2ebe1 \<le> cp \<and> cp < 0x2f800 then Done False
      else if 0x2fa1e \<le> cp \<and> cp < 0x30000 then Done False
      else if 0x3134b \<le> cp \<and> cp < 0xe0100 then Done False
      else if 0xe01f0 \<le> cp \<and> cp < 0x110000 then Done False
      else Done (cp < 0x110000))"

section \<open>The loops stay inside the tables\<close>

lemma ex_bool [simp]: "\<exists>b. b" "\<exists>b. \<not> b"
  by (rule exI [of _ True], simp, rule exI [of _ False], simp)

lemma lowers_loop_total:
  "lower_end \<le> length ls \<Longrightarrow> \<exists>b. lowers_loop x ls j lower_end = Done b"
  by (induction x ls j lower_end rule: lowers_loop.induct) (subst lowers_loop.simps, simp)

lemma singletons_loop_total:
  "start + sum_list (map snd ss) \<le> length ls \<Longrightarrow> \<exists>b. singletons_loop x ss ls start = Done b"
proof (induction x ss ls start rule: singletons_loop.induct)
  case (2 x u n ss ls start)
  have "\<exists>b. lowers_loop x ls start (start + n) = Done b"
    using 2(2) by (intro lowers_loop_total) simp
  then obtain b where b: "lowers_loop x ls start (start + n) = Done b" ..
  have "\<exists>b. singletons_loop x ss ls (start + n) = Done b" if "\<not> drop_bit 8 x < u"
    using 2 that by (simp add: add.assoc)
  then show ?case using b by (auto simp: Let_def simp del: bind_outcome_Done)
qed simp

fun runs_ok :: "nat list \<Rightarrow> bool" where
  "runs_ok [] = True"
| "runs_ok [v] = (v AND 0x80 = 0)"
| "runs_ok (v # w # vs) = runs_ok (if v AND 0x80 \<noteq> 0 then vs else w # vs)"

lemma normal_loop_total: "runs_ok vs \<Longrightarrow> \<exists>b. normal_loop xs vs cur = Done b"
proof (induction vs arbitrary: xs cur rule: runs_ok.induct)
  case (3 v w vs)
  show ?case
  proof (cases "v AND 0x80 = 0")
    case True
    then have "\<exists>b. normal_loop ys (w # vs) (\<not> cur) = Done b" for ys
      using 3(1) [of ys "\<not> cur"] 3(2) by simp
    then show ?thesis by (subst normal_loop.simps) (simp add: True Let_def del: normal_loop.simps)
  next
    case False
    then have "\<exists>b. normal_loop ys vs (\<not> cur) = Done b" for ys
      using 3(1) [of ys "\<not> cur"] 3(2) by simp
    then show ?thesis by (simp add: False Let_def)
  qed
qed (auto simp: Let_def)

lemma is_printable16_total:
  assumes "sum_list (map snd ss) \<le> length ls" "runs_ok vs"
  shows "\<exists>b. is_printable16 x ss ls vs = Done b"
proof -
  obtain b where "singletons_loop x ss ls 0 = Done b"
    using singletons_loop_total [of 0 ss ls x] assms(1) by auto
  then show ?thesis
    using normal_loop_total [OF assms(2)] by (simp add: is_printable16_def del: bind_outcome_Done)
qed

lemma tables_ok:
  "sum_list (map snd singletons0) \<le> length singletons0_lower"
  "sum_list (map snd singletons1) \<le> length singletons1_lower"
  "runs_ok normal0" "runs_ok normal1"
proof -
  show "sum_list (map snd singletons0) \<le> length singletons0_lower"
    by (simp add: singletons0_def singletons0_lower_def)
  show "sum_list (map snd singletons1) \<le> length singletons1_lower"
    by (simp add: singletons1_def singletons1_lower_def)
  show "runs_ok normal0" by (simp add: normal0_def)
  show "runs_ok normal1" by (simp add: normal1_def)
qed

lemma is_printable_ascii:
  assumes "cp < 128"
  shows "is_printable cp = Done (32 \<le> cp \<and> cp < 127)"
proof -
  have u: "drop_bit 8 cp = 0" using assms by (simp add: drop_bit_eq_div)
  have "cp AND 0xff = cp"
    using assms take_bit_eq_mask [of 8 cp] by (simp add: take_bit_eq_mod mask_eq_exp_minus_1)
  with assms u have "singletons_loop cp singletons0 singletons0_lower 0 = Done False"
    by (simp add: singletons0_def singletons0_lower_def lowers_loop.simps Let_def del: bind_outcome_Done)
  moreover have "normal_loop (int cp) normal0 True = Done (32 \<le> cp \<and> cp < 127)"
    using assms by (auto simp: normal0_def)
  ultimately show ?thesis
    using assms by (simp add: is_printable_def is_printable16_def)
qed

lemma done_if:
  "(c \<Longrightarrow> \<exists>b. x = Done b) \<Longrightarrow> (\<not> c \<Longrightarrow> \<exists>b. y = Done b) \<Longrightarrow> \<exists>b. (if c then x else y) = Done b"
  by simp

lemma is_printable_total: "\<exists>b. is_printable cp = Done b"
  unfolding is_printable_def Let_def
  by (intro done_if is_printable16_total tables_ok) blast+

text \<open>
  \<open>is_printable\<close> reads inside its tables for every code point, a byte of the text that
  decodes to no code point is not printable, and the printable ASCII characters are exactly
  those from the space to the tilde.
\<close>

theorem is_printable_safe:
  "\<exists>b. is_printable cp = Done b \<and> (cp < 128 \<longrightarrow> (b \<longleftrightarrow> 32 \<le> cp \<and> cp < 127)) \<and>
    (0x110000 \<le> cp \<longrightarrow> \<not> b)"
proof -
  obtain b where b: "is_printable cp = Done b" using is_printable_total by blast
  moreover have "\<not> b" if "0x110000 \<le> cp" using b that by (simp add: is_printable_def)
  ultimately show ?thesis using is_printable_ascii [of cp] by auto
qed

theorem is_printable_safe_witness:
  "is_printable 0x41 = Done True \<and> is_printable 0x7f = Done False \<and> is_printable 0xFFFFFFFF = Done False"
  using is_printable_safe [of "0x41"] is_printable_safe [of "0x7f"] is_printable_safe [of "0xFFFFFFFF"] by auto

end
