(* ===== verification/Fmt_Digits.thy ===== *)
theory Fmt_Digits
  imports Fmt_Parse
begin

text \<open>
  The digits of integers in fmt/include/fmt/format.h: the three ways of counting decimal
  digits (a loop, a table over the position of the highest bit, and the addition trick for
  32 bits), the digits in a power-of-two base, and the writers \<open>format_decimal\<close> and
  \<open>format_uint\<close>. Unsigned values are naturals below \<open>2 ^ 64\<close> or \<open>2 ^ 32\<close>; the sums that
  can wrap around are taken on words.
\<close>

section \<open>Decimal notation\<close>

text \<open>The specification: the digits of a number, most significant first.\<close>

definition digit_char :: "nat \<Rightarrow> char" where
  "digit_char d = char_of (48 + d)"

fun decimal_digits :: "nat \<Rightarrow> string" where
  "decimal_digits n = (if n < 10 then [digit_char n]
     else decimal_digits (n div 10) @ [digit_char (n mod 10)])"

declare decimal_digits.simps [simp del]

lemma decimal_digits_small: "n < 10 \<Longrightarrow> decimal_digits n = [digit_char n]"
  by (subst decimal_digits.simps) simp

lemma decimal_digits_step:
  "10 \<le> n \<Longrightarrow> decimal_digits n = decimal_digits (n div 10) @ [digit_char (n mod 10)]"
  by (subst decimal_digits.simps) simp

lemma decimal_digits_not_Nil [simp]: "decimal_digits n \<noteq> []"
  by (cases "n < 10") (simp_all add: decimal_digits_small decimal_digits_step)

text \<open>The number of digits, by the powers of ten around the number.\<close>

lemma length_decimal_digits:
  assumes "n < 10 ^ d" "0 < d" "d = 1 \<or> 10 ^ (d - 1) \<le> n"
  shows "length (decimal_digits n) = d"
  using assms
proof (induction d arbitrary: n)
  case (Suc d)
  show ?case
  proof (cases "d = 0")
    case True
    then show ?thesis using Suc.prems by (simp add: decimal_digits_small)
  next
    case False
    then have n: "10 ^ d \<le> n" "n < 10 * 10 ^ d" using Suc.prems(1,3) by simp_all
    obtain d' where d': "d = Suc d'" using False by (cases d) auto
    have "n div 10 < 10 ^ d" using n(2) by (intro less_mult_imp_div_less) (simp add: mult.commute)
    moreover have "d = 1 \<or> 10 ^ (d - 1) \<le> n div 10"
      using n(1) d' by (simp add: less_eq_div_iff_mult_less_eq)
    ultimately have "length (decimal_digits (n div 10)) = d"
      using False by (intro Suc.IH) simp_all
    moreover have "(10 :: nat) \<le> 10 ^ d" using d' by simp
    then have "10 \<le> n" using n(1) by linarith
    ultimately show ?thesis unfolding decimal_digits_step [OF \<open>10 \<le> n\<close>] by simp
  qed
qed simp

lemma decimal_digits_length_le: "n < 10 ^ d \<Longrightarrow> 0 < d \<Longrightarrow> length (decimal_digits n) \<le> d"
proof (induction d arbitrary: n)
  case (Suc d)
  show ?case
  proof (cases "n < 10 ^ d \<and> 0 < d")
    case True
    then show ?thesis using Suc.IH [of n] by simp
  next
    case False
    then have "Suc d = 1 \<or> 10 ^ (Suc d - 1) \<le> n" by auto
    then have "length (decimal_digits n) = Suc d"
      by (rule length_decimal_digits [OF Suc.prems(1) zero_less_Suc])
    then show ?thesis by simp
  qed
qed simp

section \<open>Counting digits\<close>

text \<open>\<open>FMT_BUILTIN_CLZ\<close> and \<open>FMT_BUILTIN_CLZLL\<close>, of a number that is not zero.\<close>

definition clz :: "nat \<Rightarrow> nat \<Rightarrow> nat" where
  "clz bits n = length (takeWhile (\<lambda>i. \<not> bit n i) (rev [0..<bits]))"

function count_digits_fallback :: "nat \<Rightarrow> nat \<Rightarrow> nat" where
  "count_digits_fallback n cnt =
     (if n < 10 then cnt
      else if n < 100 then cnt + 1
      else if n < 1000 then cnt + 2
      else if n < 10000 then cnt + 3
      else count_digits_fallback (n div 10000) (cnt + 4))"
  by pat_completeness auto
termination
  by (relation "measure fst") auto

declare count_digits_fallback.simps [simp del]

definition bsr2log10 :: "nat list" where
  "bsr2log10 =
     [1,  1,  1,  2,  2,  2,  3,  3,  3,  4,  4,  4,  4,  5,  5,  5,
      6,  6,  6,  7,  7,  7,  7,  8,  8,  8,  9,  9,  9,  10, 10, 10,
      10, 11, 11, 11, 12, 12, 12, 13, 13, 13, 13, 14, 14, 14, 15, 15,
      15, 16, 16, 16, 16, 17, 17, 17, 18, 18, 18, 19, 19, 19, 19, 20]"

definition powers_of_10 :: "nat \<Rightarrow> nat list" where
  "powers_of_10 factor =
     [factor * 10, factor * 100, factor * 1000, factor * 10000, factor * 100000,
      factor * 1000000, factor * 10000000, factor * 100000000, factor * 1000000000]"

definition zero_or_powers_of_10 :: "nat list" where
  "zero_or_powers_of_10 =
     [0, 0] @ powers_of_10 1 @ powers_of_10 1000000000 @ [10000000000000000000]"

definition do_count_digits64 :: "nat \<Rightarrow> nat" where
  "do_count_digits64 n =
     (let t = bsr2log10 ! (clz 64 (n OR 1) XOR 63) in
      t - (if n < zero_or_powers_of_10 ! t then 1 else 0))"

text \<open>\<open>FMT_INC(T)\<close>, with the number of characters of the literal \<open>T\<close>.\<close>

definition FMT_INC :: "nat \<Rightarrow> 64 word" where
  "FMT_INC T = push_bit 32 (of_nat (length (decimal_digits T))) - of_nat T"

definition inc_literals :: "nat list" where
  "inc_literals =
     [0, 0, 0, 10, 10, 10, 100, 100, 100, 1000, 1000, 1000, 10000, 10000, 10000,
      100000, 100000, 100000, 1000000, 1000000, 1000000, 10000000, 10000000, 10000000,
      100000000, 100000000, 100000000, 1000000000, 1000000000, 1000000000,
      1000000000, 1000000000]"

definition inc_table :: "64 word list" where
  "inc_table = map FMT_INC inc_literals"

definition do_count_digits32 :: "nat \<Rightarrow> nat" where
  "do_count_digits32 n =
     (let inc = inc_table ! (clz 32 (n OR 1) XOR 31) in unat (drop_bit 32 (of_nat n + inc)))"

section \<open>The three counts agree\<close>

lemma count_digits_fallback_digits:
  "count_digits_fallback n c = c - 1 + length (decimal_digits n)" if "0 < c"
  using that
proof (induction n c rule: count_digits_fallback.induct)
  case (1 n c)
  have len: "length (decimal_digits n) = d"
    if "n < 10 ^ d" "10 ^ (d - 1) \<le> n" "1 < d" for d
    using that by (intro length_decimal_digits) auto
  consider "n < 10" | "10 \<le> n" "n < 100" | "100 \<le> n" "n < 1000" | "1000 \<le> n" "n < 10000"
    | "10000 \<le> n" by linarith
  then show ?case
  proof cases
    case 5
    have "decimal_digits n = decimal_digits (n div 10000) @
        [digit_char (n div 1000 mod 10), digit_char (n div 100 mod 10), digit_char (n div 10 mod 10),
         digit_char (n mod 10)]"
      using 5 by (simp add: decimal_digits_step div_mult2_eq [symmetric] less_eq_div_iff_mult_less_eq)
    then show ?thesis
      using 5 1 by (subst count_digits_fallback.simps) simp
  qed (use 1 len [of 2] len [of 3] len [of 4] in
    \<open>subst count_digits_fallback.simps, simp add: decimal_digits_small\<close>)+
qed

lemma clz_log:
  assumes "2 ^ k \<le> n" "n < 2 ^ Suc k" "k < bits"
  shows "clz bits n = bits - 1 - k"
proof -
  have "bit n k"
  proof -
    have "n div 2 ^ k = 1"
      using assms(1,2) by (intro div_nat_eqI) (simp_all add: mult.commute)
    then show ?thesis by (simp add: bit_iff_odd)
  qed
  moreover have "\<not> bit n i" if "k < i" for i
  proof -
    have "(2 :: nat) ^ Suc k \<le> 2 ^ i" using that by (intro power_increasing) auto
    then have "n div 2 ^ i = 0" using assms(2) by simp
    then show ?thesis by (simp add: bit_iff_odd)
  qed
  moreover have "rev [0..<bits] = rev [Suc k..<bits] @ k # rev [0..<k]"
  proof -
    have "[0..<bits] = [0..<k] @ k # [Suc k..<bits]"
      using assms(3) upt_add_eq_append [of 0 k "bits - k"] by (simp add: upt_conv_Cons)
    then show ?thesis by simp
  qed
  moreover have "takeWhile (\<lambda>i. \<not> bit n i) (rev [Suc k..<bits] @ k # rev [0..<k]) =
      rev [Suc k..<bits]"
    using calculation(1,2) by (subst takeWhile_append2) auto
  ultimately show ?thesis
    using assms(3) by (simp add: clz_def)
qed

lemma obtain_log:
  fixes n :: nat
  assumes "0 < n" "n < 2 ^ bits"
  obtains k where "2 ^ k \<le> n" "n < 2 ^ Suc k" "k < bits"
proof -
  have "1 \<le> n" using assms(1) by simp
  then obtain k where k: "2 ^ k \<le> n" "n < 2 ^ (k + 1)"
    using ex_power_ivl1 [of 2 n] by auto
  have "(2 :: nat) ^ k < 2 ^ bits" using k(1) assms(2) by linarith
  then have "k < bits" by simp
  with k show thesis using that by simp
qed

text \<open>The number of digits of a number between two powers of ten, the lower one excluded or not.\<close>

lemma length_digits_between:
  assumes "10 ^ (t - 2) \<le> n" "n < 10 ^ t" "2 \<le> t"
  shows "length (decimal_digits n) = t - (if n < 10 ^ (t - 1) then 1 else 0)"
proof (cases "n < 10 ^ (t - 1)")
  case True
  have "length (decimal_digits n) = t - 1"
    using True assms by (intro length_decimal_digits) (auto simp: numeral_2_eq_2)
  then show ?thesis using True by simp
next
  case False
  then show ?thesis using assms by (simp add: length_decimal_digits)
qed

lemma log_of_or_1:
  fixes n :: nat
  assumes "n < 2 ^ bits" "0 < bits"
  obtains k where "k < bits" "clz bits (n OR 1) = bits - 1 - k" "n < 2 ^ Suc k" "k = 0 \<or> 2 ^ k \<le> n"
proof -
  have or: "n OR 1 = (if even n then n + 1 else n)" unfolding or_one_eq by simp
  have even: "even (2 ^ bits :: nat)" using assms(2) by simp
  have "n OR 1 < 2 ^ bits"
  proof (cases "even n")
    case True
    then have "n + 1 \<noteq> 2 ^ bits" using even by (metis even_plus_one_iff)
    then show ?thesis using or True assms(1) by simp
  qed (use or assms(1) in simp)
  moreover have "0 < n OR 1" using or by (cases "n = 0") auto
  ultimately obtain k where k: "2 ^ k \<le> n OR 1" "n OR 1 < 2 ^ Suc k" "k < bits"
    using obtain_log by blast
  have "2 ^ k \<le> n" if "k \<noteq> 0"
  proof (cases "even n")
    case True
    have "even (2 ^ k :: nat)" using that by simp
    then have "2 ^ k \<noteq> n + 1" using True by (metis even_plus_one_iff)
    then show ?thesis using or k(1) True by simp
  qed (use or k(1) in simp)
  then have lower: "k = 0 \<or> 2 ^ k \<le> n" by blast
  have upper: "n < 2 ^ Suc k" using or k(2) by (simp split: if_splits)
  show thesis by (rule that [OF k(3) clz_log [OF k] upper lower])
qed

lemma upt_64: "[0..<64] =
    [0, 1, 2, 3, 4, 5, 6, 7, 8, 9, 10, 11, 12, 13, 14, 15, 16, 17, 18, 19, 20, 21, 22, 23,
     24, 25, 26, 27, 28, 29, 30, 31, 32, 33, 34, 35, 36, 37, 38, 39, 40, 41, 42, 43, 44, 45,
     46, 47, 48, 49, 50, 51, 52, 53, 54, 55, 56, 57, 58, 59, 60, 61, 62, 63]" by code_simp

lemma upt_32: "[0..<32] =
    [0, 1, 2, 3, 4, 5, 6, 7, 8, 9, 10, 11, 12, 13, 14, 15, 16, 17, 18, 19, 20, 21, 22, 23,
     24, 25, 26, 27, 28, 29, 30, 31]" by code_simp

lemma table64:
  "list_all (\<lambda>k. (63 - k) XOR 63 = k \<and>
     (let t = bsr2log10 ! k in
        t = 1 \<and> zero_or_powers_of_10 ! t = 0 \<and> (2 :: nat) ^ Suc k \<le> 10 \<or>
        2 \<le> t \<and> k \<noteq> 0 \<and> zero_or_powers_of_10 ! t = 10 ^ (t - 1) \<and> (10 :: nat) ^ (t - 2) \<le> 2 ^ k \<and>
          (2 :: nat) ^ Suc k \<le> 10 ^ t)) [0..<64]"
  unfolding upt_64 by (simp add: bsr2log10_def zero_or_powers_of_10_def powers_of_10_def)

lemma do_count_digits64_digits:
  assumes "n < 2 ^ 64"
  shows "do_count_digits64 n = length (decimal_digits n)"
proof -
  obtain k where k: "k < 64" "clz 64 (n OR 1) = 63 - k" "n < 2 ^ Suc k" "k = 0 \<or> 2 ^ k \<le> n"
    using log_of_or_1 [OF assms] by auto
  let ?t = "bsr2log10 ! k"
  have tab: "(63 - k) XOR 63 = k" "?t = 1 \<and> zero_or_powers_of_10 ! ?t = 0 \<and> (2 :: nat) ^ Suc k \<le> 10 \<or>
      2 \<le> ?t \<and> k \<noteq> 0 \<and> zero_or_powers_of_10 ! ?t = 10 ^ (?t - 1) \<and> (10 :: nat) ^ (?t - 2) \<le> 2 ^ k \<and>
      (2 :: nat) ^ Suc k \<le> 10 ^ ?t"
    using table64 k(1) by (auto simp: list_all_iff Let_def)
  have val: "do_count_digits64 n = ?t - (if n < zero_or_powers_of_10 ! ?t then 1 else 0)"
    unfolding do_count_digits64_def k(2) tab(1) Let_def by (rule refl)
  from tab(2) show ?thesis
  proof (elim disjE conjE)
    assume "?t = 1" "zero_or_powers_of_10 ! ?t = 0" "(2 :: nat) ^ Suc k \<le> 10"
    moreover from this have "n < 10" using k(3) by linarith
    ultimately show ?thesis using val by (simp add: decimal_digits_small)
  next
    assume t: "2 \<le> ?t" "k \<noteq> 0" "zero_or_powers_of_10 ! ?t = 10 ^ (?t - 1)"
      "(10 :: nat) ^ (?t - 2) \<le> 2 ^ k" "(2 :: nat) ^ Suc k \<le> 10 ^ ?t"
    have "10 ^ (?t - 2) \<le> n" "n < 10 ^ ?t" using t k(3,4) by linarith+
    from length_digits_between [OF this t(1)] show ?thesis unfolding val t(3) by simp
  qed
qed

lemma length_literals:
  "length (decimal_digits 0) = 1" "length (decimal_digits 10) = 2"
  "length (decimal_digits 100) = 3" "length (decimal_digits 1000) = 4"
  "length (decimal_digits 10000) = 5" "length (decimal_digits 100000) = 6"
  "length (decimal_digits 1000000) = 7" "length (decimal_digits 10000000) = 8"
  "length (decimal_digits 100000000) = 9" "length (decimal_digits 1000000000) = 10"
  by (intro length_decimal_digits; simp)+

lemma table32:
  "list_all (\<lambda>k. (31 - k) XOR 31 = k \<and>
     (let T = inc_literals ! k; t = length (decimal_digits T) in
        t \<le> 10 \<and> (T = 0 \<and> t = 1 \<and> (2 :: nat) ^ Suc k \<le> 10 \<or>
          2 \<le> t \<and> k \<noteq> 0 \<and> T = 10 ^ (t - 1) \<and> (10 :: nat) ^ (t - 2) \<le> 2 ^ k \<and>
          (2 :: nat) ^ Suc k \<le> 10 ^ t))) [0..<32]"
  unfolding upt_32 by (simp add: inc_literals_def length_literals [simplified])

lemma FMT_INC_sum:
  assumes "n < 2 ^ 32" "T < 2 ^ 32" "length (decimal_digits T) = t" "0 < t" "t \<le> 10"
  shows "unat (drop_bit 32 (of_nat n + FMT_INC T)) = t - (if n < T then 1 else 0)"
proof -
  let ?m = "n + t * 2 ^ 32 - T"
  have bounds: "T \<le> n + t * 2 ^ 32" "?m < 2 ^ 64" using assms by simp_all
  have "of_nat n + FMT_INC T = (of_nat n + of_nat t * of_nat (2 ^ 32) - of_nat T :: 64 word)"
    unfolding FMT_INC_def assms(3) by (simp add: push_bit_eq_mult)
  also have "\<dots> = of_nat ?m" using bounds(1) by (simp only: of_nat_add of_nat_mult of_nat_diff)
  finally have sum: "of_nat n + FMT_INC T = of_nat ?m" .
  have "unat (of_nat ?m :: 64 word) = ?m"
    unfolding unat_of_nat using bounds(2) by (simp add: take_bit_nat_eq_self)
  then have "unat (drop_bit 32 (of_nat n + FMT_INC T)) = ?m div 2 ^ 32"
    unfolding sum unat_drop_bit_eq by (simp only: drop_bit_eq_div)
  also have "?m div 2 ^ 32 = t - (if n < T then 1 else 0)"
  proof (cases "n < T")
    case True
    then have "?m = (t - 1) * 2 ^ 32 + (2 ^ 32 - (T - n))"
      using assms(2,4) by (cases t) simp_all
    moreover have "2 ^ 32 - (T - n) < (2 :: nat) ^ 32" using True by simp
    ultimately show ?thesis using True by simp
  next
    case False
    then have "?m = t * 2 ^ 32 + (n - T)" by simp
    moreover have "n - T < 2 ^ 32" using assms(1) by simp
    ultimately show ?thesis using False by simp
  qed
  finally show ?thesis .
qed

lemma do_count_digits32_digits:
  assumes "n < 2 ^ 32"
  shows "do_count_digits32 n = length (decimal_digits n)"
proof -
  obtain k where k: "k < 32" "clz 32 (n OR 1) = 31 - k" "n < 2 ^ Suc k" "k = 0 \<or> 2 ^ k \<le> n"
    using log_of_or_1 [OF assms] by auto
  let ?T = "inc_literals ! k"
  let ?t = "length (decimal_digits ?T)"
  have tab: "(31 - k) XOR 31 = k" "?t \<le> 10"
    "?T = 0 \<and> ?t = 1 \<and> (2 :: nat) ^ Suc k \<le> 10 \<or>
      2 \<le> ?t \<and> k \<noteq> 0 \<and> ?T = 10 ^ (?t - 1) \<and> (10 :: nat) ^ (?t - 2) \<le> 2 ^ k \<and>
      (2 :: nat) ^ Suc k \<le> 10 ^ ?t"
    using table32 k(1) by (auto simp: list_all_iff Let_def)
  have len: "k < length inc_literals" using k(1) by (simp add: inc_literals_def)
  have pos: "0 < ?t" by simp
  have T: "?T < 2 ^ 32"
  proof -
    have "?T \<in> set inc_literals" using len by (rule nth_mem)
    then show ?thesis by (auto simp: inc_literals_def)
  qed
  have "do_count_digits32 n = unat (drop_bit 32 (of_nat n + FMT_INC ?T))"
    using len by (simp only: do_count_digits32_def k(2) tab(1) Let_def inc_table_def nth_map)
  also have "\<dots> = ?t - (if n < ?T then 1 else 0)"
    using FMT_INC_sum [OF assms T refl pos tab(2)] .
  finally have val: "do_count_digits32 n = ?t - (if n < ?T then 1 else 0)" .
  from tab(3) show ?thesis
  proof (elim disjE conjE)
    assume "?T = 0" "?t = 1" "(2 :: nat) ^ Suc k \<le> 10"
    moreover from this have "n < 10" using k(3) by linarith
    ultimately show ?thesis using val by (simp add: decimal_digits_small)
  next
    assume t: "2 \<le> ?t" "k \<noteq> 0" "?T = 10 ^ (?t - 1)"
      "(10 :: nat) ^ (?t - 2) \<le> 2 ^ k" "(2 :: nat) ^ Suc k \<le> 10 ^ ?t"
    have "10 ^ (?t - 2) \<le> n" "n < 10 ^ ?t" using t k(3,4) by linarith+
    from length_digits_between [OF this t(1)] show ?thesis unfolding val t(3) [symmetric] by (rule sym)
  qed
qed

text \<open>
  The three ways of counting decimal digits agree with decimal notation: the loop for
  every number, the table over the highest bit for every 64-bit number and the addition
  trick for every 32-bit number, whose 64-bit sum may wrap around.
\<close>

theorem count_digits_agree:
  "count_digits_fallback n 1 = length (decimal_digits n) \<and>
   (n < 2 ^ 64 \<longrightarrow> do_count_digits64 n = length (decimal_digits n)) \<and>
   (n < 2 ^ 32 \<longrightarrow> do_count_digits32 n = length (decimal_digits n))"
  using count_digits_fallback_digits [of 1 n] do_count_digits64_digits do_count_digits32_digits
  by simp

theorem count_digits_agree_witness:
  "count_digits_fallback 18446744073709551615 1 = do_count_digits64 18446744073709551615 \<and>
   do_count_digits32 4294967295 = count_digits_fallback 4294967295 1"
  using count_digits_agree [of 18446744073709551615] count_digits_agree [of 4294967295] by simp

section \<open>Writing decimal digits\<close>

text \<open>\<open>digits2\<close>: a pointer into the string of the pairs of digits, two characters of which are read.\<close>

definition digits2 :: "nat \<Rightarrow> string" where
  "digits2 v = take 2 (drop (v * 2)
    (''0001020304050607080910111213141516171819'' @
     ''2021222324252627282930313233343536373839'' @
     ''4041424344454647484950515253545556575859'' @
     ''6061626364656667686970717273747576777879'' @
     ''8081828384858687888990919293949596979899''))"

definition copy2 :: "string \<Rightarrow> nat \<Rightarrow> string \<Rightarrow> string" where
  "copy2 buf pos src = buf[pos := src ! 0, pos + 1 := src ! 1]"

text \<open>
  \<open>format_decimal\<close> writes backwards from \<open>out + size\<close>; \<open>pos\<close> is the index of \<open>out\<close> in the
  buffer, and a write in front of the buffer is undefined. The results are the index of the
  first character written and the buffer.
\<close>

function format_decimal_loop :: "nat \<Rightarrow> nat \<Rightarrow> string \<Rightarrow> (nat \<times> string) outcome" where
  "format_decimal_loop v pos buf =
     (if v \<ge> 100 then
        if pos < 2 then Undefined
        else format_decimal_loop (v div 100) (pos - 2) (copy2 buf (pos - 2) (digits2 (v mod 100)))
      else if v < 10 then
        if pos < 1 then Undefined else Done (pos - 1, buf[pos - 1 := digit_char v])
      else if pos < 2 then Undefined
      else Done (pos - 2, copy2 buf (pos - 2) (digits2 v)))"
  by pat_completeness auto
termination
  by (relation "measure fst") auto

declare format_decimal_loop.simps [simp del]

definition format_decimal :: "string \<Rightarrow> nat \<Rightarrow> nat \<Rightarrow> (nat \<times> string) outcome" where
  "format_decimal buf v sz = format_decimal_loop v sz buf"

lemma digit_chars:
  "digit_char 0 = CHR ''0''" "digit_char (Suc 0) = CHR ''1''" "digit_char 2 = CHR ''2''" "digit_char (Suc (Suc 0)) = CHR ''2''" "digit_char 3 = CHR ''3''" "digit_char 4 = CHR ''4''"
  "digit_char 5 = CHR ''5''" "digit_char 6 = CHR ''6''" "digit_char 7 = CHR ''7''" "digit_char 8 = CHR ''8''" "digit_char 9 = CHR ''9''"
  by code_simp+

lemma digits2_digits: "v < 100 \<Longrightarrow> digits2 v = [digit_char (v div 10), digit_char (v mod 10)]"
proof -
  have "list_all (\<lambda>v. digits2 v = [digit_char (v div 10), digit_char (v mod 10)]) [0..<100]"
    by (simp add: upt_rec digits2_def digit_chars)
  then show "v < 100 \<Longrightarrow> ?thesis" by (simp add: list_all_iff)
qed

lemma copy2_splice:
  "length pre = pos \<Longrightarrow> copy2 (pre @ x # y # post) pos [c, d] = pre @ c # d # post"
  by (simp add: copy2_def nth_append list_update_append)

lemma decimal_digits_100:
  "100 \<le> v \<Longrightarrow> decimal_digits v = decimal_digits (v div 100) @ digits2 (v mod 100)"
proof -
  assume v: "100 \<le> v"
  then have "10 \<le> v div 10" by linarith
  then have "decimal_digits v =
      decimal_digits (v div 10 div 10) @ [digit_char (v div 10 mod 10), digit_char (v mod 10)]"
    using v by (simp add: decimal_digits_step [of v] decimal_digits_step [of "v div 10"])
  moreover have "v div 10 mod 10 = v mod 100 div 10" "v mod 10 = v mod 100 mod 10"
    by (simp_all add: mod_mult2_eq [of v 10 10, simplified] mod_mod_cancel)
  ultimately show ?thesis by (simp add: digits2_digits div_mult2_eq [symmetric])
qed

lemma format_decimal_loop_digits:
  assumes "length pre + length (decimal_digits v) = pos" "length room = length (decimal_digits v)"
  shows "format_decimal_loop v pos (pre @ room @ post) =
    Done (length pre, pre @ decimal_digits v @ post)"
  using assms
proof (induction v arbitrary: pos room post rule: less_induct)
  case (less v)
  consider "v < 10" | "10 \<le> v" "v < 100" | "100 \<le> v" by linarith
  then show ?case
  proof cases
    case 1
    then obtain x where "room = [x]" using less.prems by (auto simp: decimal_digits_small length_Suc_conv)
    then show ?thesis using 1 less.prems
      by (subst format_decimal_loop.simps) (auto simp: decimal_digits_small list_update_append)
  next
    case 2
    then have digits: "decimal_digits v = digits2 v"
      by (simp add: decimal_digits_step decimal_digits_small digits2_digits)
    then have two: "digits2 v = [digit_char (v div 10), digit_char (v mod 10)]"
      using 2 by (simp add: digits2_digits)
    then obtain x y where "room = [x, y]"
      using less.prems(2) digits by (auto simp: length_Suc_conv numeral_2_eq_2)
    then show ?thesis using 2 less.prems digits two
      by (subst format_decimal_loop.simps) (auto simp: copy2_splice)
  next
    case 3
    let ?d = "digits2 (v mod 100)"
    obtain c d where two: "?d = [c, d]" by (simp add: digits2_digits)
    have len: "length (decimal_digits v) = length (decimal_digits (v div 100)) + 2"
      using 3 two by (simp add: decimal_digits_100)
    let ?n = "length (decimal_digits (v div 100))"
    have "length (drop ?n room) = 2" using less.prems(2) len by simp
    then obtain x y where "drop ?n room = [x, y]"
      unfolding numeral_2_eq_2 length_Suc_conv by auto
    then have room: "room = take ?n room @ [x, y]" by (metis append_take_drop_id)
    have room': "length (take ?n room) = ?n" using less.prems(2) len by simp
    have pos: "length (pre @ take ?n room) = pos - 2" "2 \<le> pos" "length pre + ?n = pos - 2"
      using less.prems len room' by simp_all
    have "copy2 (pre @ room @ post) (pos - 2) ?d = pre @ take ?n room @ (?d @ post)"
      using copy2_splice [OF pos(1), of x y post c d] two by (subst room) simp
    moreover have "format_decimal_loop (v div 100) (pos - 2) (pre @ take ?n room @ (?d @ post)) =
        Done (length pre, pre @ decimal_digits (v div 100) @ (?d @ post))"
      using 3 pos(3) room' by (intro less.IH) simp_all
    ultimately show ?thesis using 3 pos(2)
      by (subst format_decimal_loop.simps) (simp add: decimal_digits_100)
  qed
qed

section \<open>Powers of two as bases\<close>

lemma div_pow_less:
  fixes n :: nat
  assumes "0 < b" "2 ^ b \<le> n"
  shows "n div 2 ^ b < n"
proof (rule div_less_dividend)
  show "1 < (2 :: nat) ^ b" by (rule one_less_power) (use assms(1) in simp_all)
  show "0 < n" using assms(2) by (metis gr0I leD zero_less_numeral zero_less_power)
qed

definition hex_char :: "bool \<Rightarrow> nat \<Rightarrow> char" where
  "hex_char up d = (if up then ''0123456789ABCDEF'' else ''0123456789abcdef'') ! d"

text \<open>The specification: digits in base \<open>2 ^ b\<close>.\<close>

function radix_digits :: "nat \<Rightarrow> bool \<Rightarrow> nat \<Rightarrow> string" where
  "radix_digits b up n =
     (if b = 0 \<or> n < 2 ^ b then [hex_char up (n mod 2 ^ b)]
      else radix_digits b up (n div 2 ^ b) @ [hex_char up (n mod 2 ^ b)])"
  by pat_completeness auto
termination
  by (relation "measure (\<lambda>(b, up, n). n)") (auto simp: div_pow_less)

declare radix_digits.simps [simp del]

lemma radix_digits_not_Nil [simp]: "radix_digits b up n \<noteq> []"
  by (subst radix_digits.simps) simp

text \<open>The loop of \<open>count_digits<BITS>\<close>, and its shortcut for 32 bits.\<close>

function count_digits_loop :: "nat \<Rightarrow> nat \<Rightarrow> nat \<Rightarrow> nat" where
  "count_digits_loop bits m num_digits =
     (if drop_bit bits m \<noteq> 0 \<and> 0 < bits
      then count_digits_loop bits (drop_bit bits m) (num_digits + 1) else num_digits + 1)"
  by pat_completeness auto
termination
  by (relation "measure (\<lambda>(bits, m, n). m)")
    (auto simp: drop_bit_eq_div div_greater_zero_iff intro!: div_pow_less)

declare count_digits_loop.simps [simp del]

definition count_digits_base :: "nat \<Rightarrow> nat \<Rightarrow> nat \<Rightarrow> nat" where
  "count_digits_base bits num_bits n =
     (if num_bits = 32 then (clz 32 (n OR 1) XOR 31) div bits + 1
      else count_digits_loop bits n 0)"

text \<open>\<open>format_uint\<close> also writes backwards.\<close>

function format_uint_loop :: "nat \<Rightarrow> bool \<Rightarrow> nat \<Rightarrow> nat \<Rightarrow> string \<Rightarrow> string outcome" where
  "format_uint_loop bits up v pos buf =
     (if pos = 0 then Undefined
      else
        let d = v AND (2 ^ bits - 1);
            c = (if bits < 4 then digit_char d else hex_char up d);
            buf' = buf[pos - 1 := c];
            v' = drop_bit bits v in
        if v' \<noteq> 0 then format_uint_loop bits up v' (pos - 1) buf' else Done buf')"
  by pat_completeness auto
termination
  by (relation "measure (\<lambda>(bits, up, v, pos, buf). pos)") auto

declare format_uint_loop.simps [simp del]

definition format_uint :: "nat \<Rightarrow> bool \<Rightarrow> string \<Rightarrow> nat \<Rightarrow> nat \<Rightarrow> string outcome" where
  "format_uint bits up buf v num_digits = format_uint_loop bits up v num_digits buf"

lemma radix_digits_step:
  "0 < b \<Longrightarrow> 2 ^ b \<le> n \<Longrightarrow>
   radix_digits b up n = radix_digits b up (n div 2 ^ b) @ [hex_char up (n mod 2 ^ b)]"
  "n < 2 ^ b \<Longrightarrow> radix_digits b up n = [hex_char up n]"
  by (subst radix_digits.simps, simp)+

lemma count_digits_loop_radix:
  "0 < b \<Longrightarrow> count_digits_loop b n k = k + length (radix_digits b up n)"
proof (induction n arbitrary: k rule: less_induct)
  case (less n)
  show ?case
  proof (cases "n < 2 ^ b")
    case True
    then show ?thesis
      by (subst count_digits_loop.simps) (simp add: drop_bit_eq_div radix_digits_step)
  next
    case False
    then have "0 < n div 2 ^ b" by (simp add: div_greater_zero_iff)
    moreover have "n div 2 ^ b < n" using False less.prems by (simp add: div_pow_less)
    ultimately show ?thesis using less False
      by (subst count_digits_loop.simps) (simp add: drop_bit_eq_div radix_digits_step)
  qed
qed

lemma hex_char_small: "d < 10 \<Longrightarrow> hex_char up d = digit_char d"
proof -
  assume "d < 10"
  moreover have "list_all (\<lambda>d. hex_char True d = digit_char d \<and> hex_char False d = digit_char d) [0..<10]"
    by code_simp
  ultimately have "hex_char True d = digit_char d \<and> hex_char False d = digit_char d"
    by (simp add: list_all_iff)
  then show ?thesis by (cases up) simp_all
qed

lemma format_uint_loop_digits:
  assumes "0 < b" "b \<le> 4" "length pre + length (radix_digits b up v) = pos"
    and "length room = length (radix_digits b up v)"
  shows "format_uint_loop b up v pos (pre @ room @ post) = Done (pre @ radix_digits b up v @ post)"
  using assms(3,4)
proof (induction v arbitrary: pos room post rule: less_induct)
  case (less v)
  have digit: "(if b < 4 then digit_char d else hex_char up d) = hex_char up d"
    if "d < 2 ^ b" for d
  proof -
    have "d < 10" if "b < 4"
    proof -
      have "(2 :: nat) ^ b \<le> 2 ^ 3" using that by (intro power_increasing) auto
      with \<open>d < 2 ^ b\<close> show ?thesis by simp
    qed
    then show ?thesis by (simp add: hex_char_small)
  qed
  have mask: "v AND (2 ^ b - 1) = v mod 2 ^ b"
    unfolding take_bit_eq_mod [symmetric] take_bit_eq_mask mask_eq_exp_minus_1 by (rule refl)
  show ?case
  proof (cases "v < 2 ^ b")
    case True
    then obtain x where room: "room = [x]"
      using less.prems by (auto simp: radix_digits_step length_Suc_conv)
    have pos: "pos = Suc (length pre)" using less.prems True by (simp add: radix_digits_step)
    show ?thesis using True digit [of v]
      by (subst format_uint_loop.simps)
        (simp add: room pos drop_bit_eq_div radix_digits_step list_update_append Let_def
          mask [simplified])
  next
    case False
    let ?q = "v div 2 ^ b" and ?c = "hex_char up (v mod 2 ^ b)"
    have q: "?q \<noteq> 0" "?q < v" using False assms(1) by (simp_all add: div_pow_less div_greater_zero_iff)
    let ?n = "length (radix_digits b up ?q)"
    have step: "radix_digits b up v = radix_digits b up ?q @ [?c]"
      using False assms(1) by (simp add: radix_digits_step)
    then have "length (drop ?n room) = 1" using less.prems(2) by simp
    then obtain x where "drop ?n room = [x]" unfolding One_nat_def length_Suc_conv by auto
    then have room: "room = take ?n room @ [x]" by (metis append_take_drop_id)
    have len: "length (take ?n room) = ?n" "pos = Suc (length pre + ?n)"
      using less.prems step by simp_all
    have "(pre @ room @ post)[pos - 1 := ?c] = pre @ take ?n room @ (?c # post)"
      using len(1) by (subst room) (simp add: len(2) list_update_append del: length_take)
    moreover have "format_uint_loop b up ?q (pos - 1) (pre @ take ?n room @ (?c # post)) =
        Done (pre @ radix_digits b up ?q @ (?c # post))"
      using q(2) len by (intro less.IH) simp_all
    moreover have "format_uint_loop b up v pos (pre @ room @ post) =
        format_uint_loop b up ?q (pos - 1) ((pre @ room @ post)[pos - 1 := ?c])"
      using q(1) digit [of "v mod 2 ^ b"] len(2)
      by (subst format_uint_loop.simps) (simp add: mask [simplified] drop_bit_eq_div Let_def)
    ultimately show ?thesis by (simp only: step append_assoc append_Cons append_Nil)
  qed
qed

lemma length_radix_digits:
  "0 < b \<Longrightarrow> 0 < d \<Longrightarrow> n < 2 ^ (b * d) \<Longrightarrow> d = 1 \<or> 2 ^ (b * (d - 1)) \<le> n \<Longrightarrow>
   length (radix_digits b up n) = d"
proof (induction d arbitrary: n)
  case (Suc d)
  show ?case
  proof (cases "d = 0")
    case True
    then show ?thesis using Suc.prems by (simp add: radix_digits_step)
  next
    case False
    then have n: "2 ^ (b * d) \<le> n" "n < 2 ^ (b * d) * 2 ^ b"
      using Suc.prems by (simp_all add: power_add algebra_simps)
    have "2 ^ b * 2 ^ (b * (d - 1)) = (2 :: nat) ^ (b * d)"
      using False by (cases d) (simp_all add: power_add)
    then have "2 ^ (b * (d - 1)) \<le> n div 2 ^ b"
      using n(1) by (simp add: less_eq_div_iff_mult_less_eq mult.commute)
    moreover have "n div 2 ^ b < 2 ^ (b * d)" using n(2) by (intro less_mult_imp_div_less)
    ultimately have "length (radix_digits b up (n div 2 ^ b)) = d"
      using False Suc.prems(1) by (intro Suc.IH) auto
    moreover have "2 ^ b \<le> n"
    proof -
      have "(2 :: nat) ^ b \<le> 2 ^ (b * d)" using False by (intro power_increasing) auto
      with n(1) show ?thesis by linarith
    qed
    ultimately show ?thesis using Suc.prems(1) by (simp add: radix_digits_step)
  qed
qed simp

lemma xor_31:
  fixes k :: nat
  shows "k < 32 \<Longrightarrow> (31 - k) XOR 31 = k"
proof -
  have "list_all (\<lambda>k :: nat. (31 - k) XOR 31 = k) [0..<32]" by code_simp
  then show "k < 32 \<Longrightarrow> ?thesis" by (simp add: list_all_iff)
qed

lemma count_digits_base_radix:
  assumes "0 < b" "num_bits = 32 \<longrightarrow> n < 2 ^ 32"
  shows "count_digits_base b num_bits n = length (radix_digits b up n)"
proof (cases "num_bits = 32")
  case False
  then show ?thesis using count_digits_loop_radix [OF assms(1), of n 0 up]
    by (simp add: count_digits_base_def)
next
  case True
  then have "n < 2 ^ 32" using assms(2) by simp
  then obtain k where k: "k < 32" "clz 32 (n OR 1) = 31 - k" "n < 2 ^ Suc k" "k = 0 \<or> 2 ^ k \<le> n"
    using log_of_or_1 [of n 32] by auto
  have "count_digits_base b num_bits n = k div b + 1"
    unfolding count_digits_base_def k(2) xor_31 [OF k(1)] using True by simp
  moreover have "n < 2 ^ (b * (k div b + 1))"
  proof -
    have "Suc k \<le> b * (k div b + 1)"
      using assms(1) by (metis Suc_leI add.commute mult.commute dividend_less_div_times plus_1_eq_Suc mult_Suc_right)
    then have "(2 :: nat) ^ Suc k \<le> 2 ^ (b * (k div b + 1))" by (intro power_increasing) auto
    with k(3) show ?thesis by linarith
  qed
  moreover have "k div b + 1 = 1 \<or> 2 ^ (b * (k div b + 1 - 1)) \<le> n"
  proof (cases "k div b = 0")
    case False
    then have "k \<noteq> 0" by (intro notI) simp
    have "(2 :: nat) ^ (b * (k div b)) \<le> 2 ^ k" by (intro power_increasing) (auto simp: div_times_less_eq_dividend mult.commute)
    also have "2 ^ k \<le> n" using k(4) \<open>k \<noteq> 0\<close> by simp
    finally show ?thesis by simp
  qed simp
  ultimately show ?thesis using length_radix_digits [OF assms(1), of "k div b + 1" n up] by simp
qed

section \<open>Reading the digits back\<close>

lemma digit_char_code: "d < 10 \<Longrightarrow> code (digit_char d) = 48 + d"
  by (simp add: code_def digit_char_def)

lemma digit_char_digit: "d < 10 \<Longrightarrow> is_digit (digit_char d)" "d < 10 \<Longrightarrow> digit_value (digit_char d) = d"
  by (simp_all add: is_digit_def digit_value_def digit_char_code)

lemma decimal_decimal_digits: "decimal (decimal_digits n) = n"
  and digits_decimal_digits: "\<forall>c \<in> set (decimal_digits n). is_digit c"
proof (induction n rule: less_induct)
  case (less n)
  show "decimal (decimal_digits n) = n" "\<forall>c \<in> set (decimal_digits n). is_digit c"
  proof -
    have IH: "decimal (decimal_digits (n div 10)) = n div 10"
      "\<forall>c \<in> set (decimal_digits (n div 10)). is_digit c" if "10 \<le> n"
      using less [of "n div 10"] that by auto
    show "decimal (decimal_digits n) = n"
    proof (cases "n < 10")
      case True
      then show ?thesis by (simp add: decimal_digits_small decimal_def digit_char_digit)
    next
      case False
      then show ?thesis using IH by (simp add: decimal_digits_step digit_char_digit)
    qed
    show "\<forall>c \<in> set (decimal_digits n). is_digit c"
    proof (cases "n < 10")
      case True
      then show ?thesis by (simp add: decimal_digits_small digit_char_digit)
    next
      case False
      then show ?thesis using IH by (simp add: decimal_digits_step digit_char_digit)
    qed
  qed
qed

text \<open>
  The decimal writer and the decimal reader are inverse: for a buffer that has exactly
  the room \<open>count_digits\<close> asks for, \<open>format_decimal\<close> fills it from end to end without a
  write outside, and \<open>parse_nonnegative_int\<close> reads the number back from what it wrote, up
  to \<open>INT_MAX\<close>.
\<close>

theorem format_decimal_roundtrip:
  assumes "length buf = count_digits_fallback n 1" "rest = [] \<or> \<not> is_digit (hd rest)"
    and "int n \<le> INT_MAX"
  shows "\<exists>out. format_decimal buf n (length buf) = Done (0, out) \<and> out = decimal_digits n \<and>
    parse_nonnegative_int (out @ rest) e = (int n, rest)"
proof -
  have len: "length buf = length (decimal_digits n)"
    using assms(1) by (simp add: count_digits_fallback_digits)
  then have "format_decimal buf n (length buf) = Done (0, decimal_digits n)"
    using format_decimal_loop_digits [of "[]" n "length buf" buf "[]"]
    by (simp add: format_decimal_def)
  moreover have "length (decimal_digits n) \<le> 10"
  proof -
    have "n < 10 ^ 10" using assms(3) by (simp add: INT_MAX_def)
    then show ?thesis
      using count_digits_fallback_digits [of 1 n] decimal_digits_length_le [of n 10] by simp
  qed
  then have "number_literal (decimal_digits n)"
    using assms(3) digits_decimal_digits decimal_decimal_digits by (simp add: number_literal_def)
  from parse_number_literal [OF this assms(2), of e]
  have "parse_nonnegative_int (decimal_digits n @ rest) e = (int n, rest)"
    by (simp add: decimal_decimal_digits)
  ultimately show ?thesis by blast
qed

theorem format_decimal_roundtrip_witness:
  "\<exists>out. format_decimal ''...'' 407 3 = Done (0, out) \<and>
    parse_nonnegative_int (out @ ''}'') 0 = (407, ''}'')"
proof -
  have "length ''...'' = count_digits_fallback 407 1" by (simp add: count_digits_fallback.simps)
  from format_decimal_roundtrip [OF this, of "''}''" 0] show ?thesis
    by (auto simp: INT_MAX_def numeral_3_eq_3)
qed

text \<open>
  Binary, octal and hexadecimal: \<open>count_digits<BITS>\<close> is the number of digits, on the
  32-bit path through the position of the highest bit too, and \<open>format_uint\<close> fills a
  buffer of that size with exactly the digits in that base, most significant first.
\<close>

theorem format_uint_digits:
  assumes "b \<in> {1, 3, 4}" "num_bits = 32 \<longrightarrow> n < 2 ^ 32"
    and "length buf = count_digits_base b num_bits n"
  shows "format_uint b up buf n (length buf) = Done (radix_digits b up n)"
proof -
  have b: "0 < b" "b \<le> 4" using assms(1) by auto
  have "length buf = length (radix_digits b up n)"
    using count_digits_base_radix [OF b(1) assms(2)] assms(3) by simp
  then show ?thesis
    using format_uint_loop_digits [OF b, of "[]" up n "length buf" buf "[]"]
    by (simp add: format_uint_def)
qed

theorem format_uint_digits_witness:
  "format_uint 4 True ''........'' 3735928559 8 = Done (radix_digits 4 True 3735928559)"
proof -
  have n: "count_digits_base 4 64 3735928559 = 8"
    by (simp add: count_digits_base_def count_digits_loop.simps drop_bit_eq_div)
  have "length buf = 8 \<Longrightarrow> format_uint 4 True buf 3735928559 8 =
      Done (radix_digits 4 True 3735928559)" for buf
    using format_uint_digits [of 4 64 3735928559 buf True] n by simp
  then show ?thesis by simp
qed

end
