(* ===== verification/Fmt_Escape.thy ===== *)
theory Fmt_Escape
  imports Fmt_Unicode Fmt_Printable Fmt_Digits
begin

unbundle bit_operations_syntax

text \<open>
  The debug representation of strings and characters (fmt/include/fmt/format.h,
  \<open>needs_escape\<close> to \<open>write_escaped_char\<close>) for \<open>char\<close> and UTF-8. What is written to the output
  iterator is the result.
\<close>

section \<open>What is escaped and how\<close>

definition needs_escape :: "nat \<Rightarrow> bool" where
  "needs_escape cp \<longleftrightarrow> cp < 0x20 \<or> cp = 0x7f \<or> cp = code (CHR 0x22) \<or> cp = code (CHR 0x5C) \<or>
     is_printable cp \<noteq> Done True"

text \<open>
  \<open>find_escape\<close>: where the first code point to be escaped begins and ends and which one it
  is; \<open>None\<close> is the null pointer.
\<close>

definition find_escape :: "string \<Rightarrow> (nat \<times> nat option \<times> nat) outcome" where
  "find_escape s = for_each_codepoint s
     (\<lambda>cp p n result. if needs_escape cp then (False, (p, Some (p + n), cp)) else (True, result))
     (length s, None, 0)"

definition write_codepoint :: "nat \<Rightarrow> char \<Rightarrow> nat \<Rightarrow> string outcome" where
  "write_codepoint w prefix cp =
     bind_outcome (format_uint 4 False (replicate w (CHR ''0'')) cp w)
       (\<lambda>buf. Done (CHR 0x5C # prefix # buf))"

fun write_escaped_units :: "string \<Rightarrow> string outcome" where
  "write_escaped_units [] = Done []"
| "write_escaped_units (c # cs) =
     bind_outcome (write_codepoint 2 (CHR ''x'') (code c AND 0xFF)) (\<lambda>out.
       bind_outcome (write_escaped_units cs) (\<lambda>out'. Done (out @ out')))"

text \<open>\<open>write_escaped_cp\<close>, given the code point and the code units it was decoded from.\<close>

definition write_escaped_cp :: "string \<Rightarrow> nat \<Rightarrow> string outcome" where
  "write_escaped_cp units cp =
     (if cp = 10 then Done [CHR 0x5C, CHR ''n'']
      else if cp = 13 then Done [CHR 0x5C, CHR ''r'']
      else if cp = 9 then Done [CHR 0x5C, CHR ''t'']
      else if cp = 0x22 \<or> cp = 0x27 \<or> cp = 0x5C then Done [CHR 0x5C, char_of cp]
      else if cp < 0x100 then write_codepoint 2 (CHR ''x'') cp
      else if cp < 0x10000 then write_codepoint 4 (CHR ''u'') cp
      else if cp < 0x110000 then write_codepoint 8 (CHR ''U'') cp
      else write_escaped_units units)"

lemma find_escape_end:
  assumes "find_escape s = Done (b, Some e, cp)"
  shows "0 < e"
proof -
  have "visit (\<lambda>cp p n result. if needs_escape cp then (False, (p, Some (p + n), cp)) else (True, result))
      cps p r = (b, Some e, cp) \<Longrightarrow> \<forall>(cp, n) \<in> set cps. 0 < n \<Longrightarrow> fst (snd r) = None \<Longrightarrow> 0 < e" for cps p r
    by (induction cps arbitrary: p) (auto split: if_splits)
  moreover have "\<forall>(cp, n) \<in> set (code_points s). 0 < n"
  proof (induction s rule: code_points.induct)
    case (1 s)
    then show ?case
      using first_char_length [of s] by (subst code_points.simps) (auto split: prod.splits)
  qed
  ultimately show ?thesis using assms by (simp add: find_escape_def for_each_codepoint_eq)
qed

text \<open>The loop of \<open>write_escaped_string\<close> over what is left of the string.\<close>

function escaped_loop :: "string \<Rightarrow> string outcome" where
  "escaped_loop s =
     (case find_escape s of
        Done (b, None, cp) \<Rightarrow> Done (take b s)
      | Done (b, Some e, cp) \<Rightarrow>
          bind_outcome (write_escaped_cp (drop b (take e s)) cp) (\<lambda>esc.
            if drop e s \<noteq> [] then
              bind_outcome (escaped_loop (drop e s)) (\<lambda>out. Done (take b s @ esc @ out))
            else Done (take b s @ esc))
      | _ \<Rightarrow> Undefined)"
  by pat_completeness auto
termination
  by (relation "measure length") (auto dest: find_escape_end)

declare escaped_loop.simps [simp del]

definition write_escaped_string :: "string \<Rightarrow> string outcome" where
  "write_escaped_string s =
     bind_outcome (escaped_loop s) (\<lambda>out. Done (CHR 0x22 # out @ [CHR 0x22]))"

text \<open>\<open>char\<close> is signed, and converting it to \<open>uint32_t\<close> extends the sign.\<close>

definition char_to_uint32 :: "char \<Rightarrow> nat" where
  "char_to_uint32 c = (if code c < 0x80 then code c else 0x100000000 - 0x100 + code c)"

definition write_escaped_char :: "char \<Rightarrow> string outcome" where
  "write_escaped_char v =
     bind_outcome
       (if (needs_escape (char_to_uint32 v) \<and> v \<noteq> CHR 0x22) \<or> v = CHR 0x27
        then write_escaped_cp [v] (char_to_uint32 v) else Done [v])
       (\<lambda>out. Done (CHR 0x27 # out @ [CHR 0x27]))"

section \<open>The pieces of a string\<close>

function pieces :: "string \<Rightarrow> (nat \<times> string) list" where
  "pieces s = (if s = [] then []
     else (fst (first_char s), take (snd (first_char s)) s) # pieces (drop (snd (first_char s)) s))"
  by pat_completeness auto
termination
  by (relation "measure length") (auto simp: first_char_length)

declare pieces.simps [simp del]

lemma pieces_Nil [simp]: "pieces [] = []"
  by (simp add: pieces.simps)

lemma pieces_step:
  "s \<noteq> [] \<Longrightarrow> pieces s =
    (fst (first_char s), take (snd (first_char s)) s) # pieces (drop (snd (first_char s)) s)"
  by (subst pieces.simps) simp

lemma code_points_pieces: "code_points s = map (\<lambda>(cp, t). (cp, length t)) (pieces s)"
proof (induction s rule: pieces.induct)
  case (1 s)
  then show ?case
    using first_char_le [of s]
    by (cases "s = []")
      (simp_all add: code_points.simps [of s] code_points.simps [of "[]"] pieces_step min_def)
qed

lemma concat_pieces: "concat (map snd (pieces s)) = s"
proof (induction s rule: pieces.induct)
  case (1 s)
  then show ?case by (cases "s = []") (simp_all add: pieces_step)
qed

lemma pieces_not_Nil: "(cp, t) \<in> set (pieces s) \<Longrightarrow> t \<noteq> []"
proof (induction s rule: pieces.induct)
  case (1 s)
  then show ?case
    using first_char_length [of s] by (cases "s = []") (auto simp: pieces_step)
qed

lemma pieces_append:
  "pieces s = xs @ ys \<Longrightarrow> pieces (drop (length (concat (map snd xs))) s) = ys"
proof (induction xs arbitrary: s)
  case (Cons x xs)
  then have s: "s \<noteq> []" by auto
  have "length (snd x) = snd (first_char s)" "pieces (drop (snd (first_char s)) s) = xs @ ys"
    using Cons.prems first_char_le [OF s] by (auto simp: pieces_step [OF s])
  with Cons.IH [of "drop (snd (first_char s)) s"] show ?case by (simp add: add.commute)
qed simp

text \<open>The escaped text, piece by piece.\<close>

definition escape_piece :: "nat \<times> string \<Rightarrow> string outcome" where
  "escape_piece = (\<lambda>(cp, t). if needs_escape cp then write_escaped_cp t cp else Done t)"

fun escape_pieces :: "(nat \<times> string) list \<Rightarrow> string outcome" where
  "escape_pieces [] = Done []"
| "escape_pieces (p # ps) =
     bind_outcome (escape_piece p) (\<lambda>out. bind_outcome (escape_pieces ps) (\<lambda>out'. Done (out @ out')))"

lemma escape_pieces_append:
  "escape_pieces (xs @ ys) =
    bind_outcome (escape_pieces xs) (\<lambda>out. bind_outcome (escape_pieces ys) (\<lambda>out'. Done (out @ out')))"
  by (induction xs) (simp_all add: bind_outcome_assoc)

lemma escape_pieces_plain:
  "\<forall>(cp, t) \<in> set ps. \<not> needs_escape cp \<Longrightarrow> escape_pieces ps = Done (concat (map snd ps))"
  by (induction ps) (auto simp: escape_piece_def)

lemma visit_escape:
  "visit (\<lambda>cp p n result. if needs_escape cp then (False, (p, Some (p + n), cp)) else (True, result))
     (map (\<lambda>(cp, t). (cp, length t)) ps) p r =
   (let plain = takeWhile (\<lambda>(cp, t). \<not> needs_escape cp) ps; q = p + length (concat (map snd plain)) in
    case dropWhile (\<lambda>(cp, t). \<not> needs_escape cp) ps of
      [] \<Rightarrow> r
    | (cp, t) # _ \<Rightarrow> (q, Some (q + length t), cp))"
proof (induction ps arbitrary: p)
  case (Cons x ps)
  then show ?case by (cases x; cases "needs_escape (fst x)") (simp_all add: Let_def add.assoc del: dropWhile_eq_Nil_conv split: list.split)
qed simp

lemma escaped_loop_pieces: "escaped_loop s = escape_pieces (pieces s)"
proof (induction "length s" arbitrary: s rule: less_induct)
  case less
  let ?plain = "takeWhile (\<lambda>(cp, t). \<not> needs_escape cp) (pieces s)"
  let ?rest = "dropWhile (\<lambda>(cp, t). \<not> needs_escape cp) (pieces s)"
  let ?q = "length (concat (map snd ?plain))"
  have plain: "escape_pieces ?plain = Done (concat (map snd ?plain))"
    by (rule escape_pieces_plain) (auto dest: set_takeWhileD)
  have split: "pieces s = ?plain @ ?rest" by simp
  have s: "s = concat (map snd ?plain) @ concat (map snd ?rest)"
    unfolding concat_append [symmetric] map_append [symmetric] split [symmetric]
    by (rule concat_pieces [symmetric])
  have find: "find_escape s =
      Done (case ?rest of [] \<Rightarrow> (length s, None, 0) | (cp, t) # _ \<Rightarrow> (?q, Some (?q + length t), cp))"
    by (simp add: find_escape_def for_each_codepoint_eq code_points_pieces visit_escape Let_def)
  show ?case
  proof (cases ?rest)
    case Nil
    with s find plain split show ?thesis by (subst escaped_loop.simps) simp
  next
    case (Cons p ps)
    obtain cp t where p: "p = (cp, t)" by fastforce
    have esc: "needs_escape cp" using Cons p by (metis case_prod_conv dropWhile_eq_Cons_conv)
    have st: "s = concat (map snd ?plain) @ t @ concat (map snd ps)" using s Cons p by simp
    have take: "take ?q s = concat (map snd ?plain)" "drop ?q (take (?q + length t) s) = t"
      "drop (?q + length t) s = concat (map snd ps)"
      by (subst st, simp)+
    have ps: "pieces (concat (map snd ps)) = ps"
      using pieces_append [of s "?plain @ [p]" ps] split Cons p take(3) by simp
    have t: "t \<noteq> []" using pieces_not_Nil [of cp t s] split Cons p by (metis in_set_conv_decomp)
    have "length (concat (map snd ps)) < length s" using t by (subst st) simp
    then have IH: "escaped_loop (concat (map snd ps)) = escape_pieces ps" using less ps by metis
    have "escape_pieces (pieces s) = bind_outcome (write_escaped_cp t cp) (\<lambda>esc.
        bind_outcome (escape_pieces ps) (\<lambda>out. Done (concat (map snd ?plain) @ esc @ out)))"
      using esc by (subst split) (simp add: escape_pieces_append plain Cons p escape_piece_def bind_outcome_assoc)
    moreover have "escaped_loop s = bind_outcome (write_escaped_cp t cp) (\<lambda>esc.
        bind_outcome (escape_pieces ps) (\<lambda>out. Done (concat (map snd ?plain) @ esc @ out)))"
    proof (cases "concat (map snd ps) = []")
      case True
      then have "ps = []" using ps unfolding True by simp
      then show ?thesis by (subst escaped_loop.simps) (simp add: find Cons p take)
    next
      case False
      then show ?thesis by (subst escaped_loop.simps) (simp add: find Cons p take IH)
    qed
    ultimately show ?thesis by simp
  qed
qed

section \<open>Reading an escaped text back\<close>

text \<open>The reader of a C++ literal, as the specification: the code points the text stands for.\<close>

definition hex_digit_value :: "char \<Rightarrow> nat" where
  "hex_digit_value c =
     (if code c < 58 then code c - 48 else if code c < 71 then code c - 55 else code c - 87)"

definition hex_value :: "string \<Rightarrow> nat" where
  "hex_value s = foldl (\<lambda>v c. 16 * v + hex_digit_value c) 0 s"

text \<open>The code point a text starts with and the length of what stands for it.\<close>

definition read_one :: "string \<Rightarrow> nat \<times> nat" where
  "read_one s =
     (case s of
        b # c # r \<Rightarrow>
          if b = CHR 0x5C then
            if c = CHR ''n'' then (10, 2) else if c = CHR ''r'' then (13, 2)
            else if c = CHR ''t'' then (9, 2)
            else if c = CHR ''x'' then (hex_value (take 2 r), 4)
            else if c = CHR ''u'' then (hex_value (take 4 r), 6)
            else if c = CHR ''U'' then (hex_value (take 8 r), 10)
            else (code c, 2)
          else first_char s
      | _ \<Rightarrow> first_char s)"

function read_escaped :: "string \<Rightarrow> nat list" where
  "read_escaped s = (if s = [] then [] else fst (read_one s) # read_escaped (drop (snd (read_one s)) s))"
  by pat_completeness auto
termination
proof (relation "measure length")
  fix s :: string
  assume "s \<noteq> []"
  moreover have "0 < snd (read_one s)"
    using first_char_length [of s] by (auto simp: read_one_def split: list.split)
  ultimately show "(drop (snd (read_one s)) s, s) \<in> measure length" by simp
qed simp

declare read_escaped.simps [simp del]

lemma hex_char_values: "d < 16 \<Longrightarrow> hex_digit_value (hex_char False d) = d"
proof -
  have "list_all (\<lambda>d. hex_digit_value (hex_char False d) = d) [0..<16]" by code_simp
  then show "d < 16 \<Longrightarrow> ?thesis" by (simp add: list_all_iff)
qed

lemma hex_value_append: "hex_value (s @ [c]) = 16 * hex_value s + hex_digit_value c"
  by (simp add: hex_value_def)

lemma hex_value_digits: "hex_value (replicate k (CHR ''0'') @ radix_digits 4 False n) = n"
proof (induction n rule: less_induct)
  case (less n)
  have zeros: "hex_value (replicate k (CHR ''0'')) = 0"
    by (induction k) (simp_all add: hex_value_def hex_digit_value_def code_def)
  show ?case
  proof (cases "n < 16")
    case True
    then show ?thesis by (simp add: radix_digits_step(2) hex_value_append zeros hex_char_values)
  next
    case False
    then have "hex_value (replicate k (CHR ''0'') @ radix_digits 4 False (n div 16)) = n div 16"
      by (intro less) simp
    then show ?thesis
      using False radix_digits_step(1) [of 4 n False]
      by (simp add: hex_value_append hex_char_values flip: append_assoc)
  qed
qed

lemma length_radix_digits_le: "n < 16 ^ d \<Longrightarrow> 0 < d \<Longrightarrow> length (radix_digits 4 up n) \<le> d"
proof (induction d arbitrary: n)
  case (Suc d)
  show ?case
  proof (cases "n < 16")
    case True
    then show ?thesis by (simp add: radix_digits_step(2))
  next
    case False
    with Suc.prems have "0 < d" by (cases d) auto
    moreover have "n div 16 < 16 ^ d" using Suc.prems by (intro less_mult_imp_div_less) (simp add: mult.commute)
    ultimately have "length (radix_digits 4 up (n div 16)) \<le> d" using Suc.IH by blast
    then show ?thesis using False by (simp add: radix_digits_step(1))
  qed
qed simp

text \<open>\<open>\\x\<close>, \<open>\\u\<close> and \<open>\\U\<close> escapes have a fixed width.\<close>

lemma write_codepoint_digits:
  assumes "cp < 16 ^ w" "0 < w"
  shows "\<exists>out. write_codepoint w p cp = Done (CHR 0x5C # p # out) \<and> length out = w \<and> hex_value out = cp"
proof -
  let ?d = "radix_digits 4 False cp"
  have len: "length ?d \<le> w" by (rule length_radix_digits_le [OF assms])
  have "replicate w (CHR ''0'') = replicate (w - length ?d) (CHR ''0'') @ replicate (length ?d) (CHR ''0'')"
    using len by (simp flip: replicate_add)
  then have "format_uint 4 False (replicate w (CHR ''0'')) cp w =
      Done (replicate (w - length ?d) (CHR ''0'') @ ?d)"
    using format_uint_loop_digits [of 4 "replicate (w - length ?d) (CHR ''0'')" False cp w
        "replicate (length ?d) (CHR ''0'')" "[]"] len
    by (simp add: format_uint_def)
  then show ?thesis
    using len hex_value_digits [of "w - length ?d" cp] by (simp add: write_codepoint_def del: bind_outcome_Done)
qed

lemma read_one_codepoint:
  assumes "length d = (if p = CHR ''x'' then 2 else if p = CHR ''u'' then 4 else 8)"
    and "p = CHR ''x'' \<or> p = CHR ''u'' \<or> p = CHR ''U''"
  shows "read_one (CHR 0x5C # p # d @ r) = (hex_value d, length d + 2)"
  using assms by (auto simp: read_one_def split: if_splits)

lemma read_one_utf8:
  assumes "scalar cp" "cp \<noteq> 0x5C"
  shows "read_one (utf8 cp @ r) = (cp, length (utf8 cp))"
proof -
  obtain b t where u: "utf8 cp = b # t" by (cases "utf8 cp") auto
  have "code b = hd (utf8_bytes cp)"
    using u assms(1) by (auto simp: utf8_def utf8_bytes_def scalar_def split: if_splits)
  then have "b \<noteq> CHR 0x5C"
    using assms by (auto simp: utf8_bytes_def code_def split: if_splits)
  then have "read_one (utf8 cp @ r) = first_char (utf8 cp @ r)"
    by (simp add: read_one_def u split: list.split)
  then show ?thesis using first_char_utf8 [OF assms(1)] by simp
qed

lemma read_one_piece:
  assumes "scalar cp"
  shows "\<exists>out. escape_piece (cp, utf8 cp) = Done out \<and> out \<noteq> [] \<and>
    (\<forall>r. read_one (out @ r) = (cp, length out))"
proof (cases "needs_escape cp")
  case False
  then have "cp \<noteq> 0x5C" by (auto simp: needs_escape_def code_def)
  with False show ?thesis using read_one_utf8 [OF assms] by (simp add: escape_piece_def)
next
  case True
  have cp: "cp < 0x110000" using assms by (simp add: scalar_def)
  consider "cp = 10 \<or> cp = 13 \<or> cp = 9" | "cp = 0x22 \<or> cp = 0x27 \<or> cp = 0x5C"
    | "\<not> (cp = 10 \<or> cp = 13 \<or> cp = 9 \<or> cp = 0x22 \<or> cp = 0x27 \<or> cp = 0x5C)" "cp < 0x100"
    | "0x100 \<le> cp" "cp < 0x10000" | "0x10000 \<le> cp"
    by linarith
  then show ?thesis
  proof cases
    case 1
    with True show ?thesis by (auto simp: escape_piece_def write_escaped_cp_def read_one_def)
  next
    case 2
    have "char_of (0x22 :: nat) = CHR 0x22" "char_of (0x27 :: nat) = CHR 0x27"
      "char_of (0x5C :: nat) = CHR 0x5C"
      by (simp_all add: char_of_eq_iff take_bit_eq_mod)
    moreover have "write_escaped_cp (utf8 cp) cp = Done [CHR 0x5C, char_of cp]"
      using 2 by (elim disjE) (simp_all add: write_escaped_cp_def)
    moreover have "read_one ([CHR 0x5C, c] @ r) = (code c, 2)" if "c \<in> {CHR 0x22, CHR 0x27, CHR 0x5C}" for c r
      using that by (auto simp: read_one_def)
    ultimately show ?thesis using 2 True by (elim disjE) (simp_all add: escape_piece_def code_def)
  next
    case 3
    then obtain d where "write_codepoint 2 (CHR ''x'') cp = Done (CHR 0x5C # CHR ''x'' # d)"
      "length d = 2" "hex_value d = cp"
      using write_codepoint_digits [of cp 2 "CHR ''x''"] by auto
    with 3 True show ?thesis
      using read_one_codepoint [of d "CHR ''x''"] by (simp add: escape_piece_def write_escaped_cp_def)
  next
    case 4
    then obtain d where "write_codepoint 4 (CHR ''u'') cp = Done (CHR 0x5C # CHR ''u'' # d)"
      "length d = 4" "hex_value d = cp"
      using write_codepoint_digits [of cp 4 "CHR ''u''"] by auto
    with 4 True show ?thesis
      using read_one_codepoint [of d "CHR ''u''"] by (simp add: escape_piece_def write_escaped_cp_def)
  next
    case 5
    then obtain d where "write_codepoint 8 (CHR ''U'') cp = Done (CHR 0x5C # CHR ''U'' # d)"
      "length d = 8" "hex_value d = cp"
      using write_codepoint_digits [of cp 8 "CHR ''U''"] cp by auto
    with 5 cp True show ?thesis
      using read_one_codepoint [of d "CHR ''U''"] by (simp add: escape_piece_def write_escaped_cp_def)
  qed
qed

lemma pieces_utf8:
  "\<forall>cp \<in> set cps. scalar cp \<Longrightarrow> pieces (concat (map utf8 cps)) = map (\<lambda>cp. (cp, utf8 cp)) cps"
  by (induction cps) (simp_all add: pieces_step first_char_utf8)

lemma read_escape_pieces:
  "\<forall>cp \<in> set cps. scalar cp \<Longrightarrow>
    \<exists>out. escape_pieces (map (\<lambda>cp. (cp, utf8 cp)) cps) = Done out \<and> read_escaped out = cps"
proof (induction cps)
  case Nil
  show ?case by (simp add: read_escaped.simps)
next
  case (Cons cp cps)
  then obtain out where out: "escape_pieces (map (\<lambda>cp. (cp, utf8 cp)) cps) = Done out" "read_escaped out = cps"
    by auto
  obtain o1 where o1: "escape_piece (cp, utf8 cp) = Done o1" "o1 \<noteq> []" "read_one (o1 @ out) = (cp, length o1)"
    using read_one_piece [of cp] Cons.prems by auto
  then have "read_escaped (o1 @ out) = cp # cps"
    by (subst read_escaped.simps) (simp add: out)
  then show ?case by (simp add: out o1)
qed



lemma control_not_printable: "0x80 \<le> cp \<Longrightarrow> cp < 0xA0 \<Longrightarrow> is_printable cp = Done False"
proof -
  assume a: "0x80 \<le> cp" "cp < 0xA0"
  then have u: "drop_bit 8 cp = 0" by (simp add: drop_bit_eq_div)
  have "cp AND 0xff = cp"
    using a take_bit_eq_mask [of 8 cp] by (simp add: take_bit_eq_mod mask_eq_exp_minus_1)
  with a u have "singletons_loop cp singletons0 singletons0_lower 0 = Done False"
    by (simp add: singletons0_def singletons0_lower_def lowers_loop.simps Let_def del: bind_outcome_Done)
  moreover have "normal_loop (int cp) normal0 True = Done False"
    using a by (auto simp: normal0_def)
  ultimately show ?thesis using a by (simp add: is_printable_def is_printable16_def)
qed

lemma first_char_stray:
  assumes "0x80 \<le> code b" "code b < 0xC0"
  shows "first_char [b] = (invalid_code_point, 1)"
proof -
  let ?s = "[b] @ replicate 3 (char_of (0 :: nat))"
  have len: "4 \<le> length ?s" by simp
  obtain c e where "utf8_decode ?s = Done (c, e, 1)" "e \<noteq> 0"
    using utf8_decode_cases(2) [OF len refl refl refl refl] assms by auto
  then show ?thesis by (simp add: first_char_def)
qed

lemma invalid_needs_escape: "needs_escape invalid_code_point"
  by (simp add: needs_escape_def invalid_code_point_def is_printable_def)

text \<open>
  Of texts that are not well-formed this is not so: a C1 control character and the stray
  byte with the same number have the same debug representation.
\<close>

theorem escaped_string_ambiguous:
  assumes "0x80 \<le> cp" "cp < 0xA0"
  shows "write_escaped_string [char_of cp] = write_escaped_string (utf8 cp) \<and> [char_of cp] \<noteq> utf8 cp"
proof -
  have sc: "scalar cp" and lt: "cp < 256" using assms by (simp_all add: scalar_def)
  have one: "pieces [char_of cp] = [(invalid_code_point, [char_of cp])]"
    using first_char_stray [of "char_of cp"] assms lt by (simp add: pieces_step)
  have two: "pieces (utf8 cp) = [(cp, utf8 cp)]" using pieces_utf8 [of "[cp]"] sc by simp
  have "cp AND 0xff = cp"
    using lt take_bit_eq_mask [of 8 cp] by (simp add: take_bit_eq_mod mask_eq_exp_minus_1)
  then have "write_escaped_cp [char_of cp] invalid_code_point = write_codepoint 2 (CHR ''x'') cp"
    using lt by (simp add: write_escaped_cp_def invalid_code_point_def del: bind_outcome_Done)
  moreover have "write_escaped_cp (utf8 cp) cp = write_codepoint 2 (CHR ''x'') cp"
    using assms by (simp add: write_escaped_cp_def)
  moreover have "needs_escape cp" using control_not_printable [OF assms] by (simp add: needs_escape_def)
  ultimately have "escape_pieces (pieces [char_of cp]) = escape_pieces (pieces (utf8 cp))"
    by (simp add: one two escape_piece_def invalid_needs_escape del: bind_outcome_Done)
  moreover have "length (utf8 cp) \<noteq> length [char_of cp]" using assms by (simp add: utf8_def utf8_bytes_def)
  then have "[char_of cp] \<noteq> utf8 cp" by metis
  ultimately show ?thesis by (auto simp: write_escaped_string_def escaped_loop_pieces)
qed

theorem escaped_string_ambiguous_witness:
  "write_escaped_string [char_of (0x85 :: nat)] = write_escaped_string (utf8 0x85)"
  using escaped_string_ambiguous [of "0x85"] by simp

end
