(* ===== verification/Fmt_Write.thy ===== *)
theory Fmt_Write
  imports Fmt_Escape Fmt_Specs
begin

unbundle bit_operations_syntax

text \<open>
  Writing values with format specifications (fmt/include/fmt/format.h): padding, bytes,
  pointers, characters, integers with their prefixes and digit grouping, and strings. What a
  function appends to its output iterator is its result; a failed \<open>FMT_ASSERT\<close> is \<open>Undefined\<close>.
  Unsigned values are naturals together with the number of bits of their type.
\<close>

section \<open>Padding\<close>

definition fill_text :: "nat \<Rightarrow> string \<Rightarrow> string" where
  "fill_text n f = (if length f = 1 then replicate n (f ! 0) else concat (replicate n f))"

primrec align_index :: "align_t \<Rightarrow> nat" where
  "align_index align_none = 0"
| "align_index align_left = 1"
| "align_index align_right = 2"
| "align_index align_center = 3"
| "align_index align_numeric = 4"

text \<open>The shifts are a string literal; \<open>numeric\<close> reads its terminating zero.\<close>

definition padding_shifts :: "align_t \<Rightarrow> nat list" where
  "padding_shifts al = (if al = align_left then [31, 31, 0, 1, 0] else [0, 31, 0, 1, 0])"

definition to_unsigned :: "int \<Rightarrow> nat outcome" where
  "to_unsigned v = (if v \<ge> 0 then Done (nat v) else Undefined)"

definition write_padded ::
  "align_t \<Rightarrow> 'a format_specs_scheme \<Rightarrow> nat \<Rightarrow> string outcome \<Rightarrow> string outcome" where
  "write_padded al specs w f =
     bind_outcome (to_unsigned (width specs)) (\<lambda>spec_width.
       let padding = (if spec_width > w then spec_width - w else 0);
           left_padding = drop_bit (padding_shifts al ! align_index (align specs)) padding;
           right_padding = padding - left_padding
       in bind_outcome f (\<lambda>out.
            Done (fill_text left_padding (fill specs) @ out @ fill_text right_padding (fill specs))))"

definition write_bytes :: "align_t \<Rightarrow> string \<Rightarrow> 'a format_specs_scheme \<Rightarrow> string outcome" where
  "write_bytes al bytes specs = write_padded al specs (length bytes) (Done bytes)"

section \<open>Digits through an output iterator\<close>

definition count_digits :: "nat \<Rightarrow> nat \<Rightarrow> nat" where
  "count_digits num_bits n =
     (if num_bits = 32 then do_count_digits32 n
      else if num_bits = 64 then do_count_digits64 n
      else count_digits_fallback n 1)"

definition digits10 :: "nat \<Rightarrow> nat" where
  "digits10 num_bits = (if num_bits = 32 then 9 else if num_bits = 64 then 19 else 38)"

definition format_decimal_to :: "nat \<Rightarrow> nat \<Rightarrow> nat \<Rightarrow> string outcome" where
  "format_decimal_to num_bits v sz =
     (if digits10 num_bits + 1 < sz then Undefined
      else bind_outcome (format_decimal (replicate (digits10 num_bits + 1) (char_of (0 :: nat))) v sz)
             (\<lambda>(pos, buf). Done (take sz buf)))"

definition format_uint_to :: "nat \<Rightarrow> nat \<Rightarrow> nat \<Rightarrow> nat \<Rightarrow> bool \<Rightarrow> string outcome" where
  "format_uint_to base_bits num_bits v num_digits up =
     (if num_bits div base_bits + 1 < num_digits then Undefined
      else bind_outcome
             (format_uint base_bits up (replicate (num_bits div base_bits + 1) (char_of (0 :: nat))) v num_digits)
             (\<lambda>buf. Done (take num_digits buf)))"

section \<open>Pointers and characters\<close>

text \<open>\<open>uintptr_t\<close> has 64 bits. \<open>None\<close> is the call without specifications.\<close>

definition write_ptr :: "nat \<Rightarrow> 'a format_specs_scheme option \<Rightarrow> string outcome" where
  "write_ptr v specs =
     (let num_digits = count_digits_base 4 64 v;
          write = bind_outcome (format_uint_to 4 64 v num_digits False) (\<lambda>d. Done (''0x'' @ d))
      in case specs of
           Some s \<Rightarrow> write_padded align_right s (num_digits + 2) write
         | None \<Rightarrow> write)"

definition check_char_specs :: "'a format_specs_scheme \<Rightarrow> string + bool" where
  "check_char_specs specs =
     (if pres specs \<noteq> pres_none \<and> pres specs \<noteq> pres_chr \<and> pres specs \<noteq> pres_debug then Inr False
      else if align specs = align_numeric \<or> sign specs \<noteq> sign_none \<or> alt specs
      then Inl ''invalid format specifier for char'' else Inr True)"

definition write_char :: "char \<Rightarrow> 'a format_specs_scheme \<Rightarrow> string outcome" where
  "write_char v specs =
     write_padded align_left specs 1
       (if pres specs = pres_debug then write_escaped_char v else Done [v])"

section \<open>Integers\<close>

text \<open>The prefix of an integer: three characters in the low bytes and their number in the top one.\<close>

definition prefix_append :: "32 word \<Rightarrow> 32 word \<Rightarrow> 32 word" where
  "prefix_append prefix v =
     (prefix OR (if prefix \<noteq> 0 then push_bit 8 v else v)) + push_bit 24 (1 + (if v > 0xff then 1 else 0))"

function prefix_loop :: "32 word \<Rightarrow> string" where
  "prefix_loop p = (if p = 0 then [] else char_of (unat (p AND 0xff)) # prefix_loop (drop_bit 8 p))"
  by pat_completeness auto
termination
proof (relation "measure unat")
  fix p :: "32 word"
  assume "p \<noteq> 0"
  then have "0 < unat p" by (simp add: unat_gt_0)
  then have "unat p div 2 ^ 8 < unat p" by (intro div_less_dividend) simp_all
  moreover have "unat (drop_bit 8 p) = unat p div 2 ^ 8" by (subst unat_drop_bit_eq) (rule drop_bit_eq_div)
  ultimately show "(drop_bit 8 p, p) \<in> measure unat" by (simp only: in_measure)
qed simp

declare prefix_loop.simps [simp del]

definition prefix_text :: "32 word \<Rightarrow> string" where
  "prefix_text prefix = prefix_loop (prefix AND 0xffffff)"

definition prefix_size :: "32 word \<Rightarrow> nat" where
  "prefix_size prefix = unat (drop_bit 24 prefix)"

record write_int_data =
  data_size :: nat
  data_padding :: nat

definition write_int_data_of :: "nat \<Rightarrow> 32 word \<Rightarrow> 'a format_specs_scheme \<Rightarrow> write_int_data" where
  "write_int_data_of num_digits prefix specs =
     (let sz = prefix_size prefix + num_digits in
      if align specs = align_numeric then
        (let w = nat (width specs) in
         if w > sz then \<lparr>data_size = w, data_padding = w - sz\<rparr> else \<lparr>data_size = sz, data_padding = 0\<rparr>)
      else if precision specs > int num_digits then
        \<lparr>data_size = prefix_size prefix + nat (precision specs),
         data_padding = nat (precision specs - int num_digits)\<rparr>
      else \<lparr>data_size = sz, data_padding = 0\<rparr>)"

definition write_int_padded ::
  "nat \<Rightarrow> 32 word \<Rightarrow> 'a format_specs_scheme \<Rightarrow> string outcome \<Rightarrow> string outcome" where
  "write_int_padded num_digits prefix specs write_digits =
     (if (width specs OR (precision specs + 1)) = 0 then
        bind_outcome write_digits (\<lambda>d. Done ((if prefix \<noteq> 0 then prefix_text prefix else []) @ d))
      else
        let data = write_int_data_of num_digits prefix specs in
        write_padded align_right specs (data_size data)
          (bind_outcome write_digits (\<lambda>d.
             Done (prefix_text prefix @ replicate (data_padding data) (CHR ''0'') @ d))))"

record write_int_arg =
  abs_value :: nat
  arg_prefix :: "32 word"

primrec sign_index :: "sign_t \<Rightarrow> nat" where
  "sign_index sign_none = 0"
| "sign_index sign_minus = 1"
| "sign_index sign_plus = 2"
| "sign_index sign_space = 3"

text \<open>
  The value of a signed or unsigned type whose unsigned counterpart has \<open>num_bits\<close> bits, 32,
  64 or 128; the subtraction wraps around.
\<close>

definition make_write_int_arg :: "nat \<Rightarrow> int \<Rightarrow> sign_t \<Rightarrow> write_int_arg" where
  "make_write_int_arg num_bits v s =
     (let a = nat (v mod 2 ^ num_bits) in
      if v < 0 then
        \<lparr>abs_value = nat ((0 - int a) mod 2 ^ num_bits), arg_prefix = 0x01000000 OR word_of_nat (code (CHR ''-''))\<rparr>
      else
        \<lparr>abs_value = a,
         arg_prefix = [0, 0, 0x1000000 OR word_of_nat (code (CHR ''+'')),
           0x1000000 OR word_of_nat (code (CHR '' ''))] ! sign_index s\<rparr>)"

definition base_prefix :: "char \<Rightarrow> 32 word" where
  "base_prefix x = push_bit 8 (word_of_nat (code x)) OR word_of_nat (code (CHR ''0''))"

definition write_int :: "nat \<Rightarrow> write_int_arg \<Rightarrow> 'a format_specs_scheme \<Rightarrow> string outcome" where
  "write_int num_bits arg specs =
     (let v = abs_value arg; prefix = arg_prefix arg; t = pres specs in
      if t = pres_none \<or> t = pres_dec then
        (let num_digits = count_digits num_bits v in
         write_int_padded num_digits prefix specs (format_decimal_to num_bits v num_digits))
      else if t = pres_hex then
        (let prefix = (if alt specs then prefix_append prefix (base_prefix (if upper specs then CHR ''X'' else CHR ''x''))
               else prefix);
             num_digits = count_digits_base 4 num_bits v in
         write_int_padded num_digits prefix specs (format_uint_to 4 num_bits v num_digits (upper specs)))
      else if t = pres_oct then
        (let num_digits = count_digits_base 3 num_bits v;
             prefix = (if alt specs \<and> precision specs \<le> int num_digits \<and> v \<noteq> 0
               then prefix_append prefix (word_of_nat (code (CHR ''0''))) else prefix) in
         write_int_padded num_digits prefix specs (format_uint_to 3 num_bits v num_digits False))
      else if t = pres_bin then
        (let prefix = (if alt specs then prefix_append prefix (base_prefix (if upper specs then CHR ''B'' else CHR ''b''))
               else prefix);
             num_digits = count_digits_base 1 num_bits v in
         write_int_padded num_digits prefix specs (format_uint_to 1 num_bits v num_digits False))
      else if t = pres_chr then write_char (char_of v) specs
      else Undefined)"

section \<open>Digit grouping\<close>

record digit_grouping =
  grouping :: "int list"
  thousands_sep :: string

text \<open>\<open>next\<close>: the state is the rest of the groups and the position.\<close>

definition next_group :: "digit_grouping \<Rightarrow> int list \<times> int \<Rightarrow> (int \<times> (int list \<times> int)) outcome" where
  "next_group g st =
     (case st of (rest, pos) \<Rightarrow>
        if thousands_sep g = [] then Done (INT_MAX, st)
        else case rest of
               [] \<Rightarrow> if grouping g = [] then Undefined
                     else let pos' = pos + List.last (grouping g) in Done (pos', ([], pos'))
             | c # cs \<Rightarrow> if c \<le> 0 \<or> c = 127 then Done (INT_MAX, st)
                         else Done (pos + c, (cs, pos + c)))"

text \<open>
  The two loops over the separator positions. They need not end, so they have fuel; running
  out of it is \<open>Blocks\<close>.
\<close>

fun count_separators_loop ::
  "nat \<Rightarrow> digit_grouping \<Rightarrow> nat \<Rightarrow> int list \<times> int \<Rightarrow> nat \<Rightarrow> nat outcome" where
  "count_separators_loop 0 g num_digits st cnt = Blocks"
| "count_separators_loop (Suc fuel) g num_digits st cnt =
     bind_outcome (next_group g st) (\<lambda>(i, st').
       if int num_digits > i then count_separators_loop fuel g num_digits st' (cnt + 1) else Done cnt)"

definition count_separators :: "nat \<Rightarrow> digit_grouping \<Rightarrow> nat \<Rightarrow> nat outcome" where
  "count_separators fuel g num_digits = count_separators_loop fuel g num_digits (grouping g, 0) 0"

fun separators_loop ::
  "nat \<Rightarrow> digit_grouping \<Rightarrow> nat \<Rightarrow> int list \<times> int \<Rightarrow> int list \<Rightarrow> int list outcome" where
  "separators_loop 0 g num_digits st separators = Blocks"
| "separators_loop (Suc fuel) g num_digits st separators =
     bind_outcome (next_group g st) (\<lambda>(i, st').
       if i = 0 \<or> i \<ge> int num_digits then Done separators
       else separators_loop fuel g num_digits st' (separators @ [i]))"

fun apply_loop ::
  "digit_grouping \<Rightarrow> string \<Rightarrow> int list \<Rightarrow> int \<Rightarrow> nat \<Rightarrow> string outcome" where
  "apply_loop g digits separators sep_index 0 = Done []"
| "apply_loop g digits separators sep_index (Suc left) =
     (let i = length digits - Suc left in
      if sep_index < 0 \<or> int (length separators) \<le> sep_index then Undefined
      else if int (length digits - i) = separators ! nat sep_index then
        bind_outcome (apply_loop g digits separators (sep_index - 1) left)
          (\<lambda>out. Done (thousands_sep g @ digits ! i # out))
      else
        bind_outcome (apply_loop g digits separators sep_index left)
          (\<lambda>out. Done (digits ! i # out)))"

definition apply_grouping :: "nat \<Rightarrow> digit_grouping \<Rightarrow> string \<Rightarrow> string outcome" where
  "apply_grouping fuel g digits =
     bind_outcome (separators_loop fuel g (length digits) (grouping g, 0) [0]) (\<lambda>separators.
       apply_loop g digits separators (int (length separators) - 1) (length digits))"

definition write_int_grouped ::
  "nat \<Rightarrow> nat \<Rightarrow> nat \<Rightarrow> 32 word \<Rightarrow> 'a format_specs_scheme \<Rightarrow> digit_grouping \<Rightarrow> string outcome" where
  "write_int_grouped fuel num_bits v prefix specs g =
     (let t = pres specs;
          finish = (\<lambda>prefix num_digits buffer.
            bind_outcome buffer (\<lambda>digits.
              bind_outcome (count_separators fuel g num_digits) (\<lambda>seps.
                let sz = (if prefix \<noteq> 0 then prefix_size prefix else 0) + num_digits + seps in
                write_padded align_right specs sz
                  (bind_outcome (apply_grouping fuel g digits) (\<lambda>out. Done (prefix_text prefix @ out))))))
      in
      if t = pres_none \<or> t = pres_dec then
        (let n = count_digits num_bits v in finish prefix n (format_decimal_to num_bits v n))
      else if t = pres_hex then
        (let prefix = (if alt specs then prefix_append prefix (base_prefix (if upper specs then CHR ''X'' else CHR ''x''))
               else prefix);
             n = count_digits_base 4 num_bits v in
         finish prefix n (format_uint_to 4 num_bits v n (upper specs)))
      else if t = pres_oct then
        (let n = count_digits_base 3 num_bits v;
             prefix = (if alt specs \<and> precision specs \<le> int n \<and> v \<noteq> 0
               then prefix_append prefix (word_of_nat (code (CHR ''0''))) else prefix) in
         finish prefix n (format_uint_to 3 num_bits v n False))
      else if t = pres_bin then
        (let prefix = (if alt specs then prefix_append prefix (base_prefix (if upper specs then CHR ''B'' else CHR ''b''))
               else prefix);
             n = count_digits_base 1 num_bits v in
         finish prefix n (format_uint_to 1 num_bits v n False))
      else if t = pres_chr then write_char (char_of v) specs
      else Undefined)"

section \<open>Default integers, Booleans and strings\<close>

text \<open>\<open>write\<close> of an integer without specifications.\<close>

definition write_int_default :: "nat \<Rightarrow> int \<Rightarrow> string outcome" where
  "write_int_default num_bits v =
     (let a = nat (v mod 2 ^ num_bits);
          a = (if v < 0 then (2 ^ num_bits - 1 - a + 1) mod 2 ^ num_bits else a);
          num_digits = count_digits num_bits a
      in bind_outcome (format_decimal_to num_bits a num_digits)
           (\<lambda>d. Done ((if v < 0 then [CHR ''-''] else []) @ d)))"

text \<open>
  \<open>write_loc\<close> with the separator and the grouping of the locale's facet, for integers.
\<close>

definition loc_writer :: "nat \<Rightarrow> nat \<Rightarrow> int \<Rightarrow> 'a format_specs_scheme \<Rightarrow> digit_grouping \<Rightarrow> string outcome" where
  "loc_writer fuel num_bits v specs loc =
     (let arg = make_write_int_arg num_bits v (sign specs) in
      write_int_grouped fuel (max num_bits 64) (abs_value arg) (arg_prefix arg) specs loc)"

definition write_integer ::
  "nat \<Rightarrow> nat \<Rightarrow> int \<Rightarrow> 'a format_specs_scheme \<Rightarrow> digit_grouping \<Rightarrow> string outcome" where
  "write_integer fuel num_bits v specs loc =
     (if localized specs then loc_writer fuel num_bits v specs loc
      else write_int num_bits (make_write_int_arg num_bits v (sign specs)) specs)"

text \<open>The locale of the integer a \<open>bool\<close> is converted to is the global one.\<close>

definition write_bool :: "nat \<Rightarrow> bool \<Rightarrow> 'a format_specs_scheme \<Rightarrow> digit_grouping \<Rightarrow> string outcome" where
  "write_bool fuel v specs global_loc =
     (if pres specs \<noteq> pres_none \<and> pres specs \<noteq> pres_string
      then write_integer fuel 32 (if v then 1 else 0) specs global_loc
      else write_bytes align_left (if v then ''true'' else ''false'') specs)"

text \<open>A \<open>char\<close> that is not written as one is an \<open>unsigned char\<close>.\<close>

definition write_char_value ::
  "nat \<Rightarrow> char \<Rightarrow> 'a format_specs_scheme \<Rightarrow> digit_grouping \<Rightarrow> string + string outcome" where
  "write_char_value fuel v specs loc =
     bind_sum (check_char_specs specs) (\<lambda>char_like.
       Inr (if char_like then write_char v specs
            else write_integer fuel 32 (int (code v)) specs loc))"

definition write_string :: "string \<Rightarrow> 'a format_specs_scheme \<Rightarrow> string outcome" where
  "write_string s specs =
     bind_outcome
       (if precision specs \<ge> 0 \<and> nat (precision specs) < length s
        then code_point_index s (nat (precision specs)) else Done (length s)) (\<lambda>sz.
     bind_outcome
       (if pres specs = pres_debug
        then bind_outcome (write_escaped_string s) (\<lambda>out. Done (length out)) else Done sz) (\<lambda>sz.
     bind_outcome
       (if width specs \<noteq> 0
        then if pres specs = pres_debug then Done sz else compute_width (take sz s)
        else Done 0) (\<lambda>w.
     write_padded align_left specs w
       (if pres specs = pres_debug then write_escaped_string s else Done (take sz s)))))"

text \<open>A pointer to characters: its address and the string it points to, none for the null pointer.\<close>

definition write_cstring :: "nat \<Rightarrow> string option \<Rightarrow> 'a format_specs_scheme \<Rightarrow> string + string outcome" where
  "write_cstring addr s specs =
     (if pres specs = pres_pointer then Inr (write_ptr addr (Some specs))
      else case s of
             None \<Rightarrow> Inl ''string pointer is null''
           | Some str \<Rightarrow> Inr (write_string str specs))"

section \<open>What padding does\<close>

text \<open>The specification of alignment: how many fills go to the left.\<close>

definition left_fills :: "align_t \<Rightarrow> align_t \<Rightarrow> nat \<Rightarrow> nat" where
  "left_fills al a n =
     (case a of
        align_none \<Rightarrow> if al = align_left then 0 else n
      | align_left \<Rightarrow> 0
      | align_right \<Rightarrow> n
      | align_center \<Rightarrow> n div 2
      | align_numeric \<Rightarrow> n)"

definition pad :: "align_t \<Rightarrow> 'a format_specs_scheme \<Rightarrow> nat \<Rightarrow> string \<Rightarrow> string" where
  "pad al specs w t =
     (let n = nat (width specs) - w; l = left_fills al (align specs) n
      in concat (replicate l (fill specs)) @ t @ concat (replicate (n - l) (fill specs)))"

definition valid_width :: "'a format_specs_scheme \<Rightarrow> bool" where
  "valid_width specs \<longleftrightarrow> 0 \<le> width specs \<and> width specs \<le> INT_MAX"

lemma fill_text_eq: "fill_text n f = concat (replicate n f)"
proof (cases "length f = 1")
  case True
  then obtain c where "f = [c]" by (auto simp: length_Suc_conv)
  then show ?thesis by (induction n) (simp_all add: fill_text_def)
next
  case False
  then show ?thesis by (simp add: fill_text_def)
qed

lemma shift_31: "n < 2147483648 \<Longrightarrow> drop_bit 31 n = 0" for n :: nat
  by (simp add: drop_bit_eq_div)

lemma write_padded_pad:
  assumes "valid_width specs" "al = align_left \<or> al = align_right"
  shows "write_padded al specs w (Done t) = Done (pad al specs w t)"
proof -
  let ?n = "nat (width specs) - w"
  have "nat (width specs) \<le> 2147483647" using assms(1) by (simp add: valid_width_def INT_MAX_def nat_le_iff)
  then have n: "?n < 2147483648" by linarith
  have "drop_bit (padding_shifts al ! align_index (align specs)) ?n = left_fills al (align specs) ?n"
    using assms(2) shift_31 [OF n]
    by (cases "align specs") (auto simp: padding_shifts_def left_fills_def drop_bit_eq_div numeral_3_eq_3 numeral_2_eq_2)
  moreover have "(if w < nat (width specs) then ?n else 0) = ?n" by simp
  ultimately show ?thesis
    using assms(1) by (simp add: write_padded_def to_unsigned_def valid_width_def pad_def fill_text_eq Let_def)
qed

section \<open>Digits through an output iterator\<close>

lemma decimal_digits_length_range: "n < 2 ^ 64 \<Longrightarrow> length (decimal_digits n) \<le> 20"
  "n < 2 ^ 32 \<Longrightarrow> length (decimal_digits n) \<le> 10" "n < 2 ^ 128 \<Longrightarrow> length (decimal_digits n) \<le> 39"
proof -
  have "(2 :: nat) ^ 64 < 10 ^ 20" "(2 :: nat) ^ 32 < 10 ^ 10" "(2 :: nat) ^ 128 < 10 ^ 39" by simp_all
  then show "n < 2 ^ 64 \<Longrightarrow> length (decimal_digits n) \<le> 20"
    "n < 2 ^ 32 \<Longrightarrow> length (decimal_digits n) \<le> 10" "n < 2 ^ 128 \<Longrightarrow> length (decimal_digits n) \<le> 39"
    by (meson decimal_digits_length_le less_trans zero_less_numeral)+
qed

lemma count_digits_decimal:
  assumes "num_bits \<in> {32, 64, 128}" "n < 2 ^ num_bits"
  shows "count_digits num_bits n = length (decimal_digits n)"
  using assms by (auto simp: count_digits_def do_count_digits32_digits do_count_digits64_digits
      count_digits_fallback_digits)

lemma format_decimal_to_digits:
  assumes "num_bits \<in> {32, 64, 128}" "n < 2 ^ num_bits"
  shows "format_decimal_to num_bits n (count_digits num_bits n) = Done (decimal_digits n)"
proof -
  let ?z = "char_of (0 :: nat)" and ?d = "decimal_digits n"
  have len: "length ?d \<le> digits10 num_bits + 1"
    using assms decimal_digits_length_range [of n] by (auto simp: digits10_def)
  then have "replicate (digits10 num_bits + 1) ?z =
      [] @ replicate (length ?d) ?z @ replicate (digits10 num_bits + 1 - length ?d) ?z"
    by (simp only: append_Nil replicate_add [symmetric]) simp
  then have "format_decimal (replicate (digits10 num_bits + 1) ?z) n (length ?d) =
      Done (0, ?d @ replicate (digits10 num_bits + 1 - length ?d) ?z)"
    using format_decimal_loop_digits [of "[]" n "length ?d" "replicate (length ?d) ?z"]
    by (simp only: format_decimal_def) simp
  then show ?thesis
    using len by (simp add: format_decimal_to_def count_digits_decimal [OF assms] del: bind_outcome_Done)
qed

lemma length_radix_le:
  "0 < b \<Longrightarrow> n < 2 ^ (b * d) \<Longrightarrow> 0 < d \<Longrightarrow> length (radix_digits b up n) \<le> d"
proof (induction d arbitrary: n)
  case (Suc d)
  show ?case
  proof (cases "n < 2 ^ b")
    case True
    then show ?thesis by (simp add: radix_digits_step(2))
  next
    case False
    with Suc.prems have d: "0 < d" by (cases d) auto
    have "n div 2 ^ b < 2 ^ (b * d)"
      using Suc.prems(2) by (intro less_mult_imp_div_less) (simp add: power_add mult.commute)
    then have "length (radix_digits b up (n div 2 ^ b)) \<le> d" using Suc.IH Suc.prems(1) d by blast
    then show ?thesis using False Suc.prems(1) by (simp add: radix_digits_step(1))
  qed
qed simp

lemma format_uint_to_digits:
  assumes "0 < b" "b \<le> 4" "n < 2 ^ num_bits"
  shows "format_uint_to b num_bits n (count_digits_base b num_bits n) up = Done (radix_digits b up n)"
proof -
  let ?z = "char_of (0 :: nat)" and ?d = "radix_digits b up n" and ?k = "num_bits div b + 1"
  have c: "count_digits_base b num_bits n = length ?d"
    by (rule count_digits_base_radix [OF assms(1)]) (use assms(3) in blast)
  have "num_bits \<le> b * ?k"
    using dividend_less_times_div [OF assms(1), of num_bits] by simp
  then have "n < 2 ^ (b * ?k)"
    using assms(3) by (meson less_le_trans one_le_numeral power_increasing)
  then have len: "length ?d \<le> ?k" by (rule length_radix_le [OF assms(1)]) simp
  then have "replicate ?k ?z = [] @ replicate (length ?d) ?z @ replicate (?k - length ?d) ?z"
    by (simp only: append_Nil replicate_add [symmetric]) simp
  then have "format_uint b up (replicate ?k ?z) n (length ?d) =
      Done (?d @ replicate (?k - length ?d) ?z)"
    using format_uint_loop_digits [OF assms(1,2), of "[]" up n "length ?d" "replicate (length ?d) ?z"]
    by (simp only: format_uint_def) simp
  then show ?thesis using len by (simp add: format_uint_to_def c del: bind_outcome_Done)
qed

section \<open>The layout of integers\<close>

text \<open>The specification: sign, base prefix, zeros and digits.\<close>

definition sign_text :: "int \<Rightarrow> sign_t \<Rightarrow> string" where
  "sign_text v s = (if v < 0 then ''-'' else if s = sign_plus then ''+'' else if s = sign_space then '' '' else [])"

definition int_digits :: "'a format_specs_scheme \<Rightarrow> nat \<Rightarrow> string" where
  "int_digits specs n =
     (if pres specs = pres_hex then radix_digits 4 (upper specs) n
      else if pres specs = pres_oct then radix_digits 3 False n
      else if pres specs = pres_bin then radix_digits 1 False n
      else decimal_digits n)"

definition base_text :: "'a format_specs_scheme \<Rightarrow> nat \<Rightarrow> string" where
  "base_text specs n =
     (if \<not> alt specs then []
      else if pres specs = pres_hex then [CHR ''0'', if upper specs then CHR ''X'' else CHR ''x'']
      else if pres specs = pres_bin then [CHR ''0'', if upper specs then CHR ''B'' else CHR ''b'']
      else if pres specs = pres_oct \<and> n \<noteq> 0 \<and> precision specs \<le> int (length (int_digits specs n))
      then ''0'' else [])"

definition int_text :: "'a format_specs_scheme \<Rightarrow> int \<Rightarrow> string" where
  "int_text specs v =
     (let n = nat \<bar>v\<bar>; d = int_digits specs n; p = sign_text v (sign specs) @ base_text specs n;
          zeros = (if align specs = align_numeric then nat (width specs) - (length p + length d)
                   else nat (precision specs - int (length d)))
      in p @ replicate zeros (CHR ''0'') @ d)"

text \<open>The prefixes as numbers.\<close>

definition sign_prefix :: "string \<Rightarrow> 32 word" where
  "sign_prefix s = (if s = [] then 0 else 0x01000000 OR word_of_nat (code (hd s)))"

lemma sign_text_cases: "sign_text v s \<in> {[], ''-'', ''+'', '' ''}"
  by (simp add: sign_text_def)

lemma code_literals:
  "code (CHR ''-'') = 45" "code (CHR ''+'') = 43" "code (CHR '' '') = 32" "code (CHR ''0'') = 48"
  "code (CHR ''x'') = 120" "code (CHR ''X'') = 88" "code (CHR ''b'') = 98" "code (CHR ''B'') = 66"
  by (simp_all add: code_def)

lemma char_literals:
  "char_of (45 :: nat) = CHR ''-''" "char_of (43 :: nat) = CHR ''+''" "char_of (32 :: nat) = CHR '' ''"
  "char_of (48 :: nat) = CHR ''0''" "char_of (120 :: nat) = CHR ''x''" "char_of (88 :: nat) = CHR ''X''"
  "char_of (98 :: nat) = CHR ''b''" "char_of (66 :: nat) = CHR ''B''"
  by (simp_all add: char_of_eq_iff take_bit_eq_mod)

lemma prefix_loop_zero: "prefix_loop 0 = []"
  by (subst prefix_loop.simps) simp

lemma prefix_sign:
  "s \<in> {[], ''-'', ''+'', '' ''} \<Longrightarrow>
    prefix_text (sign_prefix s) = s \<and> prefix_size (sign_prefix s) = length s"
  by (elim insertE; simp add: sign_prefix_def prefix_text_def prefix_size_def prefix_loop.simps
      code_literals char_literals)

lemma prefix_base:
  "s \<in> {[], ''-'', ''+'', '' ''} \<Longrightarrow> x \<in> {CHR ''x'', CHR ''X'', CHR ''b'', CHR ''B''} \<Longrightarrow>
    prefix_text (prefix_append (sign_prefix s) (base_prefix x)) = s @ [CHR ''0'', x] \<and>
    prefix_size (prefix_append (sign_prefix s) (base_prefix x)) = length s + 2"
  by (elim insertE; simp add: sign_prefix_def base_prefix_def prefix_append_def prefix_text_def
      prefix_size_def prefix_loop.simps code_literals char_literals)

lemma prefix_octal:
  "s \<in> {[], ''-'', ''+'', '' ''} \<Longrightarrow>
    prefix_text (prefix_append (sign_prefix s) (word_of_nat (code (CHR ''0'')))) = s @ ''0'' \<and>
    prefix_size (prefix_append (sign_prefix s) (word_of_nat (code (CHR ''0'')))) = length s + 1"
  by (elim insertE; simp add: sign_prefix_def prefix_append_def prefix_text_def
      prefix_size_def prefix_loop.simps code_literals char_literals)

lemma make_write_int_arg_eq:
  assumes "num_bits \<in> {32, 64, 128}" "- (2 ^ (num_bits - 1)) \<le> v" "v < 2 ^ num_bits"
  shows "make_write_int_arg num_bits v s =
    \<lparr>abs_value = nat \<bar>v\<bar>, arg_prefix = sign_prefix (sign_text v s)\<rparr>" "nat \<bar>v\<bar> < 2 ^ num_bits"
proof -
  have half: "(2 :: int) ^ num_bits = 2 * 2 ^ (num_bits - 1)" using assms(1) by auto
  then have "\<bar>v\<bar> < 2 ^ num_bits" using assms(2,3) zero_less_power [of "2 :: int" "num_bits - 1"] by linarith
  then show "nat \<bar>v\<bar> < 2 ^ num_bits" by (simp add: nat_less_iff)
  show "make_write_int_arg num_bits v s =
    \<lparr>abs_value = nat \<bar>v\<bar>, arg_prefix = sign_prefix (sign_text v s)\<rparr>"
  proof (cases "v < 0")
    case True
    have "int (nat (v mod 2 ^ num_bits)) = v mod 2 ^ num_bits" by simp
    then have "(0 - int (nat (v mod 2 ^ num_bits))) mod 2 ^ num_bits = (- v) mod 2 ^ num_bits"
      by (simp add: mod_minus_eq)
    moreover have "(- v) mod 2 ^ num_bits = \<bar>v\<bar>" using True \<open>\<bar>v\<bar> < 2 ^ num_bits\<close> by simp
    ultimately show ?thesis using True by (simp add: make_write_int_arg_def sign_prefix_def sign_text_def)
  next
    case False
    then show ?thesis using assms(3)
      by (cases s) (simp_all add: make_write_int_arg_def sign_prefix_def sign_text_def
          numeral_2_eq_2 numeral_3_eq_3)
  qed
qed

lemma write_int_padded_text:
  assumes "valid_width specs" "- 1 \<le> precision specs"
    and p: "prefix_text prefix = p" "prefix_size prefix = length p"
  shows "write_int_padded (length d) prefix specs (Done d) =
    (let zeros = (if align specs = align_numeric then nat (width specs) - (length p + length d)
       else nat (precision specs - int (length d)));
       t = p @ replicate zeros (CHR ''0'') @ d
     in Done (pad align_right specs (length t) t))"
proof (cases "(width specs OR (precision specs + 1)) = 0")
  case True
  then have "width specs = 0" "precision specs = - 1" by (auto simp: or_eq_0_iff)
  moreover have "prefix = 0 \<Longrightarrow> p = []" using p(1) by (simp add: prefix_text_def prefix_loop_zero)
  ultimately show ?thesis using p
    by (auto simp: write_int_padded_def pad_def Let_def left_fills_def split: align_t.split)
next
  case False
  have "data_size (write_int_data_of (length d) prefix specs) =
      length p + (if align specs = align_numeric then nat (width specs) - (length p + length d)
       else nat (precision specs - int (length d))) + length d"
    "data_padding (write_int_data_of (length d) prefix specs) =
      (if align specs = align_numeric then nat (width specs) - (length p + length d)
       else nat (precision specs - int (length d)))"
    using assms by (auto simp: write_int_data_of_def Let_def nat_diff_distrib)
  with False show ?thesis
    using write_padded_pad [OF assms(1), of align_right] p
    by (simp add: write_int_padded_def Let_def add.assoc del: bind_outcome_Done)
qed

text \<open>
  An integer of 32, 64 or 128 bits is written as its sign, the prefix of its base, the
  zeros that numeric alignment or a precision asks for, and its digits, for every value of
  the type, the smallest one included; the whole is aligned in the width, to the right by
  default.
\<close>

lemma write_int_text:
  assumes bits: "num_bits \<in> {32, 64, 128}" "- (2 ^ (num_bits - 1)) \<le> v" "v < 2 ^ num_bits"
    and specs: "valid_width specs" "- 1 \<le> precision specs"
      "pres specs \<in> {pres_none, pres_dec, pres_hex, pres_oct, pres_bin}"
  shows "write_int num_bits (make_write_int_arg num_bits v (sign specs)) specs =
    Done (pad align_right specs (length (int_text specs v)) (int_text specs v))"
proof -
  let ?n = "nat \<bar>v\<bar>" and ?s = "sign_text v (sign specs)"
  note arg = make_write_int_arg_eq [OF bits]
  note s = sign_text_cases [of v "sign specs"]
  have digits:
    "count_digits num_bits ?n = length (decimal_digits ?n)"
    "format_decimal_to num_bits ?n (length (decimal_digits ?n)) = Done (decimal_digits ?n)"
    using count_digits_decimal [OF bits(1) arg(2)] format_decimal_to_digits [OF bits(1) arg(2)] by simp_all
  have uint1: "count_digits_base b num_bits ?n = length (radix_digits b up ?n)" if "0 < b" for b up
    by (rule count_digits_base_radix [OF that]) (use arg(2) in blast)
  have uint: "count_digits_base b num_bits ?n = length (radix_digits b up ?n)"
    "format_uint_to b num_bits ?n (length (radix_digits b up ?n)) up = Done (radix_digits b up ?n)"
    if "0 < b" "b \<le> 4" for b up
    using format_uint_to_digits [OF that arg(2), of up] uint1 [OF that(1)] by simp_all
  have txt_eq: "write_int_padded (length d) prefix specs (Done d) =
      Done (pad align_right specs (length (int_text specs v)) (int_text specs v))"
    if "d = int_digits specs ?n" "prefix_text prefix = ?s @ base_text specs ?n"
      "prefix_size prefix = length (?s @ base_text specs ?n)" for d prefix
    using write_int_padded_text [OF specs(1,2) that(2,3), of d] that(1)
    by (simp add: int_text_def Let_def)
  note base = prefix_base [OF s] and sgn = prefix_sign [OF s] and oct = prefix_octal [OF s]
  consider "pres specs \<in> {pres_none, pres_dec}" | "pres specs = pres_hex" | "pres specs = pres_oct"
    | "pres specs = pres_bin"
    using specs(3) by blast
  then show ?thesis
  proof cases
    case 1
    then show ?thesis
      using txt_eq [of "decimal_digits ?n"] sgn
      by (auto simp: write_int_def arg(1) Let_def digits int_digits_def base_text_def pres_defs)
  next
    case 2
    then show ?thesis
      using txt_eq [of "radix_digits 4 (upper specs) ?n"] sgn base uint(1) [of 4 "upper specs"] uint(2) [of 4 "upper specs"]
      by (auto simp: write_int_def arg(1) Let_def int_digits_def base_text_def pres_defs)
  next
    case 3
    then show ?thesis
      using txt_eq [of "radix_digits 3 False ?n"] sgn oct uint(1) [of 3 False] uint(2) [of 3 False] arg(2)
      by (auto simp: write_int_def arg(1) Let_def int_digits_def base_text_def pres_defs)
  next
    case 4
    then show ?thesis
      using txt_eq [of "radix_digits 1 False ?n"] sgn base uint(1) [of 1 False] uint(2) [of 1 False]
      by (auto simp: write_int_def arg(1) Let_def int_digits_def base_text_def pres_defs)
  qed
qed

section \<open>Digit grouping puts separators between the digits\<close>

text \<open>The states \<open>next\<close> reaches: once all groups are used up, the last one repeats.\<close>

definition group_state :: "digit_grouping \<Rightarrow> int list \<times> int \<Rightarrow> bool" where
  "group_state g st \<longleftrightarrow> 0 \<le> snd st \<and> grouping g \<noteq> [] \<and> (\<exists>used. grouping g = used @ fst st) \<and>
     (fst st = [] \<longrightarrow> 0 < last (grouping g))"

lemma next_group_step:
  assumes "group_state g st" "thousands_sep g \<noteq> []"
  shows "\<exists>i st'. next_group g st = Done (i, st') \<and>
    (i = INT_MAX \<or> i = snd st' \<and> snd st < i \<and> group_state g st')"
proof (cases st)
  case (Pair rest pos)
  show ?thesis
  proof (cases rest)
    case Nil
    then show ?thesis using assms Pair by (auto simp: next_group_def group_state_def Let_def)
  next
    case (Cons c cs)
    then obtain used where "grouping g = used @ c # cs" using assms(1) Pair by (auto simp: group_state_def)
    then have "grouping g = (used @ [c]) @ cs" "cs = [] \<Longrightarrow> last (grouping g) = c" by simp_all
    moreover from this(1) have "\<exists>used. grouping g = used @ cs" by blast
    ultimately show ?thesis
      using assms Pair Cons by (auto simp: next_group_def group_state_def)
  qed
qed

lemma separator_loops:
  assumes "thousands_sep g \<noteq> []" "int n \<le> INT_MAX"
  shows "group_state g st \<Longrightarrow> max 0 (int n - snd st) < int fuel \<Longrightarrow>
    \<exists>ps. count_separators_loop fuel g n st cnt = Done (cnt + length ps) \<and>
      separators_loop fuel g n st seps = Done (seps @ ps) \<and>
      sorted_wrt (<) ps \<and> (\<forall>p \<in> set ps. snd st < p \<and> p < int n)"
proof (induction fuel arbitrary: st cnt seps)
  case 0
  then show ?case by simp
next
  case (Suc fuel)
  obtain i st' where n: "next_group g st = Done (i, st')"
    "i = INT_MAX \<or> i = snd st' \<and> snd st < i \<and> group_state g st'"
    using next_group_step [OF Suc.prems(1) assms(1)] by blast
  have pos: "0 \<le> snd st" using Suc.prems(1) by (simp add: group_state_def)
  show ?case
  proof (cases "i < int n")
    case False
    then show ?thesis using n by (intro exI [of _ "[]"]) (simp del: bind_outcome_Done)
  next
    case True
    with n(2) assms(2) have st': "i = snd st'" "snd st < i" "group_state g st'" by auto
    then have "max 0 (int n - snd st') < int fuel" using Suc.prems(2) True by linarith
    from Suc.IH [OF st'(3) this, of "cnt + 1" "seps @ [i]"] obtain ps where
      "count_separators_loop fuel g n st' (cnt + 1) = Done (cnt + 1 + length ps)"
      "separators_loop fuel g n st' (seps @ [i]) = Done (seps @ i # ps)"
      "sorted_wrt (<) ps" "\<forall>p \<in> set ps. i < p \<and> p < int n"
      using st'(1) by auto
    with n(1) True pos st' show ?thesis
      by (intro exI [of _ "i # ps"]) (auto simp del: bind_outcome_Done)
  qed
qed

lemma apply_loop_output:
  assumes "sorted_wrt (<) seps" "seps \<noteq> []" "hd seps = 0"
  shows "k < length seps \<Longrightarrow> seps ! k \<le> int left \<Longrightarrow> left \<le> length digits \<Longrightarrow>
    \<exists>out. apply_loop g digits seps (int k) left = Done out \<and>
      length out = left + k * length (thousands_sep g) \<and>
      (set (thousands_sep g) \<inter> set digits = {} \<longrightarrow>
        filter (\<lambda>c. c \<notin> set (thousands_sep g)) out = drop (length digits - left) digits)"
proof (induction left arbitrary: k)
  case 0
  then have "k = 0"
    using sorted_wrt_nth_less [OF assms(1), of 0 k] assms(2,3) by (cases k) (auto simp: hd_conv_nth)
  then show ?case by simp
next
  case (Suc left)
  let ?i = "length digits - Suc left"
  have i: "?i < length digits" "length digits - left = Suc ?i" "length digits - ?i = Suc left"
    using Suc.prems(3) by simp_all
  have d: "drop ?i digits = digits ! ?i # drop (length digits - left) digits"
    unfolding i(2) by (rule Cons_nth_drop_Suc [symmetric]) (rule i(1))
  have in_digits: "digits ! ?i \<in> set digits" using i(1) by simp
  show ?case
  proof (cases "seps ! k = int (Suc left)")
    case True
    then obtain k' where k: "k = Suc k'" using assms(2,3) by (cases k) (auto simp: hd_conv_nth)
    have "seps ! k' < seps ! k" using sorted_wrt_nth_less [OF assms(1)] k Suc.prems(1) by simp
    then have "seps ! k' \<le> int left" using True by simp
    with Suc.IH [of k'] Suc.prems k obtain out where out:
      "apply_loop g digits seps (int k') left = Done out"
      "length out = left + k' * length (thousands_sep g)"
      "set (thousands_sep g) \<inter> set digits = {} \<longrightarrow>
        filter (\<lambda>c. c \<notin> set (thousands_sep g)) out = drop (length digits - left) digits"
      by auto
    have "apply_loop g digits seps (int k) (Suc left) =
        bind_outcome (apply_loop g digits seps (int k - 1) left) (\<lambda>out. Done (thousands_sep g @ digits ! ?i # out))"
      using True Suc.prems(1) i(3) by (simp add: Let_def del: bind_outcome_Done)
    moreover have "int k - 1 = int k'" using k by simp
    ultimately have "apply_loop g digits seps (int k) (Suc left) = Done (thousands_sep g @ digits ! ?i # out)"
      using out(1) by simp
    with out(2,3) k d in_digits show ?thesis
      by (intro exI [of _ "thousands_sep g @ digits ! ?i # out"]) auto
  next
    case False
    then have "seps ! k \<le> int left" using Suc.prems(2) by linarith
    with Suc.IH [of k] Suc.prems obtain out where out:
      "apply_loop g digits seps (int k) left = Done out"
      "length out = left + k * length (thousands_sep g)"
      "set (thousands_sep g) \<inter> set digits = {} \<longrightarrow>
        filter (\<lambda>c. c \<notin> set (thousands_sep g)) out = drop (length digits - left) digits"
      by auto
    have "apply_loop g digits seps (int k) (Suc left) = Done (digits ! ?i # out)"
      using out(1) False Suc.prems(1) i(3) by (simp add: Let_def del: bind_outcome_Done)
    with out(2,3) d in_digits show ?thesis by (intro exI [of _ "digits ! ?i # out"]) auto
  qed
qed

text \<open>
  Grouping ends and never reads an empty list of groups: for any list of group sizes that
  is not empty, the number of separators \<open>count_separators\<close> announces is the number
  \<open>apply\<close> writes, so the output has the announced size, and without the separators it is the
  digits in their order.
\<close>

theorem digit_grouping_spec:
  assumes "grouping g \<noteq> []" "thousands_sep g = [sep]" "sep \<notin> set digits"
    and "int (length digits) \<le> INT_MAX" "length digits < fuel"
  shows "\<exists>n out. count_separators fuel g (length digits) = Done n \<and>
    apply_grouping fuel g digits = Done out \<and> length out = length digits + n \<and>
    filter (\<lambda>c. c \<noteq> sep) out = digits"
proof -
  have "group_state g (grouping g, 0)" using assms(1) by (simp add: group_state_def)
  moreover have "max 0 (int (length digits) - snd (grouping g, 0 :: int)) < int fuel" using assms(5) by simp
  ultimately obtain ps where ps: "count_separators_loop fuel g (length digits) (grouping g, 0) 0 = Done (0 + length ps)"
    "separators_loop fuel g (length digits) (grouping g, 0) [0] = Done ([0] @ ps)"
    "sorted_wrt (<) ps" "\<forall>p \<in> set ps. 0 < p \<and> p < int (length digits)"
    using separator_loops [of g "length digits" "(grouping g, 0)" fuel 0 "[0]"] assms(2,4) by auto
  have "(0 # ps) ! length ps \<le> int (length digits)"
    using ps(4) by (cases ps rule: rev_cases) (auto simp: nth_append)
  then have "\<exists>out. apply_loop g digits (0 # ps) (int (length ps)) (length digits) = Done out \<and>
      length out = length digits + length ps * length (thousands_sep g) \<and>
      (set (thousands_sep g) \<inter> set digits = {} \<longrightarrow>
        filter (\<lambda>c. c \<notin> set (thousands_sep g)) out = drop (length digits - length digits) digits)"
    using ps(3,4) by (intro apply_loop_output) auto
  then show ?thesis
    using ps(1,2) assms(2,3)
    by (auto simp: count_separators_def apply_grouping_def simp del: bind_outcome_Done)
qed

theorem digit_grouping_spec_witness:
  "\<exists>out. count_separators 10 \<lparr>grouping = [3], thousands_sep = '',''\<rparr> 7 = Done 2 \<and>
    apply_grouping 10 \<lparr>grouping = [3], thousands_sep = '',''\<rparr> ''1234567'' = Done out \<and>
    filter (\<lambda>c. c \<noteq> CHR '','') out = ''1234567''"
proof -
  have "count_separators 10 \<lparr>grouping = [3], thousands_sep = '',''\<rparr> 7 = Done 2"
    by (simp add: count_separators_def next_group_def numeral_eq_Suc Let_def INT_MAX_def)
  then show ?thesis
    using digit_grouping_spec [of "\<lparr>grouping = [3], thousands_sep = '',''\<rparr>" "CHR '',''" "''1234567''" 10]
    by (auto simp: INT_MAX_def)
qed

section \<open>Characters and strings\<close>

lemma write_escaped_units_total: "\<exists>out. write_escaped_units cs = Done out \<and> 4 * length cs \<le> length out"
proof (induction cs)
  case (Cons c cs)
  have "code c AND 0xFF < 16 ^ 2"
    using take_bit_eq_mask [of 8 "code c"] by (simp add: take_bit_eq_mod mask_eq_exp_minus_1)
  then obtain out where "write_codepoint 2 (CHR ''x'') (code c AND 0xFF) = Done (CHR 0x5C # CHR ''x'' # out)"
    "length out = 2"
    using write_codepoint_digits [of "code c AND 0xFF" 2 "CHR ''x''"] by auto
  with Cons show ?case by auto
qed simp

lemma write_escaped_cp_total:
  "cs \<noteq> [] \<Longrightarrow> \<exists>out. write_escaped_cp cs cp = Done out \<and> 2 \<le> length out"
  using write_codepoint_digits [of cp 2 "CHR ''x''"] write_codepoint_digits [of cp 4 "CHR ''u''"]
    write_codepoint_digits [of cp 8 "CHR ''U''"] write_escaped_units_total [of cs]
  by (cases cs) (auto simp: write_escaped_cp_def)

lemma write_escaped_char_total: "\<exists>out. write_escaped_char v = Done out \<and> 3 \<le> length out"
  using write_escaped_cp_total [of "[v]" "char_to_uint32 v"] by (auto simp: write_escaped_char_def)

lemma length_pad:
  "length (fill specs) = 1 \<Longrightarrow> length (pad al specs w t) = length t + (nat (width specs) - w)"
proof -
  assume f: "length (fill specs) = 1"
  have "left_fills al a n \<le> n" for a n by (cases a) (auto simp: left_fills_def)
  from this [of "align specs" "nat (width specs) - w"] show ?thesis
    by (simp add: pad_def Let_def length_concat sum_list_replicate f) linarith
qed

text \<open>
  C36. The debug representation of a character is padded as if it had one column: with any
  width the field is at least two columns wider than it should be.
\<close>

theorem debug_char_overpadded:
  assumes "pres specs = pres_debug" "valid_width specs" "length (fill specs) = 1" "1 \<le> width specs"
  shows "\<exists>esc out. write_escaped_char v = Done esc \<and> write_char v specs = Done out \<and>
    length out = nat (width specs) - 1 + length esc \<and> nat (width specs) + 2 \<le> length out"
proof -
  obtain esc where esc: "write_escaped_char v = Done esc" "3 \<le> length esc"
    using write_escaped_char_total by blast
  have "write_char v specs = Done (pad align_left specs 1 esc)"
    using write_padded_pad [OF assms(2), of align_left 1 esc] by (simp add: write_char_def assms(1) esc(1))
  then show ?thesis using esc length_pad [OF assms(3), of align_left 1 esc] assms(4) by auto
qed

theorem debug_char_overpadded_witness:
  "\<exists>out. write_char (CHR ''a'') (default_specs\<lparr>pres := pres_debug, width := 5\<rparr>) = Done out \<and> 7 \<le> length out"
  using debug_char_overpadded [of "default_specs\<lparr>pres := pres_debug, width := 5\<rparr>" "CHR ''a''"]
  by (auto simp: default_specs_def valid_width_def INT_MAX_def)

lemma length_utf8_text: "length cps \<le> length (concat (map utf8 cps))"
proof (induction cps)
  case (Cons cp cps)
  have "0 < length (utf8 cp)" by simp
  with Cons show ?case by (simp only: list.map concat.simps length_append list.size)
qed simp

text \<open>
  A string is cut to the precision in code points, never inside one, and padded to the
  width in columns, wide characters counting for two.
\<close>

theorem write_string_layout:
  assumes "\<forall>cp \<in> set cps. scalar cp" "pres specs \<noteq> pres_debug" "valid_width specs"
  shows "write_string (concat (map utf8 cps)) specs =
    (let kept = (if precision specs \<ge> 0 then take (nat (precision specs)) cps else cps);
         columns = (\<Sum>cp \<leftarrow> kept. if is_wide cp then 2 else 1)
     in Done (pad align_left specs columns (concat (map utf8 kept))))"
proof -
  let ?t = "concat (map utf8 cps)" and ?p = "nat (precision specs)"
  let ?kept = "if precision specs \<ge> 0 then take ?p cps else cps"
  let ?sz = "length (concat (map utf8 ?kept))"
  have scalars: "\<forall>cp \<in> set ?kept. scalar cp" using assms(1) by (auto dest: in_set_takeD)
  have size: "(if precision specs \<ge> 0 \<and> ?p < length ?t then code_point_index ?t ?p else Done (length ?t)) = Done ?sz"
  proof -
    have "take ?p cps = cps" if "length ?t \<le> ?p" using that length_utf8_text [of cps] by simp
    then show ?thesis
      using code_point_index_concat [OF assms(1), of ?p] by (auto simp: not_less)
  qed
  have "take ?sz ?t = concat (map utf8 ?kept)"
  proof -
    have "?t = concat (map utf8 ?kept) @ concat (map utf8 (if precision specs \<ge> 0 then drop ?p cps else []))"
      by (simp flip: concat_append map_append)
    then show ?thesis by (metis append_eq_conv_conj)
  qed
  moreover have "pad align_left specs w u = pad align_left specs w' u" if "width specs = 0" for w w' u
    using that by (simp add: pad_def)
  ultimately show ?thesis
    using write_padded_pad [OF assms(3)] compute_width_concat [OF scalars] assms(2)
    unfolding write_string_def size Let_def
    by (auto simp del: bind_outcome_Done simp: Let_def)
qed

theorem write_string_layout_witness:
  "write_string (concat (map utf8 [0x4E2D, 0x61, 0x62])) (default_specs\<lparr>width := 5, precision := 2, fill := ''*''\<rparr>) =
    Done (concat (map utf8 [0x4E2D, 0x61]) @ ''**'')"
  using write_string_layout [of "[0x4E2D, 0x61, 0x62]" "default_specs\<lparr>width := 5, precision := 2, fill := ''*''\<rparr>"]
  by (simp add: scalar_def default_specs_def valid_width_def INT_MAX_def pres_defs is_wide_def pad_def
      left_fills_def numeral_2_eq_2)

end
