(* ===== verification/Fmt_Format.thy ===== *)
theory Fmt_Format
  imports Fmt_Text Fmt_Args Fmt_Write
begin

text \<open>
  \<open>vformat_to\<close> of fmt/include/fmt/format.h: the argument visitors, dynamic width and
  precision, and the handler that writes a format string with its arguments to a buffer.
  The handler satisfies the contracts \<open>format_handler\<close> and \<open>text_handler\<close> of the walk.
\<close>

section \<open>The environment and the state\<close>

text \<open>
  The member of an argument that is set is the one its type names, as every constructor of
  the code leaves it (\<open>arg_ok\<close> below); the visitors are by that member, and by the type for
  the integers, which share one. What a call reads: the arguments, the separators of its locale and of the global one, the
  bound of the separator loops, and the code outside this development. \<open>env_float\<close> writes a
  floating-point value, with or without specifiers. \<open>env_custom\<close> is the formatter of a
  user-defined type: from the rest of the format string, the parse context and what has been
  written it either throws, or moves the parse context over a number of characters, leaves a
  counter of arguments and appends to the output.
\<close>

record ('f, 'c) format_env =
  env_args :: "('f, 'c) format_args"
  env_loc :: digit_grouping
  env_global_loc :: digit_grouping
  env_fuel :: nat
  env_float :: "'f \<Rightarrow> dynamic_format_specs option \<Rightarrow> string outcome"
  env_custom :: "'c \<Rightarrow> parse_context \<Rightarrow> string + (nat \<times> int \<times> string)"

text \<open>The members of \<open>format_handler\<close>; the output is what the buffer holds.\<close>

record fmt_state =
  pctx :: parse_context
  out :: string

definition assertion_failed :: string where
  "assertion_failed = ''assertion failed''"

text \<open>A write that asserts something false ends the call with a report of its own.\<close>

definition emit :: "string outcome \<Rightarrow> fmt_state \<Rightarrow> string + fmt_state" where
  "emit w s = (case w of Done t \<Rightarrow> Inr (s\<lparr>out := out s @ t\<rparr>) | _ \<Rightarrow> Inl assertion_failed)"

section \<open>Visitors\<close>

primrec int_bits :: "arg_type \<Rightarrow> nat option" where
  "int_bits none_type = None"
| "int_bits int_type = Some 32"
| "int_bits uint_type = Some 32"
| "int_bits long_long_type = Some 64"
| "int_bits ulong_long_type = Some 64"
| "int_bits int128_type = Some 128"
| "int_bits uint128_type = Some 128"
| "int_bits bool_type = None"
| "int_bits char_type = None"
| "int_bits float_type = None"
| "int_bits double_type = None"
| "int_bits long_double_type = None"
| "int_bits cstring_type = None"
| "int_bits string_type = None"
| "int_bits pointer_type = None"
| "int_bits custom_type = None"

text \<open>
  \<open>default_arg_formatter\<close>, for a field without specifiers. A user-defined formatter gets an
  empty parse context.
\<close>

definition default_write ::
  "('f, 'c) format_env \<Rightarrow> ('f, 'c) format_arg \<Rightarrow> fmt_state \<Rightarrow> string + fmt_state" where
  "default_write env arg s =
     (case arg_val arg of
        V_none \<Rightarrow> Inl assertion_failed
      | V_int v \<Rightarrow> (case int_bits (arg_ty arg) of
          Some n \<Rightarrow> emit (write_int_default n v) s | None \<Rightarrow> Inl assertion_failed)
      | V_bool v \<Rightarrow> emit (write_bool (env_fuel env) v default_specs (env_global_loc env)) s
      | V_char v \<Rightarrow> emit (Done [v]) s
      | V_float v \<Rightarrow> emit (env_float env v None) s
      | V_cstring a v \<Rightarrow> (case v of
          None \<Rightarrow> Inl ''string pointer is null'' | Some t \<Rightarrow> emit (Done t) s)
      | V_string t \<Rightarrow> emit (Done t) s
      | V_pointer a \<Rightarrow> emit (write_ptr a (Some default_specs)) s
      | V_custom c \<Rightarrow>
          bind_sum (env_custom env c \<lparr>format_str = [], ctx_next_id = 0, ctx_types = None\<rparr>)
            (\<lambda>(n, i, t). emit (Done t) s))"

text \<open>\<open>arg_formatter\<close>, for a field with specifiers.\<close>

definition arg_write ::
  "('f, 'c) format_env \<Rightarrow> dynamic_format_specs \<Rightarrow> ('f, 'c) format_arg \<Rightarrow> fmt_state \<Rightarrow> string + fmt_state" where
  "arg_write env specs arg s =
     (case arg_val arg of
        V_none \<Rightarrow> Inl assertion_failed
      | V_int v \<Rightarrow> (case int_bits (arg_ty arg) of
          Some n \<Rightarrow> emit (write_integer (env_fuel env) n v specs (env_loc env)) s
        | None \<Rightarrow> Inl assertion_failed)
      | V_bool v \<Rightarrow> emit (write_bool (env_fuel env) v specs (env_global_loc env)) s
      | V_char v \<Rightarrow> bind_sum (write_char_value (env_fuel env) v specs (env_loc env)) (\<lambda>w. emit w s)
      | V_float v \<Rightarrow> emit (env_float env v (Some specs)) s
      | V_cstring a v \<Rightarrow> bind_sum (write_cstring a v specs) (\<lambda>w. emit w s)
      | V_string t \<Rightarrow> emit (write_string t specs) s
      | V_pointer a \<Rightarrow> emit (write_ptr a (Some specs)) s
      | V_custom c \<Rightarrow> Inr s)"

text \<open>\<open>width_checker\<close> and \<open>precision_checker\<close>, with the conversion to \<open>unsigned long long\<close>.\<close>

definition width_checker :: "('f, 'c) format_arg \<Rightarrow> string + nat" where
  "width_checker arg =
     (case (int_bits (arg_ty arg), arg_val arg) of
        (Some n, V_int v) \<Rightarrow> if v < 0 then Inl ''negative width'' else Inr (nat v mod 2 ^ 64)
      | _ \<Rightarrow> Inl ''width is not integer'')"

definition precision_checker :: "('f, 'c) format_arg \<Rightarrow> string + nat" where
  "precision_checker arg =
     (case (int_bits (arg_ty arg), arg_val arg) of
        (Some n, V_int v) \<Rightarrow> if v < 0 then Inl ''negative precision'' else Inr (nat v mod 2 ^ 64)
      | _ \<Rightarrow> Inl ''precision is not integer'')"

definition get_dynamic_spec ::
  "(('f, 'c) format_arg \<Rightarrow> string + nat) \<Rightarrow> ('f, 'c) format_arg \<Rightarrow> string + int" where
  "get_dynamic_spec handler arg =
     bind_sum (handler arg) (\<lambda>value.
       if int value > INT_MAX then Inl ''number is too big'' else Inr (int value))"

definition get_arg :: "('f, 'c) format_arg \<Rightarrow> string + ('f, 'c) format_arg" where
  "get_arg arg = (if arg_ty arg = none_type then Inl ''argument not found'' else Inr arg)"

fun handle_dynamic_spec ::
  "(('f, 'c) format_arg \<Rightarrow> string + nat) \<Rightarrow> int \<Rightarrow> arg_ref \<Rightarrow> ('f, 'c) format_args \<Rightarrow> string + int" where
  "handle_dynamic_spec handler value ref_none args = Inr value"
| "handle_dynamic_spec handler value (ref_index i) args =
     bind_sum (get_arg (get_arg_at args i)) (get_dynamic_spec handler)"
| "handle_dynamic_spec handler value (ref_name n) args =
     bind_sum (get_arg (get_arg_named args n)) (get_dynamic_spec handler)"

section \<open>The handler of \<open>vformat_to\<close>\<close>

text \<open>The test of \<open>format_custom\<close>.\<close>

definition custom_object :: "('f, 'c) format_arg \<Rightarrow> 'c option" where
  "custom_object arg = (case arg_val arg of V_custom c \<Rightarrow> Some c | _ \<Rightarrow> None)"

definition vformat_specs ::
  "('f, 'c) format_env \<Rightarrow> int \<Rightarrow> string \<Rightarrow> fmt_state \<Rightarrow> string + (string \<times> fmt_state)" where
  "vformat_specs env i begn s =
     bind_sum (get_arg (get_arg_at (env_args env) i)) (\<lambda>arg.
     case custom_object arg of
       Some c \<Rightarrow>
         bind_sum (env_custom env c (advance_to begn (pctx s))) (\<lambda>(n, next_id, t).
           let s1 = s\<lparr>pctx := (pctx s)\<lparr>format_str := drop n begn, ctx_next_id := next_id\<rparr>\<rparr>
           in bind_sum (emit (Done t) s1) (\<lambda>s2. Inr (format_str (pctx s2), s2)))
     | None \<Rightarrow>
         bind_sum (parse_format_specs begn default_specs (pctx s) (arg_ty arg)) (\<lambda>(b, specs, ctx).
         bind_sum (handle_dynamic_spec width_checker (width specs) (width_ref specs) (env_args env)) (\<lambda>w.
         bind_sum (handle_dynamic_spec precision_checker (precision specs) (precision_ref specs)
                     (env_args env)) (\<lambda>p.
         if b = [] \<or> hd b \<noteq> CHR ''}''
         then Inl (''missing '' @ [CHR 0x27, CHR ''}'', CHR 0x27] @ '' in format string'')
         else bind_sum (arg_write env (specs\<lparr>width := w, precision := p\<rparr>) arg (s\<lparr>pctx := ctx\<rparr>))
                (\<lambda>s1. Inr (b, s1))))))"

definition vformat_handler :: "('f, 'c) format_env \<Rightarrow> fmt_state handler" where
  "vformat_handler env = \<lparr>
     on_text = (\<lambda>t s. emit (Done t) s),
     on_arg_auto = (\<lambda>s. bind_sum (next_arg_id (pctx s)) (\<lambda>(i, ctx). Inr (i, s\<lparr>pctx := ctx\<rparr>))),
     on_arg_index = (\<lambda>i s. bind_sum (check_arg_id i (pctx s)) (\<lambda>ctx. Inr (i, s\<lparr>pctx := ctx\<rparr>))),
     on_arg_name = (\<lambda>n s.
       bind_sum (check_arg_name n (pctx s)) (\<lambda>ctx.
         let i = get_id (env_args env) n in
         if i < 0 then Inl ''argument not found'' else Inr (i, s\<lparr>pctx := ctx\<rparr>))),
     on_replacement_field = (\<lambda>i b s.
       bind_sum (get_arg (get_arg_at (env_args env) i)) (\<lambda>arg. default_write env arg s)),
     on_format_specs = vformat_specs env\<rparr>"

definition vformat_to :: "('f, 'c) format_env \<Rightarrow> string \<Rightarrow> string \<Rightarrow> (string + string) option" where
  "vformat_to env buf fmt =
     (let s = \<lparr>pctx = \<lparr>format_str = fmt, ctx_next_id = 0, ctx_types = None\<rparr>, out = buf\<rparr> in
      map_option (\<lambda>r. bind_sum r (\<lambda>s1. Inr (out s1)))
        (if fmt = ''{}'' then
           Some (bind_sum (get_arg (get_arg_at (env_args env) 0)) (\<lambda>arg. default_write env arg s))
         else parse_format_string fmt (vformat_handler env) s))"

section \<open>The handler satisfies the contracts\<close>

lemma spec_switch_no_longer:
  assumes "spec_switch t c begn cur sp ctx = Inr (Returns, begn', r)"
  shows "length begn' \<le> length begn"
  using assms
  by (auto simp: spec_switch_def Let_def parse_presentation_type_def spec_default_def split: if_splits)

lemma not_Returns: "tn \<noteq> Returns \<longleftrightarrow> tn = Loops"
  by (cases tn) simp_all

lemma specs_loop_no_longer:
  "specs_loop t m begn cur sp ctx = Inr (b, sp', ctx') \<Longrightarrow> length b \<le> length begn"
proof (induction t m begn cur sp ctx rule: specs_loop.induct)
  case (1 t m begn cur sp ctx)
  show ?case
  proof (cases "begn = []")
    case True
    with "1.prems" show ?thesis by (simp add: specs_loop.simps [of t m begn])
  next
    case False
    then obtain tn b1 cur1 sp1 ctx1 where sw:
      "spec_switch t (masked_char m begn) begn cur sp ctx = Inr (tn, b1, cur1, sp1, ctx1)"
      "(if tn = Returns then Inr (b1, sp1, ctx1) else specs_loop t False b1 cur1 sp1 ctx1) = Inr (b, sp', ctx')"
      using "1.prems" by (auto simp: specs_loop.simps [of t m begn])
    show ?thesis
    proof (cases tn)
      case Returns
      then show ?thesis using sw spec_switch_no_longer by auto
    next
      case Loops
      then have "length b \<le> length b1"
        using sw(2) "1.IH" [OF False sw(1) refl refl refl refl] by simp
      also have "length b1 < length begn"
        using spec_switch_shorter [OF _ False] sw(1) Loops by blast
      finally show ?thesis by simp
    qed
  qed
qed

lemma parse_format_specs_no_longer:
  "parse_format_specs begn sp ctx t = Inr (b, sp', ctx') \<Longrightarrow> length b \<le> length begn"
  by (auto simp: parse_format_specs_def split: if_splits dest: specs_loop_no_longer)

lemma emit_Done [simp]: "emit (Done t) s = Inr (s\<lparr>out := out s @ t\<rparr>)"
  by (simp add: emit_def)

lemma emit_pctx: "emit w s = Inr s' \<Longrightarrow> pctx s' = pctx s"
  by (auto simp: emit_def split: outcome.splits)

lemma vformat_specs_no_longer:
  "vformat_specs env i b s = Inr (b', s') \<Longrightarrow> length b' \<le> length b"
  by (auto simp: vformat_specs_def Let_def split: option.splits if_splits
      dest: parse_format_specs_no_longer)

interpretation vformat: text_handler "vformat_handler env" for env :: "('f, 'c) format_env"
proof unfold_locales
  show "on_text (vformat_handler env) [] s = Inr s" for s
    by (simp add: vformat_handler_def)
  show "length b' \<le> length b" if "on_format_specs (vformat_handler env) i b s = Inr (b', s')" for i b s b' s'
    using that vformat_specs_no_longer by (auto simp: vformat_handler_def)
qed (simp_all add: vformat_handler_def)

section \<open>The short cut for \<open>{}\<close>\<close>

text \<open>What a visitor writes does not depend on the parse context.\<close>

lemma emit_out: "emit w s = bind_sum (emit w \<lparr>pctx = c, out = []\<rparr>) (\<lambda>s1. Inr (s\<lparr>out := out s @ out s1\<rparr>))"
  by (simp add: emit_def split: outcome.split)

definition arg_text :: "('f, 'c) format_env \<Rightarrow> ('f, 'c) format_arg \<Rightarrow> string + string" where
  "arg_text env arg =
     bind_sum (default_write env arg
       \<lparr>pctx = \<lparr>format_str = [], ctx_next_id = 0, ctx_types = None\<rparr>, out = []\<rparr>) (\<lambda>s. Inr (out s))"

lemma default_write_text:
  "default_write env arg s = bind_sum (arg_text env arg) (\<lambda>t. Inr (s\<lparr>out := out s @ t\<rparr>))"
proof (cases "arg_val arg")
  case (V_custom c)
  then show ?thesis
    by (simp add: default_write_def arg_text_def bind_sum_assoc split_def)
qed (simp_all add: default_write_def arg_text_def emit_def split: outcome.split option.split)

definition start :: "string \<Rightarrow> string \<Rightarrow> fmt_state" where
  "start buf fmt = \<lparr>pctx = \<lparr>format_str = fmt, ctx_next_id = 0, ctx_types = None\<rparr>, out = buf\<rparr>"

lemma brackets_events: "''{}'' = print_events [Fld Auto]"
  by (simp add: print_events_def)

lemma vformat_to_general:
  "vformat_to env buf fmt =
    map_option (\<lambda>r. bind_sum r (\<lambda>s. Inr (out s)))
      (parse_format_string fmt (vformat_handler env) (start buf fmt))"
proof (cases "fmt = ''{}''")
  case True
  have "parse_format_string ''{}'' (vformat_handler env) (start buf ''{}'') =
      Some (act_on_events (vformat_handler env) [Fld Auto] (start buf ''{}''))"
    unfolding brackets_events by (rule vformat.parse_format_string_events) simp
  then show ?thesis using True
    by (simp add: vformat_to_def start_def act_on_event_def id_adapter_def vformat_handler_def
        next_arg_id_def do_check_arg_id_def default_write_text bind_sum_assoc)
qed (simp add: vformat_to_def start_def)


section \<open>Text and fields without specifiers\<close>

text \<open>
  The specification, on the list of the arguments: where a field finds its argument, and what
  the counter is afterwards; and the text a list of events stands for.
\<close>

definition find_named :: "(string option \<times> ('f, 'c) format_arg) list \<Rightarrow> string \<Rightarrow> nat option" where
  "find_named vals name = find (\<lambda>i. fst (vals ! i) = Some name) [0..<length vals]"

fun field_arg ::
  "(string option \<times> ('f, 'c) format_arg) list \<Rightarrow> int \<Rightarrow> arg_id \<Rightarrow>
   string + (('f, 'c) format_arg \<times> int)" where
  "field_arg vals k Auto =
     (if k < 0 then Inl ''cannot switch from manual to automatic argument indexing''
      else if nat k < length vals then Inr (snd (vals ! nat k), k + 1) else Inl ''argument not found'')"
| "field_arg vals k (Index ds) =
     (if k > 0 then Inl ''cannot switch from automatic to manual argument indexing''
      else if decimal ds < length vals then Inr (snd (vals ! decimal ds), -1) else Inl ''argument not found'')"
| "field_arg vals k (Name n) =
     (case find_named vals n of
        None \<Rightarrow> Inl ''argument not found'' | Some i \<Rightarrow> Inr (snd (vals ! i), -1))"

fun events_text ::
  "('f, 'c) format_env \<Rightarrow> (string option \<times> ('f, 'c) format_arg) list \<Rightarrow> int \<Rightarrow> event list \<Rightarrow>
   string + string" where
  "events_text env vals k [] = Inr []"
| "events_text env vals k (Ch c # evs) = bind_sum (events_text env vals k evs) (\<lambda>t. Inr (c # t))"
| "events_text env vals k (Fld i # evs) =
     bind_sum (field_arg vals k i) (\<lambda>(arg, k').
     bind_sum (arg_text env arg) (\<lambda>t.
     bind_sum (events_text env vals k' evs) (\<lambda>ts. Inr (t @ ts))))"

lemma find_named_less: "find_named vals n = Some i \<Longrightarrow> i < length vals"
  by (auto simp: find_named_def find_Some_iff)

lemma get_arg_list:
  assumes "length vals < 2 ^ 31" "\<forall>(n, a) \<in> set vals. arg_ty a \<noteq> none_type"
  shows "get_arg (get_arg_at (make_format_args vals) (int i)) =
    (if i < length vals then Inr (snd (vals ! i)) else Inl ''argument not found'')"
proof -
  have "arg_ty (snd (vals ! i)) \<noteq> none_type" if "i < length vals"
    using assms(2) nth_mem [OF that] by (auto simp: split_def)
  then show ?thesis
    using get_arg_at_make [OF assms, of i] by (simp add: get_arg_def empty_arg_def)
qed

lemma field_event_text:
  assumes "env_args env = make_format_args vals" "length vals < 2 ^ 31"
    "\<forall>(n, a) \<in> set vals. arg_ty a \<noteq> none_type" "ctx_types (pctx s) = None"
  shows "act_on_event (vformat_handler env) (Fld i) s =
    bind_sum (field_arg vals (ctx_next_id (pctx s)) i) (\<lambda>(arg, k).
      bind_sum (arg_text env arg) (\<lambda>t. Inr (s\<lparr>pctx := (pctx s)\<lparr>ctx_next_id := k\<rparr>, out := out s @ t\<rparr>)))"
proof -
  note args = get_arg_list [OF assms(2,3)]
  note sim = act_on_event_def id_adapter_def vformat_handler_def next_arg_id_def check_arg_id_def
    check_arg_name_def do_check_arg_id_def default_write_text assms(1,4) Let_def
  show ?thesis
  proof (cases i)
    case Auto
    then show ?thesis using args [of "nat (ctx_next_id (pctx s))"]
      by (cases "ctx_next_id (pctx s) < 0") (simp_all add: sim)
  next
    case (Index ds)
    then show ?thesis using args [of "decimal ds"] by (simp add: sim)
  next
    case (Name n)
    have "get_id (env_args env) n = (case find_named vals n of None \<Rightarrow> -1 | Some j \<Rightarrow> int j)"
      unfolding assms(1) find_named_def by (rule get_id_make [OF assms(2)])
    then show ?thesis using Name args find_named_less [of vals n]
      by (simp add: sim split: option.split)
  qed
qed

lemma events_text_act:
  assumes "env_args env = make_format_args vals" "length vals < 2 ^ 31"
    "\<forall>(n, a) \<in> set vals. arg_ty a \<noteq> none_type"
  shows "ctx_types (pctx s) = None \<Longrightarrow>
    bind_sum (act_on_events (vformat_handler env) evs s) (\<lambda>s1. Inr (out s1)) =
    bind_sum (events_text env vals (ctx_next_id (pctx s)) evs) (\<lambda>t. Inr (out s @ t))"
proof (induction evs arbitrary: s)
  case (Cons e evs)
  show ?case
  proof (cases e)
    case (Ch c)
    then show ?thesis
      using Cons by (simp add: act_on_event_def vformat_handler_def bind_sum_assoc)
  next
    case (Fld i)
    show ?thesis
      using Cons.IH Cons.prems
      by (simp add: Fld field_event_text [OF assms Cons.prems] bind_sum_assoc split_def)
  qed
qed simp

text \<open>
  C14. What a format string of characters and of replacement fields without specifiers prints:
  every character as it is, the doubled braces as braces, and every field as the default text
  of its argument, by the automatic counter, by its index, or by its name. The errors are
  those of a field, in the order of the fields, and nothing else can go wrong.
\<close>

theorem vformat_to_events:
  assumes "env_args env = make_format_args vals" "length vals < 2 ^ 31"
    and "\<forall>(n, a) \<in> set vals. arg_ty a \<noteq> none_type" "\<forall>e \<in> set evs. valid_event e"
  shows "vformat_to env buf (print_events evs) =
    Some (bind_sum (events_text env vals 0 evs) (\<lambda>t. Inr (buf @ t)))"
  using events_text_act [OF assms(1-3), of "start buf (print_events evs)" evs]
  by (simp add: vformat_to_general vformat.parse_format_string_events [OF assms(4)] start_def)

theorem vformat_to_events_witness:
  "vformat_to \<lparr>env_args = make_format_args
       [(None, \<lparr>arg_ty = string_type, arg_val = V_string ''hi''\<rparr>),
        (Some ''x'', \<lparr>arg_ty = char_type, arg_val = V_char CHR ''c''\<rparr>)],
     env_loc = \<lparr>grouping = [], thousands_sep = []\<rparr>, env_global_loc = \<lparr>grouping = [], thousands_sep = []\<rparr>,
     env_fuel = 0, env_float = (\<lambda>(v :: unit) sp. Undefined), env_custom = (\<lambda>(c :: unit) ctx. Inl [])\<rparr>
     ''> '' ''{}{{{}}}'' = Some (Inr ''> hi{c}'') \<and>
   vformat_to \<lparr>env_args = make_format_args
       [(None, \<lparr>arg_ty = string_type, arg_val = V_string ''hi''\<rparr>),
        (Some ''x'', \<lparr>arg_ty = char_type, arg_val = V_char CHR ''c''\<rparr>)],
     env_loc = \<lparr>grouping = [], thousands_sep = []\<rparr>, env_global_loc = \<lparr>grouping = [], thousands_sep = []\<rparr>,
     env_fuel = 0, env_float = (\<lambda>(v :: unit) sp. Undefined), env_custom = (\<lambda>(c :: unit) ctx. Inl [])\<rparr>
     ''> '' ''{x}{}'' = Some (Inl ''cannot switch from manual to automatic argument indexing'')"
proof -
  let ?vals = "[(None, \<lparr>arg_ty = string_type, arg_val = V_string ''hi'' :: (unit, unit) arg_value\<rparr>),
    (Some ''x'', \<lparr>arg_ty = char_type, arg_val = V_char CHR ''c''\<rparr>)]"
  let ?env = "\<lparr>env_args = make_format_args ?vals,
     env_loc = \<lparr>grouping = [], thousands_sep = []\<rparr>, env_global_loc = \<lparr>grouping = [], thousands_sep = []\<rparr>,
     env_fuel = 0, env_float = (\<lambda>(v :: unit) sp. Undefined), env_custom = (\<lambda>(c :: unit) ctx. Inl [])\<rparr>"
  have a: "vformat_to ?env ''> '' (print_events evs) =
      Some (bind_sum (events_text ?env ?vals 0 evs) (\<lambda>t. Inr (''> '' @ t)))"
    if "\<forall>e \<in> set evs. valid_event e" for evs
    by (rule vformat_to_events) (use that in auto)
  have x: "valid_event (Fld (Name ''x''))"
    by (simp add: is_name_start_def is_name_char_def is_digit_def code_def)
  from a [of "[Fld Auto, Ch CHR ''{'', Fld Auto, Ch CHR ''}'']"] a [of "[Fld (Name ''x''), Fld Auto]"] x
  show ?thesis
    by (simp add: print_events_def arg_text_def default_write_def find_named_def)
qed

section \<open>A field with specifiers for an integer\<close>

context format_handler
begin

lemma parse_format_string_field:
  assumes "valid_id i"
    and "act_on_id i (id_adapter h) (0, s) = Inr (k, s1)"
    and "on_format_specs h k (body @ ''}'') s1 = bind_sum m (\<lambda>s2. Inr (''}'', s2))"
  shows "parse_format_string (CHR ''{'' # print_id i @ CHR '':'' # body @ ''}'') h s =
    Some m"
proof -
  let ?r = "CHR '':'' # body @ ''}''"
  have "\<exists>c q. print_id i @ ?r = c # q \<and> c \<noteq> CHR ''}'' \<and> c \<noteq> CHR ''{''"
    using print_id_head [OF assms(1)] by (cases "i = Auto") force+
  then obtain c q where c: "print_id i @ ?r = c # q" "c \<noteq> CHR ''}''" "c \<noteq> CHR ''{''" by blast
  have "parse_replacement_field (CHR ''{'' # print_id i @ ?r) h s =
      bind_sum m (\<lambda>s2. Inr ([], s2))"
    using c parse_arg_id_valid [OF assms(1), of "CHR '':''" "body @ ''}''" "id_adapter h" "(0, s)"]
    by (simp add: parse_replacement_field_def Let_def bind_sum_assoc assms(2,3) split_def)
  then have "parse_format_string (CHR ''{'' # print_id i @ ?r) h s =
      (case bind_sum m (\<lambda>s2. Inr ([], s2)) of Inl e \<Rightarrow> Some (Inl e)
       | Inr r \<Rightarrow> small_loop h [] (fst r) (snd r))"
    by (simp only: parse_format_string_eq small_brace)
  then show ?thesis
    by (cases m) (simp_all add: small_loop.simps [of h "[]" "[]"] text_nil del: bind_sum_Inr)
qed

end

text \<open>
  The specifiers an integer field asks for, its width aside: the last three characters of
  \<open>spec_syntax\<close> that an integer may have are the type, the locale and the precision, of which
  the field below has only the type.
\<close>

definition static_specs :: "spec_syntax \<Rightarrow> dynamic_format_specs" where
  "static_specs y =
     type_meaning y (zero_meaning y ((\<lambda>x. if s_alt y then x\<lparr>alt := True\<rparr> else x)
       (sign_meaning y (align_meaning y default_specs))))"

fun width_value ::
  "(string option \<times> ('f, 'c) format_arg) list \<Rightarrow> int \<Rightarrow> count \<Rightarrow> string + int" where
  "width_value vals k NoCount = Inr 0"
| "width_value vals k (Lit ds) = Inr (int (decimal ds))"
| "width_value vals k (Dyn i) =
     bind_sum (field_arg vals k i) (\<lambda>(arg, k'). get_dynamic_spec width_checker arg)"

lemma get_named_list:
  assumes "length vals < 2 ^ 31" "\<forall>(n, a) \<in> set vals. arg_ty a \<noteq> none_type"
  shows "get_arg (get_arg_named (make_format_args vals) n) =
    (case find_named vals n of None \<Rightarrow> Inl ''argument not found'' | Some i \<Rightarrow> Inr (snd (vals ! i)))"
proof (cases "find_named vals n")
  case None
  then show ?thesis
    by (simp add: get_arg_named_def get_id_make [OF assms(1)] find_named_def get_arg_def empty_arg_def)
next
  case (Some i)
  then have "get_arg_named (make_format_args vals) n = get_arg_at (make_format_args vals) (int i)"
    by (simp add: get_arg_named_def get_id_make [OF assms(1)] find_named_def)
  then show ?thesis using get_arg_list [OF assms, of i] find_named_less [OF Some] Some by simp
qed

lemma act_on_id_arg:
  assumes "env_args env = make_format_args vals" "length vals < 2 ^ 31"
    "\<forall>(n, a) \<in> set vals. arg_ty a \<noteq> none_type" "ctx_types (pctx s) = None"
    "field_arg vals (ctx_next_id (pctx s)) i = Inr (arg, k)"
  shows "\<exists>j. act_on_id i (id_adapter (vformat_handler env)) (0, s) =
      Inr (j, s\<lparr>pctx := (pctx s)\<lparr>ctx_next_id := k\<rparr>\<rparr>) \<and>
    get_arg (get_arg_at (env_args env) j) = Inr arg"
proof -
  note args = get_arg_list [OF assms(2,3)]
  note sim = id_adapter_def vformat_handler_def next_arg_id_def check_arg_id_def
    check_arg_name_def do_check_arg_id_def assms(1,4) Let_def
  show ?thesis
  proof (cases i)
    case Auto
    then show ?thesis using args [of "nat (ctx_next_id (pctx s))"] assms(5)
      by (auto simp: sim split: if_splits)
  next
    case (Index ds)
    then show ?thesis using args [of "decimal ds"] assms(5) by (auto simp: sim split: if_splits)
  next
    case (Name n)
    then obtain j where j: "find_named vals n = Some j" "arg = snd (vals ! j)" "k = -1"
      using assms(5) by (auto split: option.splits)
    have "get_id (env_args env) n = int j"
      using get_id_make [OF assms(2), of n] j(1) unfolding assms(1) find_named_def by simp
    then show ?thesis using Name args [of j] find_named_less [OF j(1)] j
      by (simp add: sim)
  qed
qed

definition width_context ::
  "('f, 'c) format_args \<Rightarrow> count \<Rightarrow> parse_context \<Rightarrow> string + (int \<times> parse_context)" where
  "width_context args c ctx =
     bind_sum (count_meaning c 0 ref_none ctx) (\<lambda>(w, wr, ctx1).
     bind_sum (handle_dynamic_spec width_checker w wr args) (\<lambda>w. Inr (w, ctx1)))"

lemma width_context_value:
  assumes "length vals < 2 ^ 31" "\<forall>(n, a) \<in> set vals. arg_ty a \<noteq> none_type" "ctx_types ctx = None"
  shows "bind_sum (width_context (make_format_args vals) c ctx) (\<lambda>(w, ctx1). Inr (f w)) =
    bind_sum (width_value vals (ctx_next_id ctx) c) (\<lambda>w. Inr (f w))"
proof (cases c)
  case (Dyn i)
  note args = get_arg_list [OF assms(1,2)] get_named_list [OF assms(1,2)]
  note sim = width_context_def dynamic_spec_id_handler_def next_arg_id_def check_arg_id_def
    check_arg_name_def do_check_arg_id_def check_dynamic_spec_def assms(3) Let_def bind_sum_assoc
  show ?thesis
  proof (cases i)
    case Auto
    then show ?thesis using args(1) [of "nat (ctx_next_id ctx)"] Dyn
      by (cases "ctx_next_id ctx < 0") (simp_all add: sim)
  next
    case (Index ds)
    then show ?thesis using args(1) [of "decimal ds"] Dyn by (simp add: sim)
  next
    case (Name n)
    then show ?thesis using args(2) [of n] Dyn by (simp add: sim split: option.split)
  qed
qed (simp_all add: width_context_def)

lemma get_dynamic_spec_bounds:
  "get_dynamic_spec h arg = Inr w \<Longrightarrow> 0 \<le> w \<and> w \<le> INT_MAX"
  by (auto simp: get_dynamic_spec_def split: if_splits)

lemma handle_dynamic_bounds:
  "handle_dynamic_spec h v r args = Inr w \<Longrightarrow> r = ref_none \<and> w = v \<or> 0 \<le> w \<and> w \<le> INT_MAX"
  by (cases r) (auto dest: get_dynamic_spec_bounds)

lemma width_context_bounds:
  assumes "valid_count c" "width_context args c ctx = Inr (w, ctx')"
  shows "0 \<le> w \<and> w \<le> INT_MAX"
proof -
  obtain v r where "count_meaning c 0 ref_none ctx = Inr (v, r, ctx')"
    "handle_dynamic_spec width_checker v r args = Inr w"
    using assms(2) by (auto simp: width_context_def)
  moreover from this(1) assms(1) have "0 \<le> v \<and> v \<le> INT_MAX"
    by (cases c) (auto simp: number_literal_def INT_MAX_def)
  ultimately show ?thesis using handle_dynamic_bounds by blast
qed

lemma spec_meaning_integer:
  assumes "valid_spec t y" "int_bits t = Some n" "\<not> s_locale y"
  shows "spec_meaning y default_specs ctx =
    bind_sum (count_meaning (s_width y) 0 ref_none ctx) (\<lambda>(w, wr, ctx1).
      Inr ((static_specs y)\<lparr>width := w, width_ref := wr\<rparr>, ctx1))"
proof -
  have "s_precision y = NoCount"
    using assms(1,2) by (cases t) (auto simp: valid_spec_def)
  moreover have "width sp = 0 \<and> width_ref sp = ref_none" if "sp = zero_meaning y
      ((\<lambda>x. if s_alt y then x\<lparr>alt := True\<rparr> else x) (sign_meaning y (align_meaning y default_specs)))" for sp
    by (simp add: that zero_meaning_def sign_meaning_def align_meaning_def default_specs_def
        split: option.split prod.split)
  moreover have "type_meaning y (sp\<lparr>width := w, width_ref := wr, precision := precision sp,
      precision_ref := precision_ref sp\<rparr>) = (type_meaning y sp)\<lparr>width := w, width_ref := wr\<rparr>" for sp w wr
    by (cases sp) (simp add: type_meaning_def split: option.split prod.split)
  ultimately show ?thesis
    using assms(3) by (simp add: spec_meaning_def static_specs_def Let_def)
qed

lemma type_meaning_fields:
  "precision (type_meaning y sp) = precision sp" "precision_ref (type_meaning y sp) = precision_ref sp"
  "localized (type_meaning y sp) = localized sp"
  by (simp_all add: type_meaning_def split: option.split prod.split)

lemma static_specs_integer:
  assumes "valid_spec t y" "int_bits t = Some n" "s_type y \<noteq> Some (CHR ''c'')"
  shows "precision (static_specs y) = -1" "precision_ref (static_specs y) = ref_none"
    "localized (static_specs y) = False"
    "pres (static_specs y) \<in> {pres_none, pres_dec, pres_hex, pres_oct, pres_bin}"
proof -
  obtain sp where sp_def: "sp = zero_meaning y ((\<lambda>x. if s_alt y then x\<lparr>alt := True\<rparr> else x)
    (sign_meaning y (align_meaning y default_specs)))" by blast
  have sp: "precision sp = -1" "precision_ref sp = ref_none" "localized sp = False" "pres sp = pres_none"
    by (simp_all add: sp_def zero_meaning_def sign_meaning_def align_meaning_def default_specs_def
        split: option.split prod.split)
  have static: "static_specs y = type_meaning y sp" by (simp add: static_specs_def sp_def)
  show "precision (static_specs y) = -1" "precision_ref (static_specs y) = ref_none"
    "localized (static_specs y) = False"
    by (simp_all only: static type_meaning_fields sp)
  have none: "\<not> in_set t (bool_set OR string_set OR cstring_set)" "\<not> in_set t float_set"
    "\<not> in_set t (pointer_set OR cstring_set)" "\<not> in_set t (char_set OR string_set OR cstring_set)"
    using assms(2) by auto
  have chr: "\<exists>p st u. (c, p, st, u) \<in> set type_table \<and> in_set t st" if "s_type y = Some c" for c
    using assms(1) that by (simp add: valid_spec_def)
  have "c \<in> {CHR ''d'', CHR ''x'', CHR ''X'', CHR ''o'', CHR ''b'', CHR ''B''}" if c: "s_type y = Some c" for c
  proof -
    obtain p st u where "(c, p, st, u) \<in> set type_table" "in_set t st" using chr [OF c] by blast
    then show ?thesis using none assms(3) c by (auto simp: type_table_def simp del: in_set_or in_sets)
  qed
  then have "s_type y = None \<or> (\<exists>c \<in> {CHR ''d'', CHR ''x'', CHR ''X'', CHR ''o'', CHR ''b'', CHR ''B''}.
      s_type y = Some c)" by (cases "s_type y") auto
  then show "pres (static_specs y) \<in> {pres_none, pres_dec, pres_hex, pres_oct, pres_bin}"
    using sp by (auto simp: static type_meaning_def type_table_def)
qed

lemma vformat_specs_integer:
  assumes "get_arg (get_arg_at (env_args env) j) = Inr \<lparr>arg_ty = t, arg_val = V_int v\<rparr>"
    and int: "int_bits t = Some n" "- (2 ^ (n - 1)) \<le> v" "v < 2 ^ n"
    and spec: "valid_spec t y" "\<not> s_locale y" "s_type y \<noteq> Some (CHR ''c'')"
  shows "vformat_specs env j (print_spec y @ ''}'') s =
    bind_sum (bind_sum (width_context (env_args env) (s_width y) (pctx s)) (\<lambda>(w, ctx).
      let sp = (static_specs y)\<lparr>width := w\<rparr> in
      Inr (s\<lparr>pctx := ctx, out := out s @ pad align_right sp (length (int_text sp v)) (int_text sp v)\<rparr>)))
    (\<lambda>s2. Inr (''}'', s2))"
proof -
  have bits: "n \<in> {32, 64, 128}" using int(1) by (cases t) auto
  note static = static_specs_integer [OF spec(1) int(1) spec(3)]
  have pad_eq: "pad align_right (sp\<lparr>width_ref := r\<rparr>) w' x = pad align_right sp w' x"
    "int_text (sp\<lparr>width_ref := r\<rparr>) v = int_text sp v" for sp :: dynamic_format_specs and r w' x
    by (simp_all add: pad_def int_text_def int_digits_def base_text_def Let_def)
  have arg: "arg_write env ((static_specs y)\<lparr>width := w, width_ref := r\<rparr>)
      \<lparr>arg_ty = t, arg_val = V_int v\<rparr> s1 =
      (let sp = (static_specs y)\<lparr>width := w\<rparr> in
      Inr (s1\<lparr>out := out s1 @ pad align_right sp (length (int_text sp v)) (int_text sp v)\<rparr>))"
    if "0 \<le> w \<and> w \<le> INT_MAX" for w r s1
  proof -
    let ?sp = "(static_specs y)\<lparr>width := w, width_ref := r\<rparr>"
    have "write_int n (make_write_int_arg n v (sign ?sp)) ?sp =
        Done (pad align_right ?sp (length (int_text ?sp v)) (int_text ?sp v))"
      by (rule write_int_text [OF bits int(2,3)]) (use that static in \<open>simp_all add: valid_width_def\<close>)
    then show ?thesis
      using static(3) int(1) pad_eq by (simp add: arg_write_def write_integer_def Let_def)
  qed
  have valid: "valid_count (s_width y)" using spec(1) by (simp add: valid_spec_def)
  have same: "(static_specs y)\<lparr>width_ref := wr, width := w, precision := -1\<rparr> =
      (static_specs y)\<lparr>width := w, width_ref := wr\<rparr>" for w wr
    using static(1) by (cases "static_specs y") simp
  have obj: "custom_object \<lparr>arg_ty = t, arg_val = V_int v\<rparr> = None" by (simp add: custom_object_def)
  have run: "vformat_specs env j (print_spec y @ ''}'') s =
      bind_sum (count_meaning (s_width y) 0 ref_none (pctx s)) (\<lambda>(w, wr, ctx).
      bind_sum (handle_dynamic_spec width_checker w wr (env_args env)) (\<lambda>w.
      bind_sum (arg_write env ((static_specs y)\<lparr>width := w, width_ref := wr\<rparr>)
        \<lparr>arg_ty = t, arg_val = V_int v\<rparr> (s\<lparr>pctx := ctx\<rparr>)) (\<lambda>s1. Inr (''}'', s1))))"
    using static
    by (simp add: same vformat_specs_def assms(1) obj parse_specs_valid [OF spec(1)]
        spec_meaning_integer [OF spec(1) int(1) spec(2)] bind_sum_assoc split_def)
  show ?thesis
  proof (cases "count_meaning (s_width y) 0 ref_none (pctx s)")
    case (Inl e)
    then show ?thesis unfolding run by (simp add: width_context_def)
  next
    case (Inr r)
    obtain w0 wr ctx where r: "r = (w0, wr, ctx)" by (cases r) auto
    show ?thesis
    proof (cases "handle_dynamic_spec width_checker w0 wr (env_args env)")
      case (Inl e)
      then show ?thesis unfolding run using Inr r by (simp add: width_context_def)
    next
      case (Inr w)
      then have "width_context (env_args env) (s_width y) (pctx s) = Inr (w, ctx)"
        using \<open>count_meaning (s_width y) 0 ref_none (pctx s) = Inr r\<close> r by (simp add: width_context_def)
      with width_context_bounds [OF valid this] Inr r show ?thesis
        unfolding run using \<open>count_meaning (s_width y) 0 ref_none (pctx s) = Inr r\<close>
        by (simp add: arg Let_def)
    qed
  qed
qed



section \<open>A dynamic width of 128 bits\<close>

text \<open>
  A dynamic width or precision of a 128-bit type is not checked as a whole: the checkers
  convert it to \<open>unsigned long long\<close> before the range test, so that a value far beyond
  \<open>INT_MAX\<close> is accepted as what its low 64 bits say instead of being refused as too big, as
  the same test does for every value of a smaller type.
\<close>

theorem dynamic_width_truncated:
  assumes "int_bits (arg_ty arg) = Some n" "arg_val arg = V_int (2 ^ 64 * q + w)" "0 \<le> q" "0 \<le> w" "w < 2 ^ 64"
  shows "get_dynamic_spec width_checker arg = (if w \<le> INT_MAX then Inr w else Inl ''number is too big'') \<and>
    get_dynamic_spec precision_checker arg = (if w \<le> INT_MAX then Inr w else Inl ''number is too big'')"
proof -
  have "int (nat (2 ^ 64 * q + w) mod 2 ^ 64) = w"
    using assms(3-5) by (simp add: zmod_int)
  then show ?thesis
    using assms by (auto simp: get_dynamic_spec_def width_checker_def precision_checker_def)
qed

theorem dynamic_width_truncated_witness:
  "get_dynamic_spec width_checker \<lparr>arg_ty = uint128_type, arg_val = V_int (2 ^ 64 + 5) :: (unit, unit) arg_value\<rparr> = Inr 5 \<and>
   get_dynamic_spec width_checker \<lparr>arg_ty = ulong_long_type, arg_val = V_int (2 ^ 63 + 5) :: (unit, unit) arg_value\<rparr> =
     Inl ''number is too big''"
  using dynamic_width_truncated [of "\<lparr>arg_ty = uint128_type, arg_val = V_int (2 ^ 64 + 5) :: (unit, unit) arg_value\<rparr>" 128 1 5]
    dynamic_width_truncated [of "\<lparr>arg_ty = ulong_long_type, arg_val = V_int (2 ^ 63 + 5) :: (unit, unit) arg_value\<rparr>" 64 0 "2 ^ 63 + 5"]
  by (simp add: INT_MAX_def)

end
