(* ===== verification/Process_Priority.thy ===== *)
theory Process_Priority
  imports Fmt_Format "HOL-Library.Word"
begin

text \<open>
  Self-Study/Threading/ProcessPriority.cpp: \<open>SetProcessPriority\<close>, for Windows and for Linux.
  What the system calls answer is a parameter; the calls that change the process and the
  texts printed are recorded in order. The messages go through \<open>fmt::print\<close>, that is through
  the model of \<open>vformat_to\<close>: the first argument of \<open>print\<close> is the format string, and here that
  is the log channel.
\<close>

unbundle bit_operations_syntax

section \<open>The process and the system\<close>

datatype process_act =
    AffinityMask "64 word"     \<comment> \<open>\<open>SetProcessAffinityMask\<close>, with the mask\<close>
  | AffinitySet "nat list"     \<comment> \<open>\<open>sched_setaffinity\<close>, with the processors of the set\<close>
  | HighPriority               \<comment> \<open>\<open>SetPriorityClass\<close>, or \<open>setpriority\<close> with -15\<close>
  | Printed string

text \<open>\<open>ps_thrown\<close>: a \<open>format_error\<close> left the function.\<close>

record process =
  ps_acts :: "process_act list"
  ps_thrown :: "string option"

record process_os =
  po_get_mask :: "(64 word) option"   \<comment> \<open>\<open>GetProcessAffinityMask\<close>: the process mask, or failure\<close>
  po_set_mask :: bool                 \<comment> \<open>\<open>SetProcessAffinityMask\<close> succeeds\<close>
  po_set_class :: bool                \<comment> \<open>\<open>SetPriorityClass\<close> succeeds\<close>
  po_setaffinity :: bool              \<comment> \<open>\<open>sched_setaffinity\<close> answers 0\<close>
  po_cpu_mask :: "64 word"            \<comment> \<open>the first word of what \<open>sched_getaffinity\<close> stores\<close>
  po_setpriority :: bool              \<comment> \<open>\<open>setpriority\<close> answers 0\<close>
  po_getpriority :: int
  po_strerror :: string

definition did :: "process_act \<Rightarrow> process \<Rightarrow> process" where
  "did x s = s\<lparr>ps_acts := ps_acts s @ [x]\<rparr>"

text \<open>\<open>fmt::print(fmt, args...)\<close> to the standard output.\<close>

definition print_stdout ::
  "('f, 'c) format_env \<Rightarrow> string \<Rightarrow> ('f, 'c) format_arg list \<Rightarrow> process \<Rightarrow> process" where
  "print_stdout env fmt args s =
     (case vformat_to (env\<lparr>env_args := make_format_args (map (Pair None) args)\<rparr>) [] fmt of
        Some (Inr t) \<Rightarrow> did (Printed t) s
      | Some (Inl e) \<Rightarrow> s\<lparr>ps_thrown := Some e\<rparr>
      | None \<Rightarrow> s)"

text \<open>What follows a call of \<open>print\<close> runs only if it has not thrown.\<close>

definition and_then :: "process \<Rightarrow> (process \<Rightarrow> process) \<Rightarrow> process" where
  "and_then s f = (if ps_thrown s = None then f s else s)"

definition c_str :: "string \<Rightarrow> ('f, 'c) format_arg" where
  "c_str t = \<lparr>arg_ty = cstring_type, arg_val = V_cstring 1 (Some t)\<rparr>"

definition u32_arg :: "32 word \<Rightarrow> ('f, 'c) format_arg" where
  "u32_arg n = \<lparr>arg_ty = uint_type, arg_val = V_int (uint n)\<rparr>"

definition u64_arg :: "64 word \<Rightarrow> ('f, 'c) format_arg" where
  "u64_arg n = \<lparr>arg_ty = ulong_long_type, arg_val = V_int (uint n)\<rparr>"

definition int_arg :: "int \<Rightarrow> ('f, 'c) format_arg" where
  "int_arg n = \<lparr>arg_ty = int_type, arg_val = V_int n\<rparr>"

section \<open>\<open>SetProcessPriority\<close>\<close>

definition SetProcessPriority_windows ::
  "('f, 'c) format_env \<Rightarrow> process_os \<Rightarrow> string \<Rightarrow> 32 word \<Rightarrow> bool \<Rightarrow> process \<Rightarrow> process" where
  "SetProcessPriority_windows env os logChannel affinity highPriority s =
     (let print = print_stdout env logChannel in
      and_then
        (if 0 < affinity then
           (case po_get_mask os of
              None \<Rightarrow> s
            | Some appAff \<Rightarrow>
                let currentAffinity = ucast affinity AND appAff in
                if currentAffinity = 0 then
                  print [c_str ''Processors marked in UseProcessors bitmask (hex) {:x} are not accessible. Accessible processors bitmask (hex): {:x}'',
                    u32_arg affinity, u64_arg appAff] s
                else if po_set_mask os then
                  print [c_str ''Using processors (bitmask, hex): {:x}'', u64_arg currentAffinity]
                    (did (AffinityMask currentAffinity) s)
                else
                  print [c_str ''Can't set used processors (hex): {:x}'', u64_arg currentAffinity]
                    (did (AffinityMask currentAffinity) s))
         else s)
        (\<lambda>s1.
          if highPriority then
            if po_set_class os then print [c_str ''Process priority class set to HIGH''] (did HighPriority s1)
            else print [c_str ''Can't set process priority class.''] (did HighPriority s1)
          else s1))"

text \<open>The loop over the bits of \<open>affinity\<close>.\<close>

definition affinity_set :: "32 word \<Rightarrow> nat list" where
  "affinity_set affinity = filter (\<lambda>i. affinity AND push_bit i 1 \<noteq> 0) [0..<32]"

definition SetProcessPriority_linux ::
  "('f, 'c) format_env \<Rightarrow> process_os \<Rightarrow> string \<Rightarrow> 32 word \<Rightarrow> bool \<Rightarrow> process \<Rightarrow> process" where
  "SetProcessPriority_linux env os logChannel affinity highPriority s =
     (let print = print_stdout env logChannel in
      and_then
        (if 0 < affinity then
           let s1 = did (AffinitySet (affinity_set affinity)) s in
           if \<not> po_setaffinity os then
             print [c_str ''Can't set used processors (hex): {:x}, error: {}'', u32_arg affinity, c_str (po_strerror os)] s1
           else
             print [c_str ''Using processors (bitmask, hex): {:x}'', u64_arg (po_cpu_mask os)] s1
         else s)
        (\<lambda>s2.
          if highPriority then
            let s3 = did HighPriority s2 in
            if \<not> po_setpriority os then
              print [c_str ''Can't set process priority class, error: {}'', c_str (po_strerror os)] s3
            else
              print [c_str ''Process priority class set to {}'', int_arg (po_getpriority os)] s3
          else s2))"

section \<open>What is printed\<close>

lemma affinity_set_bits: "affinity_set w = filter (bit w) [0..<32]"
  unfolding affinity_set_def
  by (rule filter_cong) (auto simp: and_exp_eq_0_iff_not_bit push_bit_of_1)

text \<open>A format string without braces is printed as it is: the arguments are not used.\<close>

lemma act_on_chars:
  "act_on_events (vformat_handler env) (map Ch t) s = Inr (s\<lparr>out := out s @ t\<rparr>)"
  by (induction t arbitrary: s) (simp_all add: act_on_event_def vformat_handler_def)

lemma print_plain:
  assumes "CHR ''{'' \<notin> set ch" "CHR ''}'' \<notin> set ch"
  shows "print_stdout env ch args s = did (Printed ch) s"
proof -
  have ev: "print_events (map Ch ch) = ch"
    using assms by (induction ch) (auto simp: print_events_def)
  have "parse_format_string (print_events (map Ch ch)) (vformat_handler env') (start [] ch) =
      Some (Inr ((start [] ch)\<lparr>out := ch\<rparr>))" for env' :: "('a, 'b) format_env"
    using vformat.parse_format_string_events [of "map Ch ch" env' "start [] ch"]
    by (simp add: act_on_chars start_def)
  then show ?thesis unfolding print_stdout_def vformat_to_general ev by simp
qed

text \<open>
  C40. \<open>SetProcessPriority\<close> hands the log channel to \<open>fmt::print\<close> as the format string. With a
  channel name without braces it asks of the system what it should (the affinity to the
  processors of the bit mask, on Windows to those the process may use, then the priority
  class), but every line printed is the channel name: the messages, with the mask and the
  error, are arguments that nothing refers to.
\<close>

theorem messages_never_printed:
  assumes "CHR ''{'' \<notin> set ch" "CHR ''}'' \<notin> set ch"
  shows "SetProcessPriority_linux env os ch affinity high \<lparr>ps_acts = [], ps_thrown = None\<rparr> =
      \<lparr>ps_acts = (if affinity = 0 then [] else [AffinitySet (filter (bit affinity) [0..<32]), Printed ch]) @
          (if high then [HighPriority, Printed ch] else []), ps_thrown = None\<rparr> \<and>
    SetProcessPriority_windows env os ch affinity high \<lparr>ps_acts = [], ps_thrown = None\<rparr> =
      \<lparr>ps_acts = (if affinity = 0 then []
           else case po_get_mask os of
             None \<Rightarrow> []
           | Some m \<Rightarrow> (if ucast affinity AND m = 0 then [] else [AffinityMask (ucast affinity AND m)]) @ [Printed ch]) @
          (if high then [HighPriority, Printed ch] else []), ps_thrown = None\<rparr>"
  by (simp add: SetProcessPriority_linux_def SetProcessPriority_windows_def print_plain [OF assms]
      affinity_set_bits did_def and_then_def Let_def word_gt_0 split: option.split)

theorem messages_never_printed_witness:
  "SetProcessPriority_linux
     \<lparr>env_args = make_format_args [], env_loc = \<lparr>grouping = [], thousands_sep = []\<rparr>,
      env_global_loc = \<lparr>grouping = [], thousands_sep = []\<rparr>, env_fuel = 0,
      env_float = (\<lambda>(v :: unit) sp. Undefined), env_custom = (\<lambda>(c :: unit) ctx. Inl [])\<rparr>
     \<lparr>po_get_mask = None, po_set_mask = True, po_set_class = True, po_setaffinity = True, po_cpu_mask = 1,
      po_setpriority = False, po_getpriority = 0, po_strerror = ''Permission denied''\<rparr>
     ''server'' 0 True \<lparr>ps_acts = [], ps_thrown = None\<rparr> =
   \<lparr>ps_acts = [HighPriority, Printed ''server''], ps_thrown = None\<rparr>"
  by (simp add: messages_never_printed)

end
