(* ===== verification/Fmt_Safety.thy ===== *)
theory Fmt_Safety
  imports Fmt_Format
begin

text \<open>
  What can go wrong in \<open>vformat_to\<close>: the errors a format string can be refused with, and that
  no assertion of the writers fails. A small logic for results that are errors or values
  carries the proof through the parsers, the walk and the handler.
\<close>

section \<open>Results with known errors\<close>

definition yields :: "'e set \<Rightarrow> ('a \<Rightarrow> bool) \<Rightarrow> 'e + 'a \<Rightarrow> bool" where
  "yields E Q m = (case m of Inl e \<Rightarrow> e \<in> E | Inr x \<Rightarrow> Q x)"

lemma yields_simps [simp]: "yields E Q (Inl e) \<longleftrightarrow> e \<in> E" "yields E Q (Inr x) \<longleftrightarrow> Q x"
  by (simp_all add: yields_def)

lemma yields_bind:
  "yields E P m \<Longrightarrow> (\<And>x. P x \<Longrightarrow> yields E Q (f x)) \<Longrightarrow> yields E Q (bind_sum m f)"
  by (cases m) auto

lemma yields_bind_iff: "yields E Q (bind_sum m f) \<longleftrightarrow> yields E (\<lambda>x. yields E Q (f x)) m"
  by (cases m) auto

lemma yields_mono: "yields E P m \<Longrightarrow> (\<And>x. P x \<Longrightarrow> Q x) \<Longrightarrow> yields E Q m"
  by (cases m) auto

lemma yields_if:
  "(c \<Longrightarrow> yields E Q a) \<Longrightarrow> (\<not> c \<Longrightarrow> yields E Q b) \<Longrightarrow> yields E Q (if c then a else b)"
  by simp

section \<open>The parsers\<close>

definition parse_errors :: "string set" where
  "parse_errors =
     {''cannot switch from manual to automatic argument indexing'',
      ''cannot switch from automatic to manual argument indexing'',
      ''argument not found'', ''invalid format string'', unmatched,
      ''missing '' @ [CHR 0x27, CHR ''}'', CHR 0x27] @ '' in format string'',
      ''unknown format specifier'', ''number is too big'', ''invalid precision'',
      ''invalid format specifier'', ''invalid fill character '' @ [CHR 0x27, CHR ''{'', CHR 0x27],
      ''format specifier requires numeric argument''}"

definition run_time :: "parse_context \<Rightarrow> bool" where
  "run_time ctx \<longleftrightarrow> ctx_types ctx = None"

lemma run_time_steps:
  assumes "run_time ctx" "parse_errors \<subseteq> E"
  shows "yields E (\<lambda>(i, ctx'). run_time ctx') (next_arg_id ctx)"
    "yields E run_time (check_arg_id i ctx)" "yields E run_time (check_arg_name n ctx)"
    "yields E run_time (check_dynamic_spec i ctx)"
  using assms
  by (auto simp: run_time_def next_arg_id_def check_arg_id_def check_arg_name_def do_check_arg_id_def
      check_dynamic_spec_def Let_def parse_errors_def)

lemma parse_arg_id_yields:
  assumes "parse_errors \<subseteq> E" "I s" "\<And>s. I s \<Longrightarrow> yields E I (on_auto h s)"
    "\<And>i s. I s \<Longrightarrow> yields E I (on_index h i s)" "\<And>n s. I s \<Longrightarrow> yields E I (on_name h n s)"
  shows "yields E (\<lambda>(p', s'). I s') (parse_arg_id p h s)"
proof -
  have E: "''invalid format string'' \<in> E" using assms(1) by (auto simp: parse_errors_def)
  have "yields E (\<lambda>(p', s'). I s') (do_parse_arg_id p h s)"
    using assms(2-5) E by (simp add: do_parse_arg_id_def Let_def yields_bind_iff split: prod.split)
  then show ?thesis
    using assms(2,3) by (simp add: parse_arg_id_def Let_def yields_bind_iff)
qed

lemma dynamic_id_yields:
  assumes "run_time (fst cr)" "parse_errors \<subseteq> E"
  shows "yields E (\<lambda>(p', ctx', r'). run_time ctx') (parse_arg_id p dynamic_spec_id_handler cr)"
proof -
  have "yields E (\<lambda>(p', cr'). run_time (fst cr')) (parse_arg_id p dynamic_spec_id_handler cr)"
  proof (rule parse_arg_id_yields [where I = "\<lambda>cr. run_time (fst cr)"])
    show "yields E (\<lambda>cr. run_time (fst cr)) (on_auto dynamic_spec_id_handler s)"
      if "run_time (fst s)" for s :: "parse_context \<times> arg_ref"
      using that run_time_steps [OF _ assms(2)]
      by (auto simp: dynamic_spec_id_handler_def yields_bind_iff split_def
          intro!: yields_mono [OF run_time_steps(1) [OF _ assms(2)]] yields_mono [OF run_time_steps(4) [OF _ assms(2)]])
    show "yields E (\<lambda>cr. run_time (fst cr)) (on_index dynamic_spec_id_handler i s)"
      if "run_time (fst s)" for s :: "parse_context \<times> arg_ref" and i
      using that
      by (auto simp: dynamic_spec_id_handler_def yields_bind_iff split_def
          intro!: yields_mono [OF run_time_steps(2) [OF _ assms(2)]] yields_mono [OF run_time_steps(4) [OF _ assms(2)]])
    show "yields E (\<lambda>cr. run_time (fst cr)) (on_name dynamic_spec_id_handler n s)"
      if "run_time (fst s)" for s :: "parse_context \<times> arg_ref" and n
      using that
      by (auto simp: dynamic_spec_id_handler_def yields_bind_iff split_def
          intro!: yields_mono [OF run_time_steps(3) [OF _ assms(2)]])
  qed (use assms in auto)
  then show ?thesis by (rule yields_mono) auto
qed

text \<open>The values that are read are in the range of \<open>int\<close>.\<close>

lemma parse_nonnegative_int_range:
  assumes "p \<noteq> []" "is_digit (hd p)" "parse_nonnegative_int p (-1) = (v, q)" "v \<noteq> -1"
  shows "0 \<le> v \<and> v \<le> INT_MAX"
proof -
  have "takeWhile is_digit p \<noteq> []" using assms(1,2) by (cases p) auto
  moreover have "dropWhile is_digit p = [] \<or> \<not> is_digit (hd (dropWhile is_digit p))"
    using hd_dropWhile by blast
  ultimately have "parse_nonnegative_int (takeWhile is_digit p @ dropWhile is_digit p) (-1) =
    (if length (takeWhile is_digit p) \<le> 10 \<and> int (decimal (takeWhile is_digit p)) \<le> INT_MAX
     then int (decimal (takeWhile is_digit p)) else -1, dropWhile is_digit p)"
    by (intro parse_nonnegative_int_decimal) (auto dest: set_takeWhileD)
  then show ?thesis using assms(3,4) by (auto split: if_splits)
qed

definition count_ok :: "int \<Rightarrow> int \<Rightarrow> bool" where
  "count_ok d v \<longleftrightarrow> v = d \<or> 0 \<le> v \<and> v \<le> INT_MAX"

lemma parse_dynamic_spec_yields:
  assumes "p \<noteq> []" "run_time ctx" "count_ok d v" "parse_errors \<subseteq> E"
  shows "yields E (\<lambda>(p', v', r', ctx'). count_ok d v' \<and> run_time ctx') (parse_dynamic_spec p v r ctx)"
proof -
  have E: "''number is too big'' \<in> E" "''invalid format string'' \<in> E"
    using assms(4) by (auto simp: parse_errors_def)
  have "yields E (\<lambda>(p', ctx', r'). run_time ctx')
      (if tl p \<noteq> [] then parse_arg_id (tl p) dynamic_spec_id_handler (ctx, r) else Inr (tl p, ctx, r))"
    using dynamic_id_yields [of "(ctx, r)", OF _ assms(4)] assms(2) by auto
  then have dyn: "yields E (\<lambda>(p', v', r', ctx'). count_ok d v' \<and> run_time ctx')
     (bind_sum (if tl p \<noteq> [] then parse_arg_id (tl p) dynamic_spec_id_handler (ctx, r) else Inr (tl p, ctx, r))
       (\<lambda>(begn', (ctx', ref')). if begn' \<noteq> [] \<and> hd begn' = CHR ''}'' then Inr (tl begn', v, ref', ctx')
            else Inl ''invalid format string''))"
    by (rule yields_bind) (use E assms(3) in auto)
  then show ?thesis
    using assms(2,3) E parse_nonnegative_int_range [OF assms(1)]
    by (auto simp: parse_dynamic_spec_def count_ok_def split: prod.split)
qed

lemma parse_precision_yields:
  assumes "run_time ctx" "count_ok d v" "parse_errors \<subseteq> E"
  shows "yields E (\<lambda>(p', v', r', ctx'). count_ok d v' \<and> run_time ctx') (parse_precision p v r ctx)"
  using parse_dynamic_spec_yields [OF _ assms] assms(3)
  by (auto simp: parse_precision_def Let_def parse_errors_def)

section \<open>What the format specification parser promises\<close>

definition pres_ok :: "arg_type \<Rightarrow> presentation_type \<Rightarrow> bool" where
  "pres_ok t p \<longleftrightarrow>
     (if int_bits t \<noteq> None then p \<in> {pres_none, pres_dec, pres_hex, pres_oct, pres_bin, pres_chr}
      else if t = bool_type then p \<in> {pres_none, pres_string, pres_dec, pres_hex, pres_oct, pres_bin}
      else if t = char_type then
        p \<in> {pres_none, pres_debug, pres_dec, pres_hex, pres_oct, pres_bin, pres_chr}
      else True)"

definition specs_ok :: "arg_type \<Rightarrow> dynamic_format_specs \<Rightarrow> bool" where
  "specs_ok t sp \<longleftrightarrow> count_ok 0 (width sp) \<and> count_ok (- 1) (precision sp) \<and> pres_ok t (pres sp)"

lemma pres_ok_set:
  "in_set t integral_set \<Longrightarrow> t \<noteq> bool_type \<Longrightarrow> p \<in> {pres_dec, pres_hex, pres_oct, pres_bin, pres_chr} \<Longrightarrow> pres_ok t p"
  "in_set t integral_set \<Longrightarrow> p \<in> {pres_dec, pres_hex, pres_oct, pres_bin} \<Longrightarrow> pres_ok t p"
  "in_set t float_set \<Longrightarrow> pres_ok t p"
  "in_set t (bool_set OR string_set OR cstring_set) \<Longrightarrow> pres_ok t pres_string"
  "in_set t (pointer_set OR cstring_set) \<Longrightarrow> pres_ok t p"
  "in_set t (char_set OR string_set OR cstring_set) \<Longrightarrow> pres_ok t pres_debug"
  by (cases t; auto simp: pres_ok_def is_integral_type_def)+

abbreviation turn_ok :: "arg_type \<Rightarrow> turn \<times> string \<times> spec_state \<times> dynamic_format_specs \<times> parse_context \<Rightarrow> bool" where
  "turn_ok t \<equiv> \<lambda>(tn, b, cur, sp, ctx). specs_ok t sp \<and> run_time ctx"

lemma presentation_yields:
  assumes "specs_ok t sp" "run_time ctx" "parse_errors \<subseteq> E" "in_set t S \<Longrightarrow> pres_ok t p"
  shows "yields E (turn_ok t) (parse_presentation_type t p S begn cur sp ctx)"
  using assms by (auto simp: parse_presentation_type_def specs_ok_def parse_errors_def)

lemma enter_state_yields:
  "parse_errors \<subseteq> E \<Longrightarrow> (\<And>cur'. yields E Q (f cur')) \<Longrightarrow> yields E Q (bind_sum (enter_state cur s v) f)"
  by (auto simp: enter_state_def parse_errors_def)

lemma specs_ok_updates:
  assumes "specs_ok t sp"
  shows "specs_ok t (sp\<lparr>fill := f, align := a\<rparr>)" "specs_ok t (sp\<lparr>align := a, fill := f\<rparr>)"
    "specs_ok t (sp\<lparr>align := a\<rparr>)" "specs_ok t (sp\<lparr>sign := g\<rparr>)"
    "specs_ok t (sp\<lparr>alt := b\<rparr>)" "specs_ok t (sp\<lparr>localized := b\<rparr>)" "specs_ok t (sp\<lparr>upper := b\<rparr>)"
    "count_ok 0 w \<Longrightarrow> specs_ok t (sp\<lparr>width := w, width_ref := r\<rparr>)"
    "count_ok (- 1) p \<Longrightarrow> specs_ok t (sp\<lparr>precision := p, precision_ref := r\<rparr>)"
  using assms by (simp_all add: specs_ok_def)

lemma spec_default_yields:
  assumes "specs_ok t sp" "run_time ctx" "parse_errors \<subseteq> E"
  shows "yields E (turn_ok t) (spec_default begn cur sp ctx)"
proof -
  have "''invalid format specifier'' \<in> E" "''invalid fill character '' @ [CHR 0x27, CHR ''{'', CHR 0x27] \<in> E"
    using assms(3) by (auto simp: parse_errors_def)
  then show ?thesis
    using assms specs_ok_updates(1,2) [OF assms(1)]
    by (auto simp: spec_default_def Let_def intro!: enter_state_yields)
qed

lemma spec_switch_yields:
  assumes "specs_ok t sp" "run_time ctx" "parse_errors \<subseteq> E" "begn \<noteq> []"
  shows "yields E (turn_ok t) (spec_switch t c begn cur sp ctx)"
proof -
  have E: "''invalid format specifier'' \<in> E" "''format specifier requires numeric argument'' \<in> E"
    using assms(3) by (auto simp: parse_errors_def)
  have width: "yields E (turn_ok t) (bind_sum (parse_dynamic_spec begn (width sp) (width_ref sp) ctx)
      (\<lambda>(b, v, r, ctx'). Inr (Loops, b, cur', sp\<lparr>width := v, width_ref := r\<rparr>, ctx')))" for cur'
    using assms(1) specs_ok_updates(8) [OF assms(1)]
    by (intro yields_bind [OF parse_dynamic_spec_yields [OF assms(4,2) _ assms(3), of 0]])
      (auto simp: specs_ok_def)
  have prec: "yields E (turn_ok t) (bind_sum (parse_precision begn (precision sp) (precision_ref sp) ctx)
      (\<lambda>(b, v, r, ctx'). Inr (Loops, b, cur', sp\<lparr>precision := v, precision_ref := r\<rparr>, ctx')))" for cur'
    using assms(1) specs_ok_updates(9) [OF assms(1)]
    by (intro yields_bind [OF parse_precision_yields [OF assms(2) _ assms(3), of "- 1"]])
      (auto simp: specs_ok_def)
  note upd = specs_ok_updates [OF assms(1)]
  note pres = presentation_yields [OF _ assms(2,3)]
  have ints: "yields E (turn_ok t) (parse_presentation_type t p integral_set begn cur sp' ctx)"
    if "specs_ok t sp'" "p \<in> {pres_dec, pres_hex, pres_oct, pres_bin}" for p sp'
    by (rule pres [OF that(1)]) (rule pres_ok_set(2) [OF _ that(2)])
  have dec: "yields E (turn_ok t) (parse_presentation_type t pres_dec integral_set begn cur sp ctx)"
    "yields E (turn_ok t) (parse_presentation_type t pres_hex integral_set begn cur (sp\<lparr>upper := True\<rparr>) ctx)"
    "yields E (turn_ok t) (parse_presentation_type t pres_hex integral_set begn cur sp ctx)"
    "yields E (turn_ok t) (parse_presentation_type t pres_oct integral_set begn cur sp ctx)"
    "yields E (turn_ok t) (parse_presentation_type t pres_bin integral_set begn cur (sp\<lparr>upper := True\<rparr>) ctx)"
    "yields E (turn_ok t) (parse_presentation_type t pres_bin integral_set begn cur sp ctx)"
    by (rule ints; simp add: assms(1) upd(7))+
  have float: "yields E (turn_ok t) (parse_presentation_type t p float_set begn cur sp ctx)"
    "yields E (turn_ok t) (parse_presentation_type t p float_set begn cur (sp\<lparr>upper := True\<rparr>) ctx)" for p
    by (rule pres, rule assms(1), rule pres_ok_set(3), assumption)
      (rule pres, rule upd(7), rule pres_ok_set(3), assumption)
  have others:
    "yields E (turn_ok t) (parse_presentation_type t pres_string (bool_set OR string_set OR cstring_set) begn cur sp ctx)"
    "yields E (turn_ok t) (parse_presentation_type t pres_pointer (pointer_set OR cstring_set) begn cur sp ctx)"
    "yields E (turn_ok t) (parse_presentation_type t pres_debug (char_set OR string_set OR cstring_set) begn cur sp ctx)"
    by (rule pres [OF assms(1)], erule pres_ok_set)+
  have chr: "yields E (turn_ok t) (parse_presentation_type t pres_chr integral_set begn cur sp ctx)"
    if "t \<noteq> bool_type"
    by (rule pres [OF assms(1)], erule pres_ok_set(1) [OF _ that]) simp
  show ?thesis
    unfolding spec_switch_def Let_def
    by (intro yields_if enter_state_yields [OF assms(3)] width prec
          spec_default_yields [OF assms(1-3)] dec float others; (rule chr)?)
      (use E assms(1,2) upd in simp_all)
qed

lemma specs_loop_yields:
  assumes "parse_errors \<subseteq> E"
  shows "specs_ok t sp \<Longrightarrow> run_time ctx \<Longrightarrow>
    yields E (\<lambda>(b, sp', ctx'). specs_ok t sp' \<and> run_time ctx') (specs_loop t m begn cur sp ctx)"
proof (induction t m begn cur sp ctx rule: specs_loop.induct)
  case (1 t m begn cur sp ctx)
  show ?case
  proof (cases "begn = []")
    case True
    with "1.prems" show ?thesis by (simp add: specs_loop.simps [of t m begn])
  next
    case False
    let ?turn = "spec_switch t (masked_char m begn) begn cur sp ctx"
    show ?thesis
    proof (cases ?turn)
      case (Inl e)
      with spec_switch_yields [OF "1.prems" assms False, of "masked_char m begn" cur] False show ?thesis
        by (simp add: specs_loop.simps [of t m begn])
    next
      case (Inr x)
      obtain tn b cur' sp' ctx' where x: "x = (tn, b, cur', sp', ctx')" by (cases x) auto
      then have "specs_ok t sp'" "run_time ctx'"
        using spec_switch_yields [OF "1.prems" assms False, of "masked_char m begn" cur] Inr by simp_all
      with "1.IH" [OF False Inr, of tn "(b, cur', sp', ctx')" b "(cur', sp', ctx')" cur' "(sp', ctx')" sp' ctx']
        Inr x False show ?thesis
        by (simp add: specs_loop.simps [of t m begn])
    qed
  qed
qed

lemma parse_format_specs_yields:
  assumes "parse_errors \<subseteq> E" "run_time ctx"
  shows "yields E (\<lambda>(b, sp', ctx'). specs_ok t sp' \<and> run_time ctx') (parse_format_specs begn default_specs ctx t)"
proof -
  have "specs_ok t default_specs"
    by (simp add: specs_ok_def default_specs_def count_ok_def pres_ok_def)
  then show ?thesis
    using specs_loop_yields [OF assms(1) _ assms(2)] by (simp add: parse_format_specs_def)
qed



section \<open>No writer fails an assertion\<close>

lemma write_padded_total:
  "valid_width specs \<Longrightarrow> al = align_left \<or> al = align_right \<Longrightarrow> \<exists>t. m = Done t \<Longrightarrow> \<exists>t. write_padded al specs w m = Done t"
  using write_padded_pad [of specs al w] by auto

lemma write_char_total: "valid_width specs \<Longrightarrow> \<exists>t. write_char c specs = Done t"
  unfolding write_char_def using write_escaped_char_total [of c] by (intro write_padded_total) auto

definition int_range :: "arg_type \<Rightarrow> int \<Rightarrow> bool" where
  "int_range t v \<longleftrightarrow>
     (case int_bits t of None \<Rightarrow> False
      | Some n \<Rightarrow> if in_set t sint_set then - (2 ^ (n - 1)) \<le> v \<and> v < 2 ^ (n - 1) else 0 \<le> v \<and> v < 2 ^ n)"

lemma int_range_bits:
  assumes "int_range t v"
  obtains n where "int_bits t = Some n" "n \<in> {32, 64, 128}" "- (2 ^ (n - 1)) \<le> v" "v < 2 ^ n"
  using assms by (cases t) (auto simp: int_range_def)

definition int_pres :: "presentation_type \<Rightarrow> bool" where
  "int_pres p \<longleftrightarrow> p \<in> {pres_none, pres_dec, pres_hex, pres_oct, pres_bin, pres_chr}"

lemma write_int_total:
  assumes "n \<in> {32, 64, 128}" "- (2 ^ (n - 1)) \<le> v" "v < 2 ^ n" "valid_width specs" "- 1 \<le> precision specs"
    "int_pres (pres specs)"
  shows "\<exists>t. write_int n (make_write_int_arg n v (sign specs)) specs = Done t"
proof (cases "pres specs = pres_chr")
  case True
  then show ?thesis using write_char_total [OF assms(4)] by (simp add: write_int_def pres_defs)
next
  case False
  with assms(6) have "pres specs \<in> {pres_none, pres_dec, pres_hex, pres_oct, pres_bin}"
    by (auto simp: int_pres_def)
  from write_int_text [OF assms(1-5) this] show ?thesis by blast
qed

text \<open>Grouping, for a separator of any length.\<close>

definition loc_ok :: "digit_grouping \<Rightarrow> bool" where
  "loc_ok g \<longleftrightarrow> (thousands_sep g \<noteq> [] \<longrightarrow> grouping g \<noteq> [])"

lemma grouping_total:
  assumes "loc_ok g" "int (length digits) \<le> INT_MAX" "length digits < fuel"
  shows "\<exists>n out. count_separators fuel g (length digits) = Done n \<and> apply_grouping fuel g digits = Done out"
proof -
  obtain ps where ps: "count_separators_loop fuel g (length digits) (grouping g, 0) 0 = Done (0 + length ps)"
    "separators_loop fuel g (length digits) (grouping g, 0) [0] = Done ([0] @ ps)"
    "sorted_wrt (<) ps" "\<forall>p \<in> set ps. 0 < p \<and> p < int (length digits)"
  proof (cases "thousands_sep g = []")
    case True
    obtain f where "fuel = Suc f" using assms(3) by (cases fuel) auto
    with True assms(2) that [of "[]"] show ?thesis by (simp add: next_group_def INT_MAX_def)
  next
    case False
    then have "group_state g (grouping g, 0)" using assms(1) by (simp add: group_state_def loc_ok_def)
    from separator_loops [OF False assms(2) this, of fuel 0 "[0]"] assms(3) that show ?thesis by auto
  qed
  have "(0 # ps) ! length ps \<le> int (length digits)"
    using ps(4) by (cases ps rule: rev_cases) (auto simp: nth_append)
  then have "\<exists>out. apply_loop g digits (0 # ps) (int (length ps)) (length digits) = Done out \<and>
      length out = length digits + length ps * length (thousands_sep g) \<and>
      (set (thousands_sep g) \<inter> set digits = {} \<longrightarrow>
        filter (\<lambda>c. c \<notin> set (thousands_sep g)) out = drop (length digits - length digits) digits)"
    using ps(3,4) by (intro apply_loop_output) auto
  then show ?thesis
    using ps(1,2) by (auto simp: count_separators_def apply_grouping_def simp del: bind_outcome_Done)
qed

lemma write_int_grouped_total:
  assumes "n \<in> {32, 64, 128}" "v < 2 ^ n" "valid_width specs" "loc_ok g" "128 < fuel" "int_pres (pres specs)"
  shows "\<exists>t. write_int_grouped fuel n v prefix specs g = Done t"
proof -
  let ?finish = "\<lambda>prefix num_digits buffer.
    bind_outcome buffer (\<lambda>digits.
      bind_outcome (count_separators fuel g num_digits) (\<lambda>seps.
        let sz = (if prefix \<noteq> 0 then prefix_size prefix else 0) + num_digits + seps in
        write_padded align_right specs sz
          (bind_outcome (apply_grouping fuel g digits) (\<lambda>out. Done (prefix_text prefix @ out)))))"
  have finish: "\<exists>t. ?finish p (length d) (Done d) = Done t" if "length d \<le> 128" for p :: "32 word" and d
  proof -
    obtain m o1 where "count_separators fuel g (length d) = Done m" "apply_grouping fuel g d = Done o1"
      using grouping_total [OF assms(4), of d fuel] \<open>length d \<le> 128\<close> assms(5) by (auto simp: INT_MAX_def)
    moreover have "\<exists>t. write_padded align_right specs w (Done (prefix_text p @ o1)) = Done t" for w
      by (rule write_padded_total [OF assms(3)]) auto
    ultimately show ?thesis by (simp add: Let_def)
  qed
  have n: "n \<le> 128" using assms(1) by auto
  have dec: "format_decimal_to n v (count_digits n v) = Done (decimal_digits v)"
    "count_digits n v = length (decimal_digits v)" "length (decimal_digits v) \<le> 128"
    using format_decimal_to_digits [OF assms(1,2)] count_digits_decimal [OF assms(1,2)]
      decimal_digits_length_range [of v] assms(1,2) by auto
  have radix: "format_uint_to b n v (count_digits_base b n v) up = Done (radix_digits b up v)"
    "count_digits_base b n v = length (radix_digits b up v)" "length (radix_digits b up v) \<le> 128"
    if "0 < b" "b \<le> 4" for b up
  proof -
    show "format_uint_to b n v (count_digits_base b n v) up = Done (radix_digits b up v)"
      by (rule format_uint_to_digits [OF that assms(2)])
    show "count_digits_base b n v = length (radix_digits b up v)"
      by (rule count_digits_base_radix [OF that(1)]) (use assms(2) in blast)
    have "(2 :: nat) ^ n \<le> 2 ^ (b * n)" using that(1) by (intro power_increasing) auto
    with assms(2) have "v < 2 ^ (b * n)" by (rule order.strict_trans2)
    then have "length (radix_digits b up v) \<le> n"
      by (rule length_radix_le [OF that(1)]) (use assms(1) in auto)
    then show "length (radix_digits b up v) \<le> 128" using n by simp
  qed
  note f = finish [OF dec(3)] finish [OF radix(3)]
  consider "pres specs \<in> {pres_none, pres_dec}" | "pres specs = pres_hex" | "pres specs = pres_oct"
    | "pres specs = pres_bin" | "pres specs = pres_chr"
    using assms(6) by (auto simp: int_pres_def)
  then show ?thesis
  proof cases
    case 1
    then show ?thesis using finish [OF dec(3), of prefix] dec
      by (auto simp: write_int_grouped_def pres_defs simp del: bind_outcome_Done)
  next
    case 2
    then show ?thesis using finish [OF radix(3) [of 4 "upper specs"]] radix [of 4 "upper specs"]
      by (simp add: write_int_grouped_def pres_defs Let_def del: bind_outcome_Done)
  next
    case 3
    then show ?thesis using finish [OF radix(3) [of 3 False]] radix [of 3 False]
      by (simp add: write_int_grouped_def pres_defs Let_def del: bind_outcome_Done)
  next
    case 4
    then show ?thesis using finish [OF radix(3) [of 1 False]] radix [of 1 False]
      by (simp add: write_int_grouped_def pres_defs Let_def del: bind_outcome_Done)
  next
    case 5
    then show ?thesis using write_char_total [OF assms(3)] by (simp add: write_int_grouped_def pres_defs)
  qed
qed

lemma write_integer_total:
  assumes "n \<in> {32, 64, 128}" "- (2 ^ (n - 1)) \<le> v" "v < 2 ^ n" "valid_width specs" "- 1 \<le> precision specs"
    "int_pres (pres specs)" "loc_ok g" "128 < fuel"
  shows "\<exists>t. write_integer fuel n v specs g = Done t"
proof -
  have "nat \<bar>v\<bar> < 2 ^ n" by (rule make_write_int_arg_eq(2) [OF assms(1-3)])
  moreover have "(2 :: nat) ^ n \<le> 2 ^ max n 64" by (intro power_increasing) auto
  ultimately have "nat \<bar>v\<bar> < 2 ^ max n 64" by linarith
  then have "\<exists>t. write_int_grouped fuel (max n 64) (nat \<bar>v\<bar>) prefix specs g = Done t" for prefix
    using assms(1) by (intro write_int_grouped_total) (use assms in auto)
  then show ?thesis
    using write_int_total [OF assms(1-6)] make_write_int_arg_eq(1) [OF assms(1-3)]
    by (auto simp: write_integer_def loc_writer_def)
qed

lemma write_bool_total:
  assumes "valid_width specs" "- 1 \<le> precision specs" "pres_ok bool_type (pres specs)" "loc_ok g" "128 < fuel"
  shows "\<exists>t. write_bool fuel v specs g = Done t"
proof (cases "pres specs = pres_none \<or> pres specs = pres_string")
  case True
  then show ?thesis using write_padded_total [OF assms(1)]
    by (auto simp: write_bool_def write_bytes_def)
next
  case False
  then have "int_pres (pres specs)" using assms(3) by (auto simp: pres_ok_def int_pres_def)
  then have "\<exists>t. write_integer fuel 32 (if v then 1 else 0) specs g = Done t"
    by (intro write_integer_total) (use assms in auto)
  then show ?thesis using False by (simp add: write_bool_def)
qed

lemma write_ptr_total:
  assumes "a < 2 ^ 64" "valid_width specs"
  shows "\<exists>t. write_ptr a (Some specs) = Done t"
  using format_uint_to_digits [of 4 a 64 False] assms(1) write_padded_total [OF assms(2)]
  by (simp add: write_ptr_def Let_def del: bind_outcome_Done)

lemma escape_pieces_total: "\<forall>(cp, t) \<in> set ps. t \<noteq> [] \<Longrightarrow> \<exists>out. escape_pieces ps = Done out"
proof (induction ps)
  case (Cons p ps)
  obtain cp t where p: "p = (cp, t)" by (cases p) auto
  with Cons write_escaped_cp_total [of t cp] show ?case by (auto simp: escape_piece_def)
qed simp

lemma write_escaped_string_total: "\<exists>out. write_escaped_string s = Done out"
  using escape_pieces_total [of "pieces s"] pieces_not_Nil [of _ _ s]
  by (auto simp: write_escaped_string_def escaped_loop_pieces)

lemma write_string_total:
  assumes "valid_width specs"
  shows "\<exists>t. write_string s specs = Done t"
proof -
  obtain e where e: "write_escaped_string s = Done e" using write_escaped_string_total by blast
  obtain sz where sz: "(if precision specs \<ge> 0 \<and> nat (precision specs) < length s
        then code_point_index s (nat (precision specs)) else Done (length s)) = Done sz"
    using code_point_index_eq [of s] by (cases "precision specs \<ge> 0 \<and> nat (precision specs) < length s") auto
  obtain w where w: "(if width specs \<noteq> 0
        then if pres specs = pres_debug then Done (length e) else compute_width (take sz s)
        else Done 0) = Done w"
    using compute_width_eq [of "take sz s"] by (cases "width specs = 0"; cases "pres specs = pres_debug") auto
  show ?thesis
    using sz w e write_padded_total [OF assms]
    by (cases "pres specs = pres_debug") (auto simp: write_string_def simp del: bind_outcome_Done)
qed

lemma write_int_default_text:
  assumes "n \<in> {32, 64, 128}" "- (2 ^ (n - 1)) \<le> v" "v < 2 ^ n"
  shows "write_int_default n v = Done ((if v < 0 then ''-'' else []) @ decimal_digits (nat \<bar>v\<bar>))"
proof -
  have less: "nat \<bar>v\<bar> < 2 ^ n" by (rule make_write_int_arg_eq(2) [OF assms])
  have pow: "(2 :: int) ^ (n - 1) < 2 ^ n" using assms(1) by auto
  have a: "(if v < 0 then (2 ^ n - 1 - nat (v mod 2 ^ n) + 1) mod 2 ^ n else nat (v mod 2 ^ n)) = nat \<bar>v\<bar>"
  proof (cases "v < 0")
    case True
    have "v mod 2 ^ n = v + 2 ^ n"
    proof -
      have "(v + 2 ^ n) mod 2 ^ n = v + 2 ^ n" using True assms(2) pow by (intro mod_pos_pos_trivial) linarith+
      then show ?thesis by simp
    qed
    moreover have "nat (v + 2 ^ n) = 2 ^ n - nat (- v)" using True assms(2) pow
      by (simp add: nat_diff_distrib' nat_power_eq flip: diff_minus_eq_add [of "2 ^ n" "- v"])
        (metis add.commute diff_minus_eq_add nat_diff_distrib' nat_numeral nat_power_eq neg_0_le_iff_le
          less_imp_le minus_minus zero_le_numeral zero_le_power)
    ultimately have "nat (v mod 2 ^ n) = 2 ^ n - nat (- v)" by simp
    then have "2 ^ n - 1 - nat (v mod 2 ^ n) + 1 = nat (- v)" using True less by simp
    then show ?thesis using True less by simp
  next
    case False
    then show ?thesis using assms(3) by simp
  qed
  show ?thesis
    using format_decimal_to_digits [OF assms(1) less] a
    by (simp add: write_int_default_def Let_def del: bind_outcome_Done)
qed

section \<open>No field fails an assertion\<close>

text \<open>The errors that depend on the arguments, and all the errors.\<close>

definition value_errors :: "string set" where
  "value_errors =
     {''argument not found'', ''string pointer is null'', ''number is too big'', ''negative width'',
      ''width is not integer'', ''negative precision'', ''precision is not integer''}"

definition fmt_errors :: "string set" where
  "fmt_errors = parse_errors \<union> value_errors \<union> {''invalid format specifier for char''}"

definition arg_ok :: "('f, 'c) format_arg \<Rightarrow> bool" where
  "arg_ok a \<longleftrightarrow>
     (case arg_val a of
        V_none \<Rightarrow> False
      | V_int v \<Rightarrow> int_range (arg_ty a) v
      | V_bool v \<Rightarrow> arg_ty a = bool_type
      | V_char v \<Rightarrow> arg_ty a = char_type
      | V_float v \<Rightarrow> arg_ty a \<in> {float_type, double_type, long_double_type}
      | V_cstring p v \<Rightarrow> arg_ty a = cstring_type \<and> p < 2 ^ 64
      | V_string v \<Rightarrow> arg_ty a = string_type
      | V_pointer p \<Rightarrow> arg_ty a = pointer_type \<and> p < 2 ^ 64
      | V_custom c \<Rightarrow> arg_ty a = custom_type)"

definition env_ok :: "('f, 'c) format_env \<Rightarrow> (string option \<times> ('f, 'c) format_arg) list \<Rightarrow> bool" where
  "env_ok env vals \<longleftrightarrow>
     env_args env = make_format_args vals \<and> length vals < 2 ^ 31 \<and> (\<forall>(n, a) \<in> set vals. arg_ok a) \<and>
     loc_ok (env_loc env) \<and> loc_ok (env_global_loc env) \<and> 128 < env_fuel env \<and>
     (\<forall>v sp. \<exists>t. env_float env v sp = Done t)"

lemma arg_ok_type: "arg_ok a \<Longrightarrow> arg_ty a \<noteq> none_type"
  by (auto simp: arg_ok_def int_range_def split: arg_value.splits)

definition custom_errors :: "('f, 'c) format_env \<Rightarrow> string set" where
  "custom_errors env = {e. \<exists>c ctx. env_custom env c ctx = Inl e}"

definition extends :: "string \<Rightarrow> fmt_state \<Rightarrow> bool" where
  "extends buf s \<longleftrightarrow> run_time (pctx s) \<and> (\<exists>t. out s = buf @ t)"

lemma extends_append: "extends buf s \<Longrightarrow> extends buf (s\<lparr>out := out s @ t\<rparr>)"
  by (auto simp: extends_def)

lemma emit_yields: "\<exists>t. m = Done t \<Longrightarrow> extends buf s \<Longrightarrow> yields E (extends buf) (emit m s)"
  by (auto simp: extends_def)

lemma specs_ok_default: "specs_ok t default_specs"
  by (simp add: specs_ok_def default_specs_def count_ok_def pres_ok_def)

lemma specs_ok_valid: "specs_ok t sp \<Longrightarrow> valid_width sp \<and> - 1 \<le> precision sp \<and> pres_ok t (pres sp)"
  by (auto simp: specs_ok_def count_ok_def valid_width_def INT_MAX_def)

lemma default_write_yields:
  assumes "env_ok env vals" "arg_ok arg" "extends buf s" "value_errors \<subseteq> E"
    "arg_ty arg = custom_type \<Longrightarrow> custom_errors env \<subseteq> E"
  shows "yields E (extends buf) (default_write env arg s)"
proof -
  have E: "''string pointer is null'' \<in> E" using assms(4) by (auto simp: value_errors_def)
  have env: "loc_ok (env_loc env)" "loc_ok (env_global_loc env)" "128 < env_fuel env"
    "\<forall>v sp. \<exists>t. env_float env v sp = Done t"
    using assms(1) by (auto simp: env_ok_def)
  note sp = specs_ok_valid [OF specs_ok_default]
  show ?thesis
  proof (cases "arg_val arg")
    case (V_int v)
    then obtain n where n: "int_bits (arg_ty arg) = Some n" "n \<in> {32, 64, 128}"
      "- (2 ^ (n - 1)) \<le> v" "v < 2 ^ n"
      using assms(2) int_range_bits by (auto simp: arg_ok_def)
    show ?thesis
      using V_int n(1) write_int_default_text [OF n(2-4)] extends_append [OF assms(3)]
      by (simp add: default_write_def)
  next
    case (V_custom c)
    then have "custom_errors env \<subseteq> E" using assms(2,5) by (simp add: arg_ok_def)
    then show ?thesis
      using V_custom assms(3)
      by (cases "env_custom env c \<lparr>format_str = [], ctx_next_id = 0, ctx_types = None\<rparr>")
        (auto simp: default_write_def custom_errors_def extends_def)
  next
    case V_none
    then show ?thesis using assms(2) by (simp add: arg_ok_def)
  next
    case (V_bool v)
    then show ?thesis
      using emit_yields [OF _ assms(3)] write_bool_total [of default_specs] sp env(2,3)
      by (simp add: default_write_def)
  next
    case (V_char c)
    then show ?thesis using extends_append [OF assms(3)] by (simp add: default_write_def)
  next
    case (V_float v)
    then show ?thesis using emit_yields [OF _ assms(3)] env(4) by (simp add: default_write_def)
  next
    case (V_cstring p v)
    then show ?thesis using extends_append [OF assms(3)] E by (simp add: default_write_def split: option.split)
  next
    case (V_string t)
    then show ?thesis using extends_append [OF assms(3)] by (simp add: default_write_def)
  next
    case (V_pointer p)
    then show ?thesis
      using emit_yields [OF _ assms(3)] write_ptr_total [of p default_specs] sp assms(2)
      by (simp add: default_write_def arg_ok_def)
  qed
qed

lemma arg_write_yields:
  assumes "env_ok env vals" "arg_ok arg" "extends buf s" "value_errors \<subseteq> E"
    "specs_ok (arg_ty arg) specs"
    "arg_ty arg = char_type \<Longrightarrow> ''invalid format specifier for char'' \<in> E \<or> (\<exists>b. check_char_specs specs = Inr b)"
  shows "yields E (extends buf) (arg_write env specs arg s)"
proof -
  have E: "''string pointer is null'' \<in> E" using assms(4) by (auto simp: value_errors_def)
  have env: "loc_ok (env_loc env)" "loc_ok (env_global_loc env)" "128 < env_fuel env"
    "\<forall>v sp. \<exists>t. env_float env v sp = Done t"
    using assms(1) by (auto simp: env_ok_def)
  note sp = specs_ok_valid [OF assms(5)]
  note emit = emit_yields [OF _ assms(3)]
  have str: "yields E (extends buf) (emit (write_string t specs) s)" for t
    by (rule emit) (use write_string_total sp in blast)
  show ?thesis
  proof (cases "arg_val arg")
    case (V_int v)
    then obtain n where n: "int_bits (arg_ty arg) = Some n" "n \<in> {32, 64, 128}"
      "- (2 ^ (n - 1)) \<le> v" "v < 2 ^ n"
      using assms(2) int_range_bits by (auto simp: arg_ok_def)
    have "int_pres (pres specs)" using sp n(1) by (simp add: pres_ok_def int_pres_def)
    then have "\<exists>t. write_integer (env_fuel env) n v specs (env_loc env) = Done t"
      by (intro write_integer_total) (use n sp env in auto)
    then show ?thesis using emit V_int n(1) by (simp add: arg_write_def)
  next
    case (V_bool v)
    then have "pres_ok bool_type (pres specs)" using sp assms(2) by (simp add: arg_ok_def)
    then show ?thesis
      using emit V_bool write_bool_total [of specs] sp env(2,3) by (simp add: arg_write_def)
  next
    case (V_char c)
    then have p: "pres_ok char_type (pres specs)" using sp assms(2) by (simp add: arg_ok_def)
    have "\<exists>t. write_char c specs = Done t" using write_char_total sp by blast
    moreover have "\<exists>t. write_integer (env_fuel env) 32 (int (code c)) specs (env_loc env) = Done t"
      if "int_pres (pres specs)"
    proof -
      have "int (code c) < 256" using code_less [of c] by linarith
      then have "int (code c) < 2 ^ 32" by (rule order.strict_trans) simp
      then show ?thesis by (intro write_integer_total that) (use sp env in simp_all)
    qed
    moreover have "int_pres (pres specs) \<or> check_char_specs specs \<noteq> Inr False"
      using p by (auto simp: pres_ok_def int_pres_def check_char_specs_def)
    moreover have "arg_ty arg = char_type" using V_char assms(2) by (simp add: arg_ok_def)
    ultimately show ?thesis
      using V_char assms(6) emit
      by (auto simp: arg_write_def write_char_value_def check_char_specs_def split: if_splits)
  next
    case (V_cstring p v)
    then show ?thesis
      using E emit write_ptr_total [of p specs] str sp assms(2)
      by (simp add: arg_write_def arg_ok_def write_cstring_def split: option.split)
  next
    case (V_pointer p)
    then show ?thesis
      using emit write_ptr_total [of p specs] sp assms(2) by (simp add: arg_write_def arg_ok_def)
  qed (use assms(2,3) env(4) emit str in \<open>simp_all add: arg_write_def arg_ok_def\<close>)
qed

section \<open>The walk\<close>

text \<open>
  The contract of handlers that keep an invariant of their state and fail with known errors
  only; then the walk does so too.
\<close>

locale safe_handler = format_handler h for h :: "'s handler" +
  fixes I :: "'s \<Rightarrow> bool" and E :: "string set"
  assumes errors: "parse_errors \<subseteq> E"
    and text_safe: "I s \<Longrightarrow> yields E I (on_text h t s)"
    and auto_safe: "I s \<Longrightarrow> yields E (\<lambda>(i, s'). I s') (on_arg_auto h s)"
    and index_safe: "I s \<Longrightarrow> yields E (\<lambda>(i, s'). I s') (on_arg_index h i s)"
    and name_safe: "I s \<Longrightarrow> yields E (\<lambda>(i, s'). I s') (on_arg_name h n s)"
    and field_safe: "I s \<Longrightarrow> yields E I (on_replacement_field h i b s)"
    and specs_safe: "I s \<Longrightarrow> yields E (\<lambda>(b', s'). I s') (on_format_specs h i b s)"
begin

lemma replacement_field_safe:
  assumes "I s"
  shows "yields E (\<lambda>(q, s'). I s') (parse_replacement_field p h s)"
proof -
  have E: "''invalid format string'' \<in> E" "''unknown format specifier'' \<in> E"
    "''missing '' @ [CHR 0x27, CHR ''}'', CHR 0x27] @ '' in format string'' \<in> E"
    using errors by (auto simp: parse_errors_def)
  have id: "yields E (\<lambda>(p', i, s'). I s') (parse_arg_id b (id_adapter h) (0, s))" for b
  proof -
    have "yields E (\<lambda>(p', s'). I (snd s')) (parse_arg_id b (id_adapter h) (0, s))"
      by (rule parse_arg_id_yields [OF errors])
        (use assms auto_safe index_safe name_safe in \<open>auto simp: id_adapter_def split_def\<close>)
    then show ?thesis by (rule yields_mono) auto
  qed
  have plain: "yields E (\<lambda>(q, s'). I s') (bind_sum (on_replacement_field h i b s1) (\<lambda>s2. Inr (q, s2)))"
    if "I s1" for i b s1 q
    by (rule yields_bind [OF field_safe [OF that]]) simp
  have specs: "yields E (\<lambda>(q, s'). I s') (bind_sum (on_format_specs h i b s1) (\<lambda>(b2, s2).
      if b2 = [] \<or> hd b2 \<noteq> CHR ''}'' then Inl ''unknown format specifier'' else Inr (tl b2, s2)))"
    if "I s1" for i b s1
    by (rule yields_bind [OF specs_safe [OF that]]) (use E(2) in auto)
  have braces: "yields E (\<lambda>(q, s'). I s') (bind_sum (on_arg_auto h s) (\<lambda>(i, s1).
      bind_sum (on_replacement_field h i b s1) (\<lambda>s2. Inr (q, s2))))" for b q
    by (rule yields_bind [OF auto_safe [OF assms]]) (auto intro: plain)
  have open_brace: "yields E (\<lambda>(q, s'). I s') (bind_sum (on_text h t s) (\<lambda>s1. Inr (q, s1)))" for t q
    by (rule yields_bind [OF text_safe [OF assms]]) simp
  have rest: "yields E (\<lambda>(q, s'). I s') (bind_sum (parse_arg_id b (id_adapter h) (0, s)) (\<lambda>(b1, (i, s1)).
          if b1 \<noteq> [] \<and> hd b1 = CHR ''}'' then
            bind_sum (on_replacement_field h i b1 s1) (\<lambda>s2. Inr (tl b1, s2))
          else if b1 \<noteq> [] \<and> hd b1 = CHR '':'' then
            bind_sum (on_format_specs h i (tl b1) s1) (\<lambda>(b2, s2).
              if b2 = [] \<or> hd b2 \<noteq> CHR ''}'' then Inl ''unknown format specifier''
              else Inr (tl b2, s2))
          else Inl (''missing '' @ [CHR 0x27, CHR ''}'', CHR 0x27] @ '' in format string'')))" for b
    by (rule yields_bind [OF id]) (use plain specs E(3) in auto)
  show ?thesis
    unfolding parse_replacement_field_def Let_def
    by (intro yields_if braces open_brace rest) (use E(1) in simp)
qed

lemma small_loop_safe:
  "I s \<Longrightarrow> small_loop h seg p s = Some r \<Longrightarrow> yields E I r"
proof (induction "length p" arbitrary: p seg s r rule: less_induct)
  case less
  have E: "unmatched \<in> E" using errors by (auto simp: parse_errors_def)
  show ?case
  proof (cases p)
    case Nil
    then show ?thesis using less.prems text_safe by (auto simp: small_loop.simps [of h seg "[]"])
  next
    case (Cons c q)
    consider "c = CHR ''{''" | "c = CHR ''}''" | "c \<noteq> CHR ''{''" "c \<noteq> CHR ''}''" by blast
    then show ?thesis
    proof cases
      case 1
      let ?m = "bind_sum (on_text h seg s) (parse_replacement_field p h)"
      have m: "yields E (\<lambda>(q, s'). I s') ?m"
        by (rule yields_bind [OF text_safe [OF less.prems(1)]]) (rule replacement_field_safe)
      have step: "small_loop h seg p s =
          (case ?m of Inl e \<Rightarrow> Some (Inl e) | Inr r \<Rightarrow> small_loop h [] (fst r) (snd r))"
        using 1 Cons by (subst small_loop.simps) simp
      show ?thesis
      proof (cases ?m)
        case (Inl e)
        then show ?thesis using less.prems(2) m step by auto
      next
        case (Inr x)
        then obtain s1 where "parse_replacement_field p h s1 = Inr (fst x, snd x)" by auto
        with field_shorter Cons have "length (fst x) < length p" by blast
        moreover have "I (snd x)" using m Inr by (auto simp: split_def)
        ultimately show ?thesis using less.hyps less.prems(2) step Inr by auto
      qed
    next
      case 2
      show ?thesis
      proof (cases "q = [] \<or> hd q \<noteq> CHR ''}''")
        case True
        then have "r = Inl unmatched" using 2 Cons less.prems(2) by (subst (asm) small_loop.simps) auto
        then show ?thesis using E by simp
      next
        case False
        have "length (tl q) < length p" using Cons by simp
        note IH = less.hyps [OF this]
        have step: "small_loop h seg p s = (case on_text h (seg @ [c]) s of
            Inl e \<Rightarrow> Some (Inl e) | Inr s1 \<Rightarrow> small_loop h [] (tl q) s1)"
          using 2 Cons False by (subst small_loop.simps) (simp split: sum.split)
        show ?thesis
          using less.prems step text_safe [OF less.prems(1), of "seg @ [c]"] IH
          by (cases "on_text h (seg @ [c]) s") auto
      qed
    next
      case 3
      then have "small_loop h seg p s = small_loop h (seg @ [c]) q s"
        using Cons by (subst small_loop.simps) simp
      with less.hyps [of q "s" "seg @ [c]" r] less.prems Cons show ?thesis by simp
    qed
  qed
qed

lemma parse_format_string_safe:
  assumes "I s"
  shows "\<exists>r. parse_format_string fmt h s = Some r \<and> yields E I r"
  using parse_format_string_ends [of fmt s] small_loop_safe [OF assms]
  by (auto simp: parse_format_string_eq)

end

section \<open>The handler of \<open>vformat_to\<close> is safe\<close>

lemma get_arg_at_negative:
  assumes "length vals < 2 ^ 31" "i < 0"
  shows "get_arg_at (make_format_args vals) i = get_arg_at (make_format_args vals) 0"
proof (cases "length vals \<le> 15")
  case True
  then show ?thesis
    using assms(2) packed_descriptor(1) [OF True]
    by (simp add: get_arg_at_def type_at_def max_packed_args_def packed_arg_bits_def Let_def)
next
  case False
  then have "0 < length vals" by linarith
  then show ?thesis
    using False assms unpacked_descriptor [of vals] by (simp add: get_arg_at_def)
qed

lemma get_arg_yields:
  assumes "env_ok env vals" "value_errors \<subseteq> E"
  shows "yields E arg_ok (get_arg (get_arg_at (env_args env) i))"
    and "yields E arg_ok (get_arg (get_arg_named (env_args env) n))"
proof -
  have args: "env_args env = make_format_args vals" "length vals < 2 ^ 31"
    "\<forall>(n, a) \<in> set vals. arg_ty a \<noteq> none_type" and ok: "\<forall>(n, a) \<in> set vals. arg_ok a"
    using assms(1) arg_ok_type by (auto simp: env_ok_def)
  have E: "''argument not found'' \<in> E" using assms(2) by (auto simp: value_errors_def)
  have nth: "arg_ok (snd (vals ! k))" if "k < length vals" for k
    using ok nth_mem [OF that] by (auto simp: split_def)
  have pos: "yields E arg_ok (get_arg (get_arg_at (env_args env) (int k)))" for k
    using get_arg_list [OF args(2,3), of k] nth [of k] E by (simp add: args(1))
  have "get_arg_at (env_args env) i = get_arg_at (env_args env) (int (nat i))"
    using get_arg_at_negative [OF args(2), of i] by (cases "i < 0") (simp_all add: args(1))
  then show "yields E arg_ok (get_arg (get_arg_at (env_args env) i))" using pos [of "nat i"] by simp
  show "yields E arg_ok (get_arg (get_arg_named (env_args env) n))"
    using get_named_list [OF args(2,3), of n] find_named_less [of vals n] nth E
    by (simp add: args(1) split: option.split)
qed

lemma checkers_yield:
  assumes "value_errors \<subseteq> E"
  shows "yields E (count_ok d) (get_dynamic_spec width_checker arg)"
    "yields E (count_ok d) (get_dynamic_spec precision_checker arg)"
proof -
  have E: "''width is not integer'' \<in> E" "''negative width'' \<in> E" "''number is too big'' \<in> E"
    "''precision is not integer'' \<in> E" "''negative precision'' \<in> E"
    using assms by (auto simp: value_errors_def)
  show "yields E (count_ok d) (get_dynamic_spec width_checker arg)"
    using E by (auto simp: get_dynamic_spec_def width_checker_def yields_bind_iff count_ok_def
        split: option.split arg_value.split)
  show "yields E (count_ok d) (get_dynamic_spec precision_checker arg)"
    using E by (auto simp: get_dynamic_spec_def precision_checker_def yields_bind_iff count_ok_def
        split: option.split arg_value.split)
qed

lemma handle_dynamic_yields:
  assumes "env_ok env vals" "value_errors \<subseteq> E" "count_ok d v" "\<And>arg. yields E (count_ok d) (get_dynamic_spec h arg)"
  shows "yields E (count_ok d) (handle_dynamic_spec h v r (env_args env))"
  using assms(3,4) get_arg_yields [OF assms(1,2)]
  by (cases r) (auto intro: yields_bind)

lemma vformat_specs_yields:
  assumes "env_ok env vals" "extends buf s" "fmt_errors \<union> custom_errors env \<subseteq> E"
  shows "yields E (\<lambda>(b', s'). extends buf s') (vformat_specs env i b s)"
proof -
  have sub: "value_errors \<subseteq> E" "parse_errors \<subseteq> E" "''invalid format specifier for char'' \<in> E"
    "custom_errors env \<subseteq> E" using assms(3) by (auto simp: fmt_errors_def)
  have E: "''missing '' @ [CHR 0x27, CHR ''}'', CHR 0x27] @ '' in format string'' \<in> E"
    using sub(2) by (auto simp: parse_errors_def)
  have rt: "run_time (pctx s)" using assms(2) by (simp add: extends_def)
  show ?thesis
    unfolding vformat_specs_def
  proof (rule yields_bind [OF get_arg_yields(1) [OF assms(1) sub(1)]])
    fix arg :: "('a, 'b) format_arg"
    assume arg: "arg_ok arg"
    show "yields E (\<lambda>(b', s'). extends buf s')
      (case custom_object arg of
       Some c \<Rightarrow>
         bind_sum (env_custom env c (advance_to b (pctx s))) (\<lambda>(n, next_id, t).
           let s1 = s\<lparr>pctx := (pctx s)\<lparr>format_str := drop n b, ctx_next_id := next_id\<rparr>\<rparr>
           in bind_sum (emit (Done t) s1) (\<lambda>s2. Inr (format_str (pctx s2), s2)))
     | None \<Rightarrow>
         bind_sum (parse_format_specs b default_specs (pctx s) (arg_ty arg)) (\<lambda>(b, specs, ctx).
         bind_sum (handle_dynamic_spec width_checker (width specs) (width_ref specs) (env_args env)) (\<lambda>w.
         bind_sum (handle_dynamic_spec precision_checker (precision specs) (precision_ref specs)
                     (env_args env)) (\<lambda>p.
         if b = [] \<or> hd b \<noteq> CHR ''}''
         then Inl (''missing '' @ [CHR 0x27, CHR ''}'', CHR 0x27] @ '' in format string'')
         else bind_sum (arg_write env (specs\<lparr>width := w, precision := p\<rparr>) arg (s\<lparr>pctx := ctx\<rparr>))
                (\<lambda>s1. Inr (b, s1))))))"
    proof (cases "custom_object arg")
      case (Some c)
      then show ?thesis
        using assms(2,3) by (cases "env_custom env c (advance_to b (pctx s))")
          (auto simp: custom_errors_def extends_def run_time_def Let_def)
    next
      case None
      show ?thesis
        unfolding None option.case
      proof (rule yields_bind [OF parse_format_specs_yields [OF sub(2) rt, where t = "arg_ty arg"]], goal_cases)
        case (1 x)
        then obtain b2 sp ctx where x: "x = (b2, sp, ctx)" "specs_ok (arg_ty arg) sp" "run_time ctx" by (cases x) auto
        have ext: "extends buf (s\<lparr>pctx := ctx\<rparr>)" using assms(2) x(3) by (simp add: extends_def)
        show ?case
          unfolding x(1) prod.case
        proof (rule yields_bind, rule handle_dynamic_yields [OF assms(1) sub(1)])
          show "count_ok 0 (width sp)" using x(2) by (simp add: specs_ok_def)
          show "yields E (count_ok 0) (get_dynamic_spec width_checker arg)" for arg :: "('a, 'b) format_arg"
            by (rule checkers_yield [OF sub(1)])
          fix w assume w: "count_ok 0 w"
          show "yields E (\<lambda>(b', s'). extends buf s')
              (bind_sum (handle_dynamic_spec precision_checker (precision sp) (precision_ref sp) (env_args env)) (\<lambda>p.
                if b2 = [] \<or> hd b2 \<noteq> CHR ''}''
                then Inl (''missing '' @ [CHR 0x27, CHR ''}'', CHR 0x27] @ '' in format string'')
                else bind_sum (arg_write env (sp\<lparr>width := w, precision := p\<rparr>) arg (s\<lparr>pctx := ctx\<rparr>))
                       (\<lambda>s1. Inr (b2, s1))))"
          proof (rule yields_bind, rule handle_dynamic_yields [OF assms(1) sub(1)])
            show "count_ok (- 1) (precision sp)" using x(2) by (simp add: specs_ok_def)
            show "yields E (count_ok (- 1)) (get_dynamic_spec precision_checker arg)" for arg :: "('a, 'b) format_arg"
              by (rule checkers_yield [OF sub(1)])
            fix p assume p: "count_ok (- 1) p"
            have "specs_ok (arg_ty arg) (sp\<lparr>width := w, precision := p\<rparr>)"
              using x(2) w p by (simp add: specs_ok_def)
            from arg_write_yields [OF assms(1) arg ext sub(1) this] sub(3)
            have "yields E (extends buf) (arg_write env (sp\<lparr>width := w, precision := p\<rparr>) arg (s\<lparr>pctx := ctx\<rparr>))"
              by blast
            then have "yields E (\<lambda>(b', s'). extends buf s')
                (bind_sum (arg_write env (sp\<lparr>width := w, precision := p\<rparr>) arg (s\<lparr>pctx := ctx\<rparr>)) (\<lambda>s1. Inr (b2, s1)))"
              by (rule yields_bind) simp
            then show "yields E (\<lambda>(b', s'). extends buf s')
               (if b2 = [] \<or> hd b2 \<noteq> CHR ''}''
                then Inl (''missing '' @ [CHR 0x27, CHR ''}'', CHR 0x27] @ '' in format string'')
                else bind_sum (arg_write env (sp\<lparr>width := w, precision := p\<rparr>) arg (s\<lparr>pctx := ctx\<rparr>))
                       (\<lambda>s1. Inr (b2, s1)))"
              using E by simp
          qed
        qed
      qed
    qed
  qed
qed

interpretation safe: safe_handler "vformat_handler env" "\<lambda>s. env_ok env vals \<and> extends buf s"
  "fmt_errors \<union> custom_errors env" for env :: "('f, 'c) format_env" and vals buf
proof unfold_locales
  let ?E = "fmt_errors \<union> custom_errors env" and ?I = "\<lambda>s. env_ok env vals \<and> extends buf s"
  show errs: "parse_errors \<subseteq> ?E" by (auto simp: fmt_errors_def)
  have I: "yields ?E P m \<Longrightarrow> env_ok env vals \<Longrightarrow> yields ?E (\<lambda>x. env_ok env vals \<and> P x) m" for P :: "'z \<Rightarrow> bool" and m
    by (rule yields_mono) auto
  have missing: "''argument not found'' \<in> ?E" using errs by (auto simp: parse_errors_def)
  have vals: "value_errors \<subseteq> ?E" by (auto simp: fmt_errors_def)
  have set_ctx: "extends buf (s\<lparr>pctx := ctx\<rparr>)" if "extends buf s" "run_time ctx" for s ctx
    using that by (simp add: extends_def)
  fix s t i n b
  assume "?I s"
  then have env: "env_ok env vals" and s: "extends buf s" and rt: "run_time (pctx s)"
    by (auto simp: extends_def)
  note steps = run_time_steps [OF rt errs]
  show "yields ?E ?I (on_text (vformat_handler env) t s)"
    using env extends_append [OF s] by (simp add: vformat_handler_def)
  show "yields ?E (\<lambda>(i, s'). ?I s') (on_arg_auto (vformat_handler env) s)"
    using env set_ctx [OF s] by (auto simp: vformat_handler_def intro!: yields_bind [OF steps(1)])
  show "yields ?E (\<lambda>(i, s'). ?I s') (on_arg_index (vformat_handler env) i s)"
    using env set_ctx [OF s] by (auto simp: vformat_handler_def intro!: yields_bind [OF steps(2)])
  show "yields ?E (\<lambda>(i, s'). ?I s') (on_arg_name (vformat_handler env) n s)"
    using env set_ctx [OF s] missing
    by (auto simp: vformat_handler_def Let_def intro!: yields_bind [OF steps(3)])
  show "yields ?E ?I (on_replacement_field (vformat_handler env) i b s)"
  proof -
    have "yields ?E (extends buf) (bind_sum (get_arg (get_arg_at (env_args env) i)) (\<lambda>arg. default_write env arg s))"
      by (rule yields_bind [OF get_arg_yields(1) [OF env vals]], rule default_write_yields [OF env _ s vals]) simp_all
    then show ?thesis using I [of "extends buf"] env by (simp add: vformat_handler_def)
  qed
  show "yields ?E (\<lambda>(b', s'). ?I s') (on_format_specs (vformat_handler env) i b s)"
    using vformat_specs_yields [OF env s, of ?E i b] env
    by (auto simp: vformat_handler_def elim!: yields_mono)
qed


lemma assertion_not_error: "assertion_failed \<notin> fmt_errors"
  by (simp add: assertion_failed_def fmt_errors_def parse_errors_def value_errors_def unmatched_def)


end
