(* ===== verification/Fmt_Check.thy ===== *)
theory Fmt_Check
  imports Fmt_Safety
begin

text \<open>
  The compile-time check of a format string in fmt/include/fmt/base.h:
  \<open>compile_parse_context\<close>, the \<open>parse\<close> of the standard formatters, and
  \<open>format_string_checker\<close>, which is a handler of the same walk as \<open>vformat_to\<close>. The last
  section compares the two runs. The arguments are of the types {fmt} knows; a formatter of a
  user-defined type may do anything in either run.
\<close>

section \<open>The checker\<close>

text \<open>
  The members that shadow the ones of \<open>basic_format_parse_context\<close>: the number of arguments
  is tested a second time.
\<close>

definition num_args :: "parse_context \<Rightarrow> int" where
  "num_args ctx = (case ctx_types ctx of None \<Rightarrow> 0 | Some ts \<Rightarrow> int (length ts))"

definition compile_next_arg_id :: "parse_context \<Rightarrow> string + (int \<times> parse_context)" where
  "compile_next_arg_id ctx =
     bind_sum (next_arg_id ctx) (\<lambda>(i, ctx1).
       if i \<ge> num_args ctx1 then Inl ''argument not found'' else Inr (i, ctx1))"

definition compile_check_arg_id :: "int \<Rightarrow> parse_context \<Rightarrow> string + parse_context" where
  "compile_check_arg_id i ctx =
     bind_sum (check_arg_id i ctx) (\<lambda>ctx1.
       if i \<ge> num_args ctx1 then Inl ''argument not found'' else Inr ctx1)"

text \<open>\<open>formatter::parse\<close> of a type {fmt} knows; the specifiers it stores are dropped by the check.\<close>

definition formatter_parse :: "arg_type \<Rightarrow> parse_context \<Rightarrow> string + (string \<times> parse_context)" where
  "formatter_parse t ctx =
     (if format_str ctx = [] \<or> hd (format_str ctx) = CHR ''}'' then Inr (format_str ctx, ctx)
      else
        bind_sum (parse_format_specs (format_str ctx) default_specs ctx t) (\<lambda>(b, specs, ctx1).
          if t = char_type then bind_sum (check_char_specs specs) (\<lambda>_. Inr (b, ctx1)) else Inr (b, ctx1)))"

text \<open>The names are the ones that are known at compile time; \<open>get_arg_index_by_name\<close> takes the first.\<close>

fun get_arg_index_by_name :: "int \<Rightarrow> string option list \<Rightarrow> string \<Rightarrow> int" where
  "get_arg_index_by_name n [] name = -1"
| "get_arg_index_by_name n (t # ts) name = (if t = Some name then n else get_arg_index_by_name (n + 1) ts name)"

definition checker_specs :: "arg_type list \<Rightarrow> int \<Rightarrow> string \<Rightarrow> parse_context \<Rightarrow> string + (string \<times> parse_context)" where
  "checker_specs types i begn ctx =
     (let ctx1 = advance_to begn ctx in
      if 0 \<le> i \<and> i < int (length types) then formatter_parse (types ! nat i) ctx1 else Inr (begn, ctx1))"

definition format_string_checker :: "string option list \<Rightarrow> arg_type list \<Rightarrow> parse_context handler" where
  "format_string_checker names types = \<lparr>
     on_text = (\<lambda>t ctx. Inr ctx),
     on_arg_auto = compile_next_arg_id,
     on_arg_index = (\<lambda>i ctx. bind_sum (compile_check_arg_id i ctx) (\<lambda>ctx1. Inr (i, ctx1))),
     on_arg_name = (\<lambda>n ctx.
       let index = get_arg_index_by_name 0 names n in
       if index < 0 then Inl ''named argument is not found'' else Inr (index, ctx)),
     on_replacement_field = (\<lambda>i begn ctx. bind_sum (checker_specs types i begn ctx) (\<lambda>(_, ctx1). Inr ctx1)),
     on_format_specs = checker_specs types\<rparr>"

text \<open>The constructor of \<open>basic_format_string\<close>: the check passes if the walk gives no error.\<close>

definition check_format_string :: "string option list \<Rightarrow> arg_type list \<Rightarrow> string \<Rightarrow> (string + parse_context) option" where
  "check_format_string names types fmt =
     parse_format_string fmt (format_string_checker names types)
       \<lparr>format_str = fmt, ctx_next_id = 0, ctx_types = Some types\<rparr>"

lemma formatter_parse_no_longer:
  "formatter_parse t ctx = Inr (b, ctx') \<Longrightarrow> length b \<le> length (format_str ctx)"
  using parse_format_specs_no_longer by (auto simp: formatter_parse_def split: if_splits)

interpretation check: format_handler "format_string_checker names types" for names types
  using formatter_parse_no_longer
  by unfold_locales (fastforce simp: format_string_checker_def checker_specs_def advance_to_def Let_def split: if_splits)+

section \<open>Two runs side by side\<close>

text \<open>
  \<open>follows E R c r\<close>: if the first run \<open>c\<close> gives a value then the second run \<open>r\<close> gives a related
  one, or an error of \<open>E\<close>.
\<close>

definition follows :: "string set \<Rightarrow> ('a \<Rightarrow> 'b \<Rightarrow> bool) \<Rightarrow> string + 'a \<Rightarrow> string + 'b \<Rightarrow> bool" where
  "follows E R c r \<longleftrightarrow> (\<forall>a. c = Inr a \<longrightarrow> yields E (R a) r)"

lemma follows_simps [simp]:
  "follows E R (Inl e) r" "follows E R (Inr a) r \<longleftrightarrow> yields E (R a) r"
  by (auto simp: follows_def)

lemma follows_bind:
  assumes "follows E R c r" "\<And>a b. c = Inr a \<Longrightarrow> R a b \<Longrightarrow> follows E S (f a) (g b)"
  shows "follows E S (bind_sum c f) (bind_sum r g)"
  using assms by (cases c; cases r) (auto simp: follows_def)

lemma follows_same:
  "(\<And>x. follows E S (f x) (g x)) \<Longrightarrow> follows E S (bind_sum m f) (bind_sum m g)"
  by (cases m) auto

lemma follows_left:
  "(\<And>a. c = Inr a \<Longrightarrow> follows E S (f a) r) \<Longrightarrow> follows E S (bind_sum c f) r"
  by (cases c) auto

lemma follows_right:
  "yields E P r \<Longrightarrow> (\<And>b. P b \<Longrightarrow> follows E S c (g b)) \<Longrightarrow> follows E S c (bind_sum r g)"
  by (cases r) (auto simp: follows_def)

lemma follows_if:
  "(p \<Longrightarrow> follows E S a b) \<Longrightarrow> (\<not> p \<Longrightarrow> follows E S a' b') \<Longrightarrow>
   follows E S (if p then a else a') (if p then b else b')"
  by simp

lemma follows_mono: "follows E R c r \<Longrightarrow> (\<And>a b. R a b \<Longrightarrow> S a b) \<Longrightarrow> follows E S c r"
  unfolding follows_def by (blast intro: yields_mono)

section \<open>The parsers, with and without the types\<close>

text \<open>
  The contexts of the two runs. A field by name switches to manual indexing at run time only,
  so with named arguments the counters can differ.
\<close>

definition switch_error :: string where
  "switch_error = ''cannot switch from manual to automatic argument indexing''"

definition twin :: "bool \<Rightarrow> arg_type list \<Rightarrow> parse_context \<Rightarrow> parse_context \<Rightarrow> bool" where
  "twin nm ts c r \<longleftrightarrow> ctx_types c = Some ts \<and> ctx_types r = None \<and>
     (ctx_next_id r = ctx_next_id c \<or> nm \<and> ctx_next_id r = -1)"

definition admits :: "bool \<Rightarrow> string set \<Rightarrow> bool" where
  "admits nm E \<longleftrightarrow> (nm \<longrightarrow> switch_error \<in> E)"

lemma next_arg_id_follows:
  assumes "twin nm ts c r" "admits nm E"
  shows "follows E (\<lambda>(i, c') (j, r'). i = j \<and> 0 \<le> i \<and> i < int (length ts) \<and> twin nm ts c' r') (next_arg_id c) (next_arg_id r)"
  using assms
  by (auto simp: twin_def admits_def next_arg_id_def do_check_arg_id_def switch_error_def Let_def follows_def)

lemma check_arg_id_follows:
  assumes "twin nm ts c r"
  shows "follows E (\<lambda>c' r'. i < int (length ts) \<and> twin nm ts c' r') (check_arg_id i c) (check_arg_id i r)"
  using assms by (auto simp: twin_def check_arg_id_def do_check_arg_id_def follows_def)

lemma check_dynamic_spec_follows:
  assumes "twin nm ts c r"
  shows "follows E (twin nm ts) (check_dynamic_spec i c) (check_dynamic_spec i r)"
  using assms by (auto simp: twin_def check_dynamic_spec_def follows_def)

text \<open>The same steps of a parser, with the handlers of the two runs.\<close>

lemma parse_arg_id_follows:
  assumes "follows E R (on_auto h s) (on_auto k t)"
    "\<And>i. 0 \<le> i \<Longrightarrow> follows E R (on_index h i s) (on_index k i t)"
    "\<And>n. follows E R (on_name h n s) (on_name k n t)" "p \<noteq> []"
  shows "follows E (\<lambda>(p', s') (q', t'). p' = q' \<and> R s' t') (parse_arg_id p h s) (parse_arg_id p k t)"
proof -
  have index: "0 \<le> fst (if hd p \<noteq> CHR ''0'' then parse_nonnegative_int p INT_MAX else (0, tl p))"
    if "is_digit (hd p)"
  proof -
    have "takeWhile is_digit p \<noteq> []" using assms(4) that by (cases p) auto
    moreover have "dropWhile is_digit p = [] \<or> \<not> is_digit (hd (dropWhile is_digit p))"
      using hd_dropWhile by blast
    ultimately have "parse_nonnegative_int (takeWhile is_digit p @ dropWhile is_digit p) INT_MAX =
      (if length (takeWhile is_digit p) \<le> 10 \<and> int (decimal (takeWhile is_digit p)) \<le> INT_MAX
       then int (decimal (takeWhile is_digit p)) else INT_MAX, dropWhile is_digit p)"
      by (intro parse_nonnegative_int_decimal) (auto dest: set_takeWhileD)
    then show ?thesis by (simp add: INT_MAX_def)
  qed
  let ?Q = "\<lambda>(p', s') (q', t'). p' = q' \<and> R s' t'"
  have ret: "follows E ?Q (bind_sum m (\<lambda>s'. Inr (b, s'))) (bind_sum n (\<lambda>s'. Inr (b, s')))"
    if "follows E R m n" for b m n
    by (rule follows_bind [OF that]) simp
  obtain i b where ib: "(if hd p \<noteq> CHR ''0'' then parse_nonnegative_int p INT_MAX else (0, tl p)) = (i, b)"
    by fastforce
  have "follows E ?Q (do_parse_arg_id p h s) (do_parse_arg_id p k t)"
    unfolding do_parse_arg_id_def Let_def ib prod.case
    by (intro follows_if follows_simps(1) ret assms(2,3))
      (use index ib in simp)
  then show ?thesis
    unfolding parse_arg_id_def Let_def by (intro follows_if ret assms(1))
qed

text \<open>Dynamic width and precision.\<close>

lemma dynamic_id_follows:
  assumes "twin nm ts c r" "admits nm E" "p \<noteq> []"
  shows "follows E (\<lambda>(p', c', x) (q', r', y). p' = q' \<and> x = y \<and> twin nm ts c' r')
    (parse_arg_id p dynamic_spec_id_handler (c, ref)) (parse_arg_id p dynamic_spec_id_handler (r, ref))"
proof -
  let ?R = "\<lambda>(c', x) (r', y). x = y \<and> twin nm ts c' r'"
  have "follows E (\<lambda>(p', s') (q', t'). p' = q' \<and> ?R s' t')
    (parse_arg_id p dynamic_spec_id_handler (c, ref)) (parse_arg_id p dynamic_spec_id_handler (r, ref))"
  proof (rule parse_arg_id_follows)
    have dyn: "follows E ?R (bind_sum (check_dynamic_spec i c2) (\<lambda>c3. Inr (c3, ref_index i)))
        (bind_sum (check_dynamic_spec i r2) (\<lambda>r3. Inr (r3, ref_index i)))" if "twin nm ts c2 r2" for i c2 r2
      by (rule follows_bind [OF check_dynamic_spec_follows [OF that]]) simp
    show "follows E ?R (on_auto dynamic_spec_id_handler (c, ref)) (on_auto dynamic_spec_id_handler (r, ref))"
      unfolding dynamic_spec_id_handler_def
      by (auto intro!: follows_bind [OF next_arg_id_follows [OF assms(1,2)]] dyn)
    show "follows E ?R (on_index dynamic_spec_id_handler i (c, ref)) (on_index dynamic_spec_id_handler i (r, ref))" for i
      unfolding dynamic_spec_id_handler_def
      by (auto intro!: follows_bind [OF check_arg_id_follows [OF assms(1)]] dyn)
    show "follows E ?R (on_name dynamic_spec_id_handler n (c, ref)) (on_name dynamic_spec_id_handler n (r, ref))" for n
      using assms(1) unfolding dynamic_spec_id_handler_def check_arg_name_def by (simp add: twin_def)
  qed (use assms in simp_all)
  then show ?thesis by (rule follows_mono) auto
qed

abbreviation dyn_same :: "bool \<Rightarrow> arg_type list \<Rightarrow> string \<times> int \<times> arg_ref \<times> parse_context \<Rightarrow> string \<times> int \<times> arg_ref \<times> parse_context \<Rightarrow> bool" where
  "dyn_same nm ts \<equiv> \<lambda>(p, v, x, c) (q, w, y, r). p = q \<and> v = w \<and> x = y \<and> twin nm ts c r"

lemma parse_dynamic_spec_follows:
  assumes "twin nm ts c r" "admits nm E"
  shows "follows E (dyn_same nm ts) (parse_dynamic_spec p v ref c) (parse_dynamic_spec p v ref r)"
proof -
  have dyn: "follows E (\<lambda>(p', c', x) (q', r', y). p' = q' \<and> x = y \<and> twin nm ts c' r')
    (if tl p \<noteq> [] then parse_arg_id (tl p) dynamic_spec_id_handler (c, ref) else Inr (tl p, (c, ref)))
    (if tl p \<noteq> [] then parse_arg_id (tl p) dynamic_spec_id_handler (r, ref) else Inr (tl p, (r, ref)))"
    by (intro follows_if dynamic_id_follows assms) (use assms in auto)
  obtain w q where wq: "parse_nonnegative_int p (-1) = (w, q)" by fastforce
  show ?thesis
    unfolding parse_dynamic_spec_def wq prod.case
    by (intro follows_if follows_bind [OF dyn]) (use assms in auto)
qed

lemma parse_precision_follows:
  assumes "twin nm ts c r" "admits nm E"
  shows "follows E (dyn_same nm ts) (parse_precision p v ref c) (parse_precision p v ref r)"
  unfolding parse_precision_def Let_def by (intro follows_if parse_dynamic_spec_follows assms) simp

text \<open>The state machine.\<close>

abbreviation turn_same ::
  "bool \<Rightarrow> arg_type list \<Rightarrow> turn \<times> string \<times> spec_state \<times> dynamic_format_specs \<times> parse_context \<Rightarrow>
   turn \<times> string \<times> spec_state \<times> dynamic_format_specs \<times> parse_context \<Rightarrow> bool" where
  "turn_same nm ts \<equiv> \<lambda>(tn, b, cur, sp, c) (tn', b', cur', sp', r).
     tn = tn' \<and> b = b' \<and> cur = cur' \<and> sp = sp' \<and> twin nm ts c r"

lemma spec_switch_follows:
  assumes "twin nm ts c r" "admits nm E"
  shows "follows E (turn_same nm ts) (spec_switch t ch begn cur sp c) (spec_switch t ch begn cur sp r)"
proof -
  have pt: "follows E (turn_same nm ts) (parse_presentation_type t p S begn cur sp' c) (parse_presentation_type t p S begn cur sp' r)"
    for p S sp' using assms(1) by (simp add: parse_presentation_type_def)
  have default: "follows E (turn_same nm ts) (spec_default begn cur sp c) (spec_default begn cur sp r)"
    unfolding spec_default_def Let_def by (intro follows_if follows_same) (use assms(1) in auto)
  have width: "follows E (turn_same nm ts)
      (bind_sum (parse_dynamic_spec begn v x c) (\<lambda>(b, v, x, c'). Inr (Loops, b, cur', sp\<lparr>width := v, width_ref := x\<rparr>, c')))
      (bind_sum (parse_dynamic_spec begn v x r) (\<lambda>(b, v, x, c'). Inr (Loops, b, cur', sp\<lparr>width := v, width_ref := x\<rparr>, c')))" for v x cur'
    by (rule follows_bind [OF parse_dynamic_spec_follows [OF assms]]) auto
  have prec: "follows E (turn_same nm ts)
      (bind_sum (parse_precision begn v x c) (\<lambda>(b, v, x, c'). Inr (Loops, b, cur', sp\<lparr>precision := v, precision_ref := x\<rparr>, c')))
      (bind_sum (parse_precision begn v x r) (\<lambda>(b, v, x, c'). Inr (Loops, b, cur', sp\<lparr>precision := v, precision_ref := x\<rparr>, c')))" for v x cur'
    by (rule follows_bind [OF parse_precision_follows [OF assms]]) auto
  show ?thesis
    unfolding spec_switch_def Let_def
    by (intro follows_if follows_same width prec pt default) (use assms(1) in simp_all)
qed

lemma specs_loop_follows:
  assumes "admits nm E"
  shows "twin nm ts c r \<Longrightarrow>
    follows E (\<lambda>(b, sp', c') (b', sp'', r'). b = b' \<and> sp' = sp'' \<and> twin nm ts c' r')
      (specs_loop t m begn cur sp c) (specs_loop t m begn cur sp r)"
proof (induction t m begn cur sp c arbitrary: r rule: specs_loop.induct)
  case (1 t m begn cur sp c)
  show ?case
  proof (cases "begn = []")
    case True
    with "1.prems" show ?thesis by (simp add: specs_loop.simps [of t m begn])
  next
    case False
    let ?turn = "\<lambda>c. spec_switch t (masked_char m begn) begn cur sp c"
    show ?thesis
    proof (cases "?turn c")
      case (Inl e)
      with False show ?thesis by (simp add: specs_loop.simps [of t m begn])
    next
      case (Inr x)
      obtain tn b cur' sp' c' where x: "x = (tn, b, cur', sp', c')" by (cases x) auto
      have sw: "yields E (turn_same nm ts x) (?turn r)"
        using spec_switch_follows [OF "1.prems" assms, of t "masked_char m begn" begn cur sp] Inr by simp
      show ?thesis
      proof (cases "?turn r")
        case (Inl e)
        with sw Inr x False show ?thesis by (simp add: specs_loop.simps [of t m begn] follows_def)
      next
        case rr: (Inr y)
        then obtain r' where y: "y = (tn, b, cur', sp', r')" "twin nm ts c' r'" using sw x by (cases y) auto
        with "1.IH" [OF False Inr, of tn "(b, cur', sp', c')" b "(cur', sp', c')" cur' "(sp', c')" sp' c' r']
          Inr rr x False show ?thesis
          by (simp add: specs_loop.simps [of t m begn])
      qed
    qed
  qed
qed

lemma parse_format_specs_follows:
  assumes "twin nm ts c r" "admits nm E"
  shows "follows E (\<lambda>(b, sp', c') (b', sp'', r'). b = b' \<and> sp' = sp'' \<and> twin nm ts c' r')
    (parse_format_specs begn sp c t) (parse_format_specs begn sp r t)"
  unfolding parse_format_specs_def using assms by (intro follows_if specs_loop_follows) simp_all

section \<open>The two walks\<close>

text \<open>
  The contract of two handlers of which the second follows the first: \<open>ok\<close> are the argument
  ids the first one lets through. A field is given at its closing brace; specifiers that do
  not end at a closing brace are an error of the walk of the first.
\<close>

locale handler_pair = one: format_handler h + two: format_handler k
  for h :: "'a handler" and k :: "'b handler" +
  fixes R :: "'a \<Rightarrow> 'b \<Rightarrow> bool" and ok :: "int \<Rightarrow> bool" and E :: "string set"
  assumes text_follows: "R s t \<Longrightarrow> follows E R (on_text h x s) (on_text k x t)"
    and auto_follows: "R s t \<Longrightarrow> follows E (\<lambda>(i, s') (j, t'). i = j \<and> ok i \<and> R s' t') (on_arg_auto h s) (on_arg_auto k t)"
    and index_follows: "R s t \<Longrightarrow> 0 \<le> i \<Longrightarrow>
      follows E (\<lambda>(i, s') (j, t'). i = j \<and> ok i \<and> R s' t') (on_arg_index h i s) (on_arg_index k i t)"
    and name_follows: "R s t \<Longrightarrow>
      follows E (\<lambda>(i, s') (j, t'). i = j \<and> ok i \<and> R s' t') (on_arg_name h n s) (on_arg_name k n t)"
    and field_follows: "R s t \<Longrightarrow> ok i \<Longrightarrow> b \<noteq> [] \<Longrightarrow> hd b = CHR ''}'' \<Longrightarrow>
      follows E R (on_replacement_field h i b s) (on_replacement_field k i b t)"
    and specs_follows: "R s t \<Longrightarrow> ok i \<Longrightarrow> on_format_specs h i b s = Inr (b', s') \<Longrightarrow> b' \<noteq> [] \<Longrightarrow> hd b' = CHR ''}'' \<Longrightarrow>
      yields E (\<lambda>(c, t'). c = b' \<and> R s' t') (on_format_specs k i b t)"
begin

abbreviation same_rest :: "string \<times> 'a \<Rightarrow> string \<times> 'b \<Rightarrow> bool" where
  "same_rest \<equiv> \<lambda>(p, s) (q, t). p = q \<and> R s t"

lemma replacement_field_follows:
  assumes "R s t"
  shows "follows E same_rest (parse_replacement_field p h s) (parse_replacement_field p k t)"
proof -
  let ?I = "\<lambda>(i, s') (j, t'). i = j \<and> R s' t'"
  have field: "follows E same_rest (bind_sum (on_replacement_field h i b s1) (\<lambda>s2. Inr (q, s2)))
      (bind_sum (on_replacement_field k i b t1) (\<lambda>s2. Inr (q, s2)))"
    if "R s1 t1" "ok i" "b \<noteq> []" "hd b = CHR ''}''" for i b s1 t1 q
    by (rule follows_bind [OF field_follows [OF that]]) simp
  have specs: "follows E same_rest
      (bind_sum (on_format_specs h i b s1) (\<lambda>(b2, s2).
        if b2 = [] \<or> hd b2 \<noteq> CHR ''}'' then Inl ''unknown format specifier'' else Inr (tl b2, s2)))
      (bind_sum (on_format_specs k i b t1) (\<lambda>(b2, s2).
        if b2 = [] \<or> hd b2 \<noteq> CHR ''}'' then Inl ''unknown format specifier'' else Inr (tl b2, s2)))"
    if "R s1 t1" "ok i" for i b s1 t1
  proof (cases "on_format_specs h i b s1")
    case (Inr x)
    obtain b2 s2 where x: "x = (b2, s2)" by (cases x)
    show ?thesis
    proof (cases "b2 = [] \<or> hd b2 \<noteq> CHR ''}''")
      case False
      then have "yields E (\<lambda>(c, t'). c = b2 \<and> R s2 t') (on_format_specs k i b t1)"
        using specs_follows [OF that] Inr x by blast
      then show ?thesis using False Inr x by (cases "on_format_specs k i b t1") auto
    qed (simp add: Inr x)
  qed simp
  have braces: "follows E same_rest
      (bind_sum (on_arg_auto h s) (\<lambda>(i, s1). bind_sum (on_replacement_field h i b s1) (\<lambda>s2. Inr (q, s2))))
      (bind_sum (on_arg_auto k t) (\<lambda>(i, s1). bind_sum (on_replacement_field k i b s1) (\<lambda>s2. Inr (q, s2))))"
    if "b \<noteq> []" "hd b = CHR ''}''" for b q
    by (rule follows_bind [OF auto_follows [OF assms]]) (use field that in auto)
  have open_brace: "follows E same_rest (bind_sum (on_text h x s) (\<lambda>s1. Inr (q, s1))) (bind_sum (on_text k x t) (\<lambda>s1. Inr (q, s1)))" for x q
    by (rule follows_bind [OF text_follows [OF assms]]) simp
  have id: "follows E (\<lambda>(p', (i, s')) (q', (j, t')). p' = q' \<and> i = j \<and> ok i \<and> R s' t')
      (parse_arg_id b (id_adapter h) (0, s)) (parse_arg_id b (id_adapter k) (0, t))" if "b \<noteq> []" for b
  proof -
    have "follows E (\<lambda>(p', x) (q', y). p' = q' \<and> (fst x = fst y \<and> ok (fst x) \<and> R (snd x) (snd y)))
      (parse_arg_id b (id_adapter h) (0, s)) (parse_arg_id b (id_adapter k) (0, t))"
      by (rule parse_arg_id_follows [OF _ _ _ that])
        (use auto_follows [OF assms] index_follows [OF assms] name_follows [OF assms] in
          \<open>auto simp: id_adapter_def split_def elim: follows_mono\<close>)
    then show ?thesis by (rule follows_mono) auto
  qed
  have rest: "follows E same_rest
      (bind_sum (parse_arg_id b (id_adapter h) (0, s)) (\<lambda>(b1, (i, s1)).
          if b1 \<noteq> [] \<and> hd b1 = CHR ''}'' then
            bind_sum (on_replacement_field h i b1 s1) (\<lambda>s2. Inr (tl b1, s2))
          else if b1 \<noteq> [] \<and> hd b1 = CHR '':'' then
            bind_sum (on_format_specs h i (tl b1) s1) (\<lambda>(b2, s2).
              if b2 = [] \<or> hd b2 \<noteq> CHR ''}'' then Inl ''unknown format specifier''
              else Inr (tl b2, s2))
          else Inl (''missing '' @ [CHR 0x27, CHR ''}'', CHR 0x27] @ '' in format string'')))
      (bind_sum (parse_arg_id b (id_adapter k) (0, t)) (\<lambda>(b1, (i, s1)).
          if b1 \<noteq> [] \<and> hd b1 = CHR ''}'' then
            bind_sum (on_replacement_field k i b1 s1) (\<lambda>s2. Inr (tl b1, s2))
          else if b1 \<noteq> [] \<and> hd b1 = CHR '':'' then
            bind_sum (on_format_specs k i (tl b1) s1) (\<lambda>(b2, s2).
              if b2 = [] \<or> hd b2 \<noteq> CHR ''}'' then Inl ''unknown format specifier''
              else Inr (tl b2, s2))
          else Inl (''missing '' @ [CHR 0x27, CHR ''}'', CHR 0x27] @ '' in format string'')))"
    if "b \<noteq> []" for b
    by (rule follows_bind [OF id [OF that]]) (use field specs in auto)
  show ?thesis
    unfolding parse_replacement_field_def Let_def
    by (intro follows_if braces open_brace rest) simp_all
qed

lemma small_loop_follows:
  "R s t \<Longrightarrow> small_loop h seg p s = Some c \<Longrightarrow> small_loop k seg p t = Some r \<Longrightarrow> follows E R c r"
proof (induction "length p" arbitrary: p seg s t c r rule: less_induct)
  case less
  show ?case
  proof (cases p)
    case Nil
    then show ?thesis
      using less.prems text_follows by (auto simp: small_loop.simps [of h seg "[]"] small_loop.simps [of k seg "[]"])
  next
    case (Cons ch q)
    consider "ch = CHR ''{''" | "ch = CHR ''}''" | "ch \<noteq> CHR ''{''" "ch \<noteq> CHR ''}''" by blast
    then show ?thesis
    proof cases
      case 1
      let ?m = "bind_sum (on_text h seg s) (parse_replacement_field p h)"
      let ?n = "bind_sum (on_text k seg t) (parse_replacement_field p k)"
      have m: "follows E same_rest ?m ?n"
        by (rule follows_bind [OF text_follows [OF less.prems(1)]]) (rule replacement_field_follows)
      have step: "small_loop h seg p s = (case ?m of Inl e \<Rightarrow> Some (Inl e) | Inr r \<Rightarrow> small_loop h [] (fst r) (snd r))"
        "small_loop k seg p t = (case ?n of Inl e \<Rightarrow> Some (Inl e) | Inr r \<Rightarrow> small_loop k [] (fst r) (snd r))"
        using 1 Cons by (subst small_loop.simps, simp)+
      show ?thesis
      proof (cases ?m)
        case (Inl e)
        then show ?thesis using less.prems(2) step(1) by auto
      next
        case x: (Inr x)
        show ?thesis
        proof (cases ?n)
          case (Inl e)
          then show ?thesis using less.prems(3) m step(2) x by (auto simp: follows_def)
        next
          case y: (Inr y)
          from x obtain s1 where "parse_replacement_field p h s1 = Inr (fst x, snd x)" by auto
          with one.field_shorter Cons have "length (fst x) < length p" by blast
          moreover have "R (snd x) (snd y)" "fst y = fst x" using m x y by (auto simp: split_def)
          ultimately show ?thesis using less.hyps less.prems(2,3) step x y by auto
        qed
      qed
    next
      case 2
      show ?thesis
      proof (cases "q = [] \<or> hd q \<noteq> CHR ''}''")
        case True
        then have "c = Inl unmatched" using 2 Cons less.prems(2) by (subst (asm) small_loop.simps) auto
        then show ?thesis by simp
      next
        case False
        have "length (tl q) < length p" using Cons by simp
        note IH = less.hyps [OF this]
        have step: "small_loop h seg p s = (case on_text h (seg @ [ch]) s of
            Inl e \<Rightarrow> Some (Inl e) | Inr s1 \<Rightarrow> small_loop h [] (tl q) s1)"
          "small_loop k seg p t = (case on_text k (seg @ [ch]) t of
            Inl e \<Rightarrow> Some (Inl e) | Inr s1 \<Rightarrow> small_loop k [] (tl q) s1)"
          using 2 Cons False by (subst small_loop.simps, simp split: sum.split)+
        note t = text_follows [OF less.prems(1), of "seg @ [ch]"]
        show ?thesis
          using less.prems(2,3) step t IH
          by (cases "on_text h (seg @ [ch]) s"; cases "on_text k (seg @ [ch]) t") (auto simp: follows_def)
      qed
    next
      case 3
      then have "small_loop h seg p s = small_loop h (seg @ [ch]) q s" "small_loop k seg p t = small_loop k (seg @ [ch]) q t"
        using Cons by (subst small_loop.simps, simp)+
      with less.hyps [of q s t "seg @ [ch]" c r] less.prems Cons show ?thesis by simp
    qed
  qed
qed

lemma parse_format_string_follows:
  assumes "R s t"
  shows "\<exists>c r. parse_format_string fmt h s = Some c \<and> parse_format_string fmt k t = Some r \<and> follows E R c r"
  using one.parse_format_string_ends [of fmt s] two.parse_format_string_ends [of fmt t] small_loop_follows [OF assms]
  by (auto simp: one.parse_format_string_eq two.parse_format_string_eq)

end

section \<open>The run follows the check\<close>

lemma index_by_name:
  "get_arg_index_by_name k names n =
    (case find (\<lambda>i. names ! i = Some n) [0..<length names] of None \<Rightarrow> -1 | Some i \<Rightarrow> k + int i)"
proof (induction names arbitrary: k)
  case (Cons x xs)
  then show ?case
    by (simp add: upt_Suc_map find_Suc split: option.split del: upt_Suc)
qed simp

definition has_names :: "string option list \<Rightarrow> bool" where
  "has_names names \<longleftrightarrow> (\<exists>n. Some n \<in> set names)"

text \<open>The errors that the check leaves to the run.\<close>

definition unchecked_errors :: "string option list \<Rightarrow> string set" where
  "unchecked_errors names = value_errors \<union> (if has_names names then {switch_error} else {})"

definition runs_with ::
  "('f, 'c) format_env \<Rightarrow> (string option \<times> ('f, 'c) format_arg) list \<Rightarrow> string \<Rightarrow> string option list \<Rightarrow>
   arg_type list \<Rightarrow> parse_context \<Rightarrow> fmt_state \<Rightarrow> bool" where
  "runs_with env vals buf names ts c s \<longleftrightarrow>
     env_ok env vals \<and> (\<forall>(n, a) \<in> set vals. arg_ty a \<noteq> custom_type) \<and>
     names = map fst vals \<and> ts = map (arg_ty \<circ> snd) vals \<and>
     twin (has_names names) ts c (pctx s) \<and> extends buf s"

lemma name_index:
  assumes "length vals < 2 ^ 31"
  shows "get_arg_index_by_name 0 (map fst vals) n = get_id (make_format_args vals) n"
proof -
  have "find (\<lambda>i. map fst vals ! i = Some n) [0..<length vals] = find (\<lambda>i. fst (vals ! i) = Some n) [0..<length vals]"
    by (rule find_cong) auto
  then show ?thesis using get_id_make [OF assms, of n] by (simp add: index_by_name split: option.split)
qed

text \<open>The argument of an id the check lets through.\<close>

lemma checked_arg:
  assumes "runs_with env vals buf names ts c s" "0 \<le> i" "i < int (length ts)"
  obtains arg where "get_arg (get_arg_at (env_args env) i) = Inr arg" "arg_ty arg = ts ! nat i" "arg_ok arg"
    "arg_ty arg \<noteq> custom_type"
proof -
  have len: "nat i < length vals" using assms by (simp add: runs_with_def)
  then have mem: "vals ! nat i \<in> set vals" by simp
  have "arg_ok (snd (vals ! nat i))" "arg_ty (snd (vals ! nat i)) \<noteq> custom_type"
    using assms(1) mem by (auto simp: runs_with_def env_ok_def split_def)
  moreover have "\<forall>(n, a) \<in> set vals. arg_ty a \<noteq> none_type"
    using assms(1) arg_ok_type by (auto simp: runs_with_def env_ok_def)
  then have "get_arg (get_arg_at (env_args env) (int (nat i))) = Inr (snd (vals ! nat i))"
    using get_arg_list [of vals "nat i"] assms(1) len by (simp add: runs_with_def env_ok_def)
  moreover have "arg_ty (snd (vals ! nat i)) = ts ! nat i" using assms(1) len by (simp add: runs_with_def)
  ultimately show thesis using that assms(2) by simp
qed

lemma twin_advance: "twin nm ts (advance_to b c) r = twin nm ts c r"
  by (simp add: twin_def advance_to_def)

lemma parse_specs_brace:
  assumes "b \<noteq> []" "hd b = CHR ''}''"
  shows "parse_format_specs b sp ctx t = Inr (b, sp, ctx)"
  using assms loop_brace by (cases b) (auto simp: parse_format_specs_def)

text \<open>What the check of the specifiers promises of a run of the same parser.\<close>

lemma formatter_parse_follows:
  assumes "formatter_parse t (advance_to b c) = Inr (b', c')" "twin nm ts c r" "admits nm E" "b' \<noteq> []" "hd b' = CHR ''}''"
  shows "yields E (\<lambda>(b'', sp, r'). b'' = b' \<and> twin nm ts c' r' \<and>
      (t = char_type \<longrightarrow> (\<exists>x. check_char_specs sp = Inr x))) (parse_format_specs b default_specs r t)"
proof (cases "b = [] \<or> hd b = CHR ''}''")
  case True
  then have "b' = b" "c' = advance_to b c" using assms(1) by (auto simp: formatter_parse_def advance_to_def)
  moreover have "check_char_specs default_specs = Inr True"
    by (simp add: check_char_specs_def default_specs_def)
  ultimately show ?thesis
    using True assms(2,4) parse_specs_brace [of b default_specs r t] by (auto simp: twin_advance)
next
  case False
  obtain sp c1 where p: "parse_format_specs b default_specs (advance_to b c) t = Inr (b', sp, c1)" "c' = c1"
    "t = char_type \<longrightarrow> (\<exists>x. check_char_specs sp = Inr x)"
    using assms(1) False by (auto simp: formatter_parse_def advance_to_def split: if_splits)
  have "twin nm ts (advance_to b c) r" using assms(2) by (simp add: twin_advance)
  from parse_format_specs_follows [OF this assms(3), of b default_specs t] p
  show ?thesis by (auto simp: follows_def elim!: yields_mono)
qed


lemma yields_conj: "yields E P m \<Longrightarrow> yields F Q m \<Longrightarrow> yields E (\<lambda>x. P x \<and> Q x) m"
  by (cases m) auto

lemma yields_mono_eq:
  "yields E P m \<Longrightarrow> (\<And>x. m = Inr x \<Longrightarrow> P x \<Longrightarrow> Q x) \<Longrightarrow> yields E Q m"
  by (cases m) auto

lemma arg_write_pctx: "arg_write env specs arg s = Inr s' \<Longrightarrow> pctx s' = pctx s"
  using emit_pctx by (fastforce simp: arg_write_def split: arg_value.splits option.splits)

lemma default_write_pctx: "default_write env arg s = Inr s' \<Longrightarrow> pctx s' = pctx s"
  by (cases "arg_text env arg") (auto simp: default_write_text)

lemma checked_specs_follow:
  assumes run: "runs_with env vals buf names ts c s" and i: "0 \<le> i" "i < int (length ts)"
    and chk: "checker_specs ts i b c = Inr (b', c')" and b': "b' \<noteq> []" "hd b' = CHR ''}''"
  shows "yields (unchecked_errors names) (\<lambda>(d, s'). d = b' \<and> runs_with env vals buf names ts c' s') (vformat_specs env i b s)"
proof -
  let ?U = "unchecked_errors names"
  have env: "env_ok env vals" and twin: "twin (has_names names) ts c (pctx s)" and ext: "extends buf s"
    using run by (auto simp: runs_with_def)
  have rt: "run_time (pctx s)" using ext by (simp add: extends_def)
  have sub: "value_errors \<subseteq> ?U" "admits (has_names names) ?U" by (auto simp: unchecked_errors_def admits_def)
  obtain arg where arg: "get_arg (get_arg_at (env_args env) i) = Inr arg" "arg_ty arg = ts ! nat i" "arg_ok arg"
    "arg_ty arg \<noteq> custom_type" using checked_arg [OF run i] .
  then have none: "custom_object arg = None"
    by (auto simp: custom_object_def arg_ok_def split: arg_value.splits)
  have "formatter_parse (arg_ty arg) (advance_to b c) = Inr (b', c')"
    using chk i arg(2) by (simp add: checker_specs_def)
  note parse = yields_conj [OF formatter_parse_follows [OF this twin sub(2) b']
      parse_format_specs_yields [of UNIV "pctx s" "arg_ty arg" b, OF subset_UNIV rt]]
  show ?thesis
    unfolding vformat_specs_def arg(1) bind_sum.simps none option.case
  proof (rule yields_bind [OF parse], goal_cases)
    case (1 x)
    then obtain sp r where x: "x = (b', sp, r)" "twin (has_names names) ts c' r" "specs_ok (arg_ty arg) sp" "run_time r"
      "arg_ty arg = char_type \<longrightarrow> (\<exists>x. check_char_specs sp = Inr x)" by (cases x) auto
    have ext': "extends buf (s\<lparr>pctx := r\<rparr>)" using ext x(4) by (simp add: extends_def)
    have written: "yields ?U (\<lambda>(d, s'). d = b' \<and> runs_with env vals buf names ts c' s')
        (bind_sum (arg_write env (sp\<lparr>width := w, precision := p\<rparr>) arg (s\<lparr>pctx := r\<rparr>)) (\<lambda>s1. Inr (b', s1)))"
      if "count_ok 0 w" "count_ok (- 1) p" for w p
    proof -
      have "specs_ok (arg_ty arg) (sp\<lparr>width := w, precision := p\<rparr>)" using x(3) that by (simp add: specs_ok_def)
      moreover have "check_char_specs (sp\<lparr>width := w, precision := p\<rparr>) = check_char_specs sp"
        by (simp add: check_char_specs_def)
      ultimately have "yields ?U (extends buf) (arg_write env (sp\<lparr>width := w, precision := p\<rparr>) arg (s\<lparr>pctx := r\<rparr>))"
        using arg_write_yields [OF env arg(3) ext' sub(1)] x(5) by simp
      then show ?thesis
        using run x(2) arg_write_pctx
        by (cases "arg_write env (sp\<lparr>width := w, precision := p\<rparr>) arg (s\<lparr>pctx := r\<rparr>)")
          (fastforce simp: runs_with_def)+
    qed
    have count: "count_ok 0 (width sp)" "count_ok (- 1) (precision sp)" using x(3) by (auto simp: specs_ok_def)
    show ?case
      unfolding x(1) prod.case
      by (intro yields_bind [OF handle_dynamic_yields [OF env sub(1) count(1) checkers_yield(1) [OF sub(1)]]]
          yields_bind [OF handle_dynamic_yields [OF env sub(1) count(2) checkers_yield(2) [OF sub(1)]]])
        (use b' written in simp)
  qed
qed


lemma runs_with_keep:
  "runs_with env vals buf names ts c s \<Longrightarrow> twin (has_names names) ts c' (pctx s') \<Longrightarrow> extends buf s' \<Longrightarrow>
   runs_with env vals buf names ts c' s'"
  unfolding runs_with_def by blast

lemma runs_withD:
  assumes "runs_with env vals buf names ts c s"
  shows "env_ok env vals" "extends buf s" "twin (has_names names) ts c (pctx s)"
    "length ts = length vals" "names = map fst vals"
  using assms unfolding runs_with_def by (blast, blast, blast, clarsimp, blast)

lemma runs_with_pctx:
  assumes "runs_with env vals buf names ts c s" "twin (has_names names) ts c' r"
  shows "runs_with env vals buf names ts c' (s\<lparr>pctx := r\<rparr>)"
  by (rule runs_with_keep [OF assms(1)])
    (use runs_withD(2) [OF assms(1)] assms(2) in \<open>simp_all add: extends_def run_time_def twin_def\<close>)

lemma checked_field_follows:
  assumes run: "runs_with env vals buf names ts c s" and i: "0 \<le> i" "i < int (length ts)"
    and b: "b \<noteq> []" "hd b = CHR ''}''"
  shows "follows (unchecked_errors names) (runs_with env vals buf names ts)
    (on_replacement_field (format_string_checker names ts) i b c) (on_replacement_field (vformat_handler env) i b s)"
proof -
  obtain arg where arg: "get_arg (get_arg_at (env_args env) i) = Inr arg" "arg_ok arg" "arg_ty arg \<noteq> custom_type"
    using checked_arg [OF run i] by blast
  have "env_ok env vals" "extends buf s" "value_errors \<subseteq> unchecked_errors names"
    using runs_withD [OF run] by (auto simp: unchecked_errors_def)
  then have "yields (unchecked_errors names) (extends buf) (default_write env arg s)"
    using arg by (intro default_write_yields) simp_all
  then have "yields (unchecked_errors names) (runs_with env vals buf names ts (advance_to b c)) (default_write env arg s)"
    by (rule yields_mono_eq)
      (rule runs_with_keep [OF run], use runs_withD(3) [OF run] in \<open>simp_all add: twin_advance default_write_pctx\<close>)
  moreover have "checker_specs ts i b c = Inr (b, advance_to b c)"
    using i b by (simp add: checker_specs_def formatter_parse_def advance_to_def Let_def)
  ultimately show ?thesis
    using arg(1) by (simp add: format_string_checker_def vformat_handler_def)
qed

lemma checked_name_follows:
  assumes "runs_with env vals buf names ts c s"
  shows "follows (unchecked_errors names) (\<lambda>(i, c') (j, s'). i = j \<and> (0 \<le> i \<and> i < int (length ts)) \<and>
      runs_with env vals buf names ts c' s')
    (on_arg_name (format_string_checker names ts) n c) (on_arg_name (vformat_handler env) n s)"
proof -
  have eq: "names = map fst vals" "length ts = length vals" "length vals < 2 ^ 31" "env_args env = make_format_args vals"
    using runs_withD [OF assms] by (simp_all add: env_ok_def)
  let ?find = "find (\<lambda>i. fst (vals ! i) = Some n) [0..<length vals]"
  have index: "get_arg_index_by_name 0 names n = get_id (env_args env) n"
    "get_id (env_args env) n = (case ?find of None \<Rightarrow> -1 | Some i \<Rightarrow> int i)"
    using name_index [OF eq(3)] get_id_make [OF eq(3)] by (simp_all add: eq)
  show ?thesis
  proof (cases "?find")
    case None
    then show ?thesis using index by (simp add: format_string_checker_def)
  next
    case (Some k)
    then have k: "k < length vals" "fst (vals ! k) = Some n" by (auto simp: find_Some_iff)
    then have "Some n \<in> fst ` set vals" using nth_mem [OF k(1)] by (metis imageI)
    then have "Some n \<in> set names" by (simp add: eq(1))
    then have "has_names names" by (auto simp: has_names_def)
    then have "runs_with env vals buf names ts c (s\<lparr>pctx := (pctx s)\<lparr>ctx_next_id := -1\<rparr>\<rparr>)"
      using runs_withD(3) [OF assms] by (intro runs_with_pctx [OF assms]) (simp add: twin_def)
    then show ?thesis
      using index Some k(1) eq(2)
      by (simp add: format_string_checker_def vformat_handler_def check_arg_name_def)
  qed
qed

interpretation checked: handler_pair "format_string_checker names ts" "vformat_handler env"
  "runs_with env vals buf names ts" "\<lambda>i. 0 \<le> i \<and> i < int (length ts)" "unchecked_errors names"
  for names :: "string option list" and ts :: "arg_type list" and env :: "('f, 'c) format_env" and vals buf
proof unfold_locales
  let ?U = "unchecked_errors names" and ?R = "runs_with env vals buf names ts" and ?n = "int (length ts)"
  fix c s x i b n b' c'
  assume R: "?R c s"
  then have twin: "twin (has_names names) ts c (pctx s)" and types: "ctx_types c = Some ts"
    using runs_withD [OF R] by (auto simp: twin_def)
  have adm: "admits (has_names names) ?U" by (simp add: admits_def unchecked_errors_def)
  show "follows ?U ?R (on_text (format_string_checker names ts) x c) (on_text (vformat_handler env) x s)"
    using runs_with_keep [OF R, of c] extends_append [OF runs_withD(2) [OF R]] twin
    by (simp add: format_string_checker_def vformat_handler_def emit_def)
  show "follows ?U (\<lambda>(i, c') (j, s'). i = j \<and> (0 \<le> i \<and> i < ?n) \<and> ?R c' s')
      (on_arg_auto (format_string_checker names ts) c) (on_arg_auto (vformat_handler env) s)"
    unfolding format_string_checker_def vformat_handler_def compile_next_arg_id_def
    by (auto intro!: follows_bind [OF next_arg_id_follows [OF twin adm]] runs_with_pctx [OF R])
  show "follows ?U (\<lambda>(i, c') (j, s'). i = j \<and> (0 \<le> i \<and> i < ?n) \<and> ?R c' s')
      (on_arg_index (format_string_checker names ts) i c) (on_arg_index (vformat_handler env) i s)" if "0 \<le> i"
    unfolding format_string_checker_def vformat_handler_def compile_check_arg_id_def
    using that by (auto simp: bind_sum_assoc intro!: follows_bind [OF check_arg_id_follows [OF twin]] runs_with_pctx [OF R])
  show "follows ?U (\<lambda>(i, c') (j, s'). i = j \<and> (0 \<le> i \<and> i < ?n) \<and> ?R c' s')
      (on_arg_name (format_string_checker names ts) n c) (on_arg_name (vformat_handler env) n s)"
    by (rule checked_name_follows [OF R])
  assume ok: "0 \<le> i \<and> i < ?n"
  show "follows ?U ?R (on_replacement_field (format_string_checker names ts) i b c)
      (on_replacement_field (vformat_handler env) i b s)" if "b \<noteq> []" "hd b = CHR ''}''"
    using checked_field_follows [OF R] ok that by blast
  show "yields ?U (\<lambda>(d, s'). d = b' \<and> ?R c' s') (on_format_specs (vformat_handler env) i b s)"
    if "on_format_specs (format_string_checker names ts) i b c = Inr (b', c')" "b' \<noteq> []" "hd b' = CHR ''}''"
    using checked_specs_follow [OF R, of i b b' c'] ok that by (simp add: format_string_checker_def vformat_handler_def)
qed


section \<open>What the check promises\<close>



text \<open>The two examples of an accepted string that throws, and a string that is rejected.\<close>

abbreviation plain_env :: "(string option \<times> (unit, unit) format_arg) list \<Rightarrow> (unit, unit) format_env" where
  "plain_env vals \<equiv>
     \<lparr>env_args = make_format_args vals, env_loc = \<lparr>grouping = [], thousands_sep = []\<rparr>,
      env_global_loc = \<lparr>grouping = [], thousands_sep = []\<rparr>, env_fuel = 200,
      env_float = (\<lambda>v sp. Done []), env_custom = (\<lambda>c ctx. Inr (0, 0, []))\<rparr>"

lemma nested_brackets:
  "parse_format_specs ''{}}'' default_specs \<lparr>format_str = ''{}}'', ctx_next_id = 1, ctx_types = Some [int_type, bool_type]\<rparr> int_type =
    Inr (''}'', default_specs\<lparr>width_ref := ref_index 1\<rparr>, \<lparr>format_str = ''{}}'', ctx_next_id = 2, ctx_types = Some [int_type, bool_type]\<rparr>)"
  "parse_format_specs ''{}}'' default_specs \<lparr>format_str = ''{:{}}'', ctx_next_id = 1, ctx_types = None\<rparr> int_type =
    Inr (''}'', default_specs\<lparr>width_ref := ref_index 1\<rparr>, \<lparr>format_str = ''{:{}}'', ctx_next_id = 2, ctx_types = None\<rparr>)"
  by code_simp+

lemma example_fields:
  "parse_replacement_field ''{x}{}'' h s =
    bind_sum (on_arg_name h ''x'' s) (\<lambda>(i, s1).
      bind_sum (on_replacement_field h i ''}{}'' s1) (\<lambda>s2. Inr (''{}'', s2)))"
  "parse_replacement_field ''{}'' h s =
    bind_sum (on_arg_auto h s) (\<lambda>(i, s1).
      bind_sum (on_replacement_field h i ''}'' s1) (\<lambda>s2. Inr ([], s2)))"
  "parse_replacement_field ''{:{}}'' h s =
    bind_sum (on_arg_auto h s) (\<lambda>(i, s1).
      bind_sum (on_format_specs h i ''{}}'' s1) (\<lambda>(b2, s2).
        if b2 = [] \<or> hd b2 \<noteq> CHR ''}'' then Inl ''unknown format specifier'' else Inr (tl b2, s2)))"
proof -
  have x: "\<not> is_digit CHR ''x''" "is_name_start CHR ''x''" "\<not> is_name_char CHR ''}''" by code_simp+
  show "parse_replacement_field ''{x}{}'' h s =
    bind_sum (on_arg_name h ''x'' s) (\<lambda>(i, s1).
      bind_sum (on_replacement_field h i ''}{}'' s1) (\<lambda>s2. Inr (''{}'', s2)))"
    by (simp add: parse_replacement_field_def parse_arg_id_def do_parse_arg_id_def id_adapter_def x bind_sum_assoc split_def)
qed (simp_all add: parse_replacement_field_def parse_arg_id_def id_adapter_def bind_sum_assoc split_def)

lemmas check_eval = small_loop.simps format_string_checker_def
  checker_specs_def formatter_parse_def
  compile_next_arg_id_def next_arg_id_def do_check_arg_id_def num_args_def advance_to_def
  Let_def nested_brackets example_fields vformat_handler_def emit_def check_arg_name_def

lemma bool_width_accepted:
  "check_format_string [None, None] [int_type, bool_type] ''{:{}}'' =
     Some (Inr \<lparr>format_str = ''{}}'', ctx_next_id = 2, ctx_types = Some [int_type, bool_type]\<rparr>)"
  unfolding check_format_string_def check.parse_format_string_eq
  by (simp add: check_eval)

lemma name_then_auto_accepted:
  "check_format_string [Some ''x''] [int_type] ''{x}{}'' =
    Some (Inr \<lparr>format_str = ''}'', ctx_next_id = 1, ctx_types = Some [int_type]\<rparr>)"
  unfolding check_format_string_def check.parse_format_string_eq
  by (simp add: check_eval)

lemma bool_width_args:
  "get_arg (get_arg_at (make_format_args [(None, \<lparr>arg_ty = int_type, arg_val = V_int 42 :: (unit, unit) arg_value\<rparr>), (None, \<lparr>arg_ty = bool_type, arg_val = V_bool True\<rparr>)]) 0) = Inr \<lparr>arg_ty = int_type, arg_val = V_int 42\<rparr>"
  "get_arg (get_arg_at (make_format_args [(None, \<lparr>arg_ty = int_type, arg_val = V_int 42 :: (unit, unit) arg_value\<rparr>), (None, \<lparr>arg_ty = bool_type, arg_val = V_bool True\<rparr>)]) 1) = Inr \<lparr>arg_ty = bool_type, arg_val = V_bool True\<rparr>"
  by code_simp+

lemma bool_width_throws:
  "vformat_to (plain_env [(None, \<lparr>arg_ty = int_type, arg_val = V_int 42\<rparr>), (None, \<lparr>arg_ty = bool_type, arg_val = V_bool True\<rparr>)])
     [] ''{:{}}'' = Some (Inl ''width is not integer'')"
  unfolding vformat_to_general vformat.parse_format_string_eq
  by (simp add: check_eval bool_width_args vformat_specs_def custom_object_def start_def get_dynamic_spec_def
      width_checker_def)

lemma name_then_auto_throws:
  "vformat_to (plain_env [(Some ''x'', \<lparr>arg_ty = int_type, arg_val = V_int 42\<rparr>)]) [] ''{x}{}'' =
    Some (Inl switch_error)"
proof -
  let ?args = "make_format_args [(Some ''x'', \<lparr>arg_ty = int_type, arg_val = V_int 42 :: (unit, unit) arg_value\<rparr>)]"
  have "get_id ?args ''x'' = 0" "get_arg (get_arg_at ?args 0) = Inr \<lparr>arg_ty = int_type, arg_val = V_int 42\<rparr>"
    by code_simp+
  moreover obtain t where "write_int_default 32 42 = Done t" using write_int_default_text [of 32 42] by auto
  ultimately show ?thesis
    unfolding vformat_to_general vformat.parse_format_string_eq
    by (simp add: check_eval start_def default_write_def switch_error_def)
qed




end
