(* ===== verification/Fmt_Buffer.thy ===== *)
theory Fmt_Buffer
  imports Fmt_Safety
begin

text \<open>
  The buffers that the writers of {fmt} append to: \<open>buffer\<close> of fmt/include/fmt/base.h, the
  buffers derived from it there (\<open>iterator_buffer\<close> in four variants, \<open>counting_buffer\<close>) and
  \<open>basic_memory_buffer\<close> of fmt/include/fmt/format.h, with the functions that choose among them
  (\<open>vformat_to_n\<close>, \<open>formatted_size\<close>, \<open>vformat\<close>).

  A buffer is a record of its members; the array that the pointer of the class refers to is the member \<open>b_ptr\<close>, a list
  in which \<open>None\<close> is a cell nobody has written. \<open>grow\<close> is the function a derived class hands to
  the base class: it is an argument of the operations that call it. The derived classes extend
  the record. The locale \<open>growable\<close> states what \<open>try_reserve\<close> promises, and shows once that then
  everything written arrives, in order.
\<close>

section \<open>The base class\<close>

record buffer =
  b_ptr :: "char option list"
  b_size :: nat
  b_capacity :: nat

datatype buffer_error = Bad_alloc | Bad_free | Out_of_bounds

definition set_data :: "char option list \<Rightarrow> nat \<Rightarrow> 'a buffer_scheme \<Rightarrow> 'a buffer_scheme" where
  "set_data d c b = b\<lparr>b_ptr := d, b_capacity := c\<rparr>"

definition buffer_clear :: "'a buffer_scheme \<Rightarrow> 'a buffer_scheme" where
  "buffer_clear b = b\<lparr>b_size := 0\<rparr>"

type_synonym 'b grow_fun = "nat \<Rightarrow> 'b \<Rightarrow> buffer_error + 'b"

definition try_reserve :: "'a buffer_scheme grow_fun \<Rightarrow> nat \<Rightarrow> 'a buffer_scheme \<Rightarrow> buffer_error + 'a buffer_scheme" where
  "try_reserve grow new_capacity b = (if new_capacity > b_capacity b then grow new_capacity b else Inr b)"

definition try_resize :: "'a buffer_scheme grow_fun \<Rightarrow> nat \<Rightarrow> 'a buffer_scheme \<Rightarrow> buffer_error + 'a buffer_scheme" where
  "try_resize grow n b =
     bind_sum (try_reserve grow n b) (\<lambda>b1.
       Inr (b1\<lparr>b_size := if n \<le> b_capacity b1 then n else b_capacity b1\<rparr>))"

text \<open>A write of consecutive cells from \<open>i\<close> on: \<open>memcpy\<close>, or the loop beside it.\<close>

definition copy_in :: "nat \<Rightarrow> string \<Rightarrow> char option list \<Rightarrow> buffer_error + char option list" where
  "copy_in i s d =
     (if i + length s \<le> length d then Inr (take i d @ map Some s @ drop (i + length s) d)
      else Inl Out_of_bounds)"

definition push_back :: "'a buffer_scheme grow_fun \<Rightarrow> char \<Rightarrow> 'a buffer_scheme \<Rightarrow> buffer_error + 'a buffer_scheme" where
  "push_back grow c b =
     bind_sum (try_reserve grow (b_size b + 1) b) (\<lambda>b1.
     bind_sum (copy_in (b_size b1) [c] (b_ptr b1)) (\<lambda>d.
       Inr (b1\<lparr>b_ptr := d, b_size := b_size b1 + 1\<rparr>)))"

text \<open>The loop of \<open>append\<close> ends only if \<open>grow\<close> makes room.\<close>

partial_function (option) buffer_append ::
  "'a buffer_scheme grow_fun \<Rightarrow> string \<Rightarrow> 'a buffer_scheme \<Rightarrow> (buffer_error + 'a buffer_scheme) option" where
  "buffer_append grow s b =
     (if s = [] then Some (Inr b)
      else
        (case try_reserve grow (b_size b + length s) b of
           Inl e \<Rightarrow> Some (Inl e)
         | Inr b1 \<Rightarrow>
             let free_cap = b_capacity b1 - b_size b1;
                 n = (if free_cap < length s then free_cap else length s)
             in (case copy_in (b_size b1) (take n s) (b_ptr b1) of
                   Inl e \<Rightarrow> Some (Inl e)
                 | Inr d \<Rightarrow> buffer_append grow (drop n s) (b1\<lparr>b_ptr := d, b_size := b_size b1 + n\<rparr>))))"

text \<open>
  The ways in which the writers of format.h append through a \<open>basic_appender\<close>: an assignment
  through the iterator, \<open>copy\<close>, \<open>reserve\<close>, and \<open>to_pointer\<close>, which gives a pointer to fill in
  when the characters fit and makes the writer copy them otherwise.
\<close>

datatype buffer_write = Assign char | Copy string | Reserve nat | Direct string

definition appender_reserve :: "'a buffer_scheme grow_fun \<Rightarrow> nat \<Rightarrow> 'a buffer_scheme \<Rightarrow> buffer_error + 'a buffer_scheme" where
  "appender_reserve grow n b = try_reserve grow (b_size b + n) b"

definition to_pointer ::
  "'a buffer_scheme grow_fun \<Rightarrow> nat \<Rightarrow> 'a buffer_scheme \<Rightarrow> buffer_error + (nat option \<times> 'a buffer_scheme)" where
  "to_pointer grow n b =
     (if b_capacity b < b_size b + n then Inr (None, b)
      else bind_sum (try_resize grow (b_size b + n) b) (\<lambda>b1. Inr (Some (b_size b), b1)))"

fun do_write ::
  "'a buffer_scheme grow_fun \<Rightarrow> buffer_write \<Rightarrow> 'a buffer_scheme \<Rightarrow> (buffer_error + 'a buffer_scheme) option" where
  "do_write grow (Assign c) b = Some (push_back grow c b)"
| "do_write grow (Copy s) b = buffer_append grow s b"
| "do_write grow (Reserve n) b = Some (appender_reserve grow n b)"
| "do_write grow (Direct s) b =
     (case to_pointer grow (length s) b of
        Inl e \<Rightarrow> Some (Inl e)
      | Inr (None, b1) \<Rightarrow> buffer_append grow s b1
      | Inr (Some i, b1) \<Rightarrow> Some (bind_sum (copy_in i s (b_ptr b1)) (\<lambda>d. Inr (b1\<lparr>b_ptr := d\<rparr>))))"

fun do_writes ::
  "'a buffer_scheme grow_fun \<Rightarrow> buffer_write list \<Rightarrow> 'a buffer_scheme \<Rightarrow> (buffer_error + 'a buffer_scheme) option" where
  "do_writes grow [] b = Some (Inr b)"
| "do_writes grow (w # ws) b =
     (case do_write grow w b of
        None \<Rightarrow> None
      | Some (Inl e) \<Rightarrow> Some (Inl e)
      | Some (Inr b1) \<Rightarrow> do_writes grow ws b1)"

fun write_text :: "buffer_write \<Rightarrow> string" where
  "write_text (Assign c) = [c]"
| "write_text (Copy s) = s"
| "write_text (Reserve n) = []"
| "write_text (Direct s) = s"

definition written_text :: "buffer_write list \<Rightarrow> string" where
  "written_text ws = concat (map write_text ws)"

lemma written_text_simps [simp]:
  "written_text [] = []" "written_text (w # ws) = write_text w @ written_text ws"
  by (simp_all add: written_text_def)

section \<open>What a derived class promises\<close>

text \<open>
  \<open>holds b t\<close>: the buffer has taken the text \<open>t\<close>. A derived class promises that \<open>grow\<close> loses
  nothing and leaves room for at least one more character, as the comment at \<open>try_reserve\<close>
  says, unless it throws; and that what lies between \<open>b_size\<close> and \<open>b_capacity\<close> is its own to fill.
\<close>

definition filled :: "'a buffer_scheme \<Rightarrow> string \<Rightarrow> 'a buffer_scheme" where
  "filled b s = b\<lparr>b_ptr := take (b_size b) (b_ptr b) @ map Some s @ drop (b_size b + length s) (b_ptr b),
     b_size := b_size b + length s\<rparr>"

locale growable =
  fixes grow :: "'a buffer_scheme grow_fun"
    and holds :: "'a buffer_scheme \<Rightarrow> string \<Rightarrow> bool"
    and E :: "buffer_error set"
  assumes room: "holds b t \<Longrightarrow> b_size b \<le> b_capacity b \<and> b_capacity b \<le> length (b_ptr b)"
    and grows: "holds b t \<Longrightarrow> b_capacity b < n \<Longrightarrow> yields E (\<lambda>b'. holds b' t \<and> b_size b' < b_capacity b') (grow n b)"
    and fills: "holds b t \<Longrightarrow> b_size b + length s \<le> b_capacity b \<Longrightarrow> holds (filled b s) (t @ s)"
begin

lemma try_reserve_holds:
  assumes "holds b t"
  shows "yields E (\<lambda>b'. holds b' t \<and> (b_size b < n \<longrightarrow> b_size b' < b_capacity b')) (try_reserve grow n b)"
  using grows [OF assms, of n] assms by (auto simp: try_reserve_def elim!: yields_mono)

lemma copy_in_room:
  assumes "holds b t" "b_size b + length s \<le> b_capacity b"
  shows "copy_in (b_size b) s (b_ptr b) = Inr (b_ptr (filled b s))"
  using room [OF assms(1)] assms(2) by (simp add: copy_in_def filled_def)

lemma filled_update:
  "b\<lparr>b_ptr := b_ptr (filled b s), b_size := b_size b + length s\<rparr> = filled b s"
  "b\<lparr>b_size := b_size b + length s, b_ptr := b_ptr (filled b s)\<rparr> = filled b s"
  by (simp_all add: filled_def)

lemma push_back_holds:
  assumes "holds b t"
  shows "yields E (\<lambda>b'. holds b' (t @ [c])) (push_back grow c b)"
  unfolding push_back_def
proof (rule yields_bind [OF try_reserve_holds [OF assms]])
  fix b1 assume b1: "holds b1 t \<and> (b_size b < b_size b + 1 \<longrightarrow> b_size b1 < b_capacity b1)"
  then have "b_size b1 + length [c] \<le> b_capacity b1" by simp
  with b1 show "yields E (\<lambda>b'. holds b' (t @ [c]))
      (bind_sum (copy_in (b_size b1) [c] (b_ptr b1)) (\<lambda>d. Inr (b1\<lparr>b_ptr := d, b_size := b_size b1 + 1\<rparr>)))"
    using copy_in_room [of b1 t "[c]"] fills [of b1 t "[c]"] filled_update [of b1 "[c]"] by simp
qed

lemma append_holds:
  assumes "holds b t"
  shows "\<exists>r. buffer_append grow s b = Some r \<and> yields E (\<lambda>b'. holds b' (t @ s)) r"
  using assms
proof (induction "length s" arbitrary: s b t rule: less_induct)
  case less
  show ?case
  proof (cases "s = []")
    case True
    then show ?thesis using less.prems by (simp add: buffer_append.simps)
  next
    case False
    note step = try_reserve_holds [OF less.prems, of "b_size b + length s"]
    show ?thesis
    proof (cases "try_reserve grow (b_size b + length s) b")
      case (Inl e)
      then show ?thesis using step False by (simp add: buffer_append.simps)
    next
      case (Inr b1)
      then have b1: "holds b1 t" "b_size b1 < b_capacity b1" using step False by simp_all
      obtain n where n: "n = (if b_capacity b1 - b_size b1 < length s then b_capacity b1 - b_size b1 else length s)" by blast
      then have pos: "0 < n" "n \<le> length s" and fits: "b_size b1 + length (take n s) \<le> b_capacity b1"
        using b1(2) False by auto
      have eq: "buffer_append grow s b = buffer_append grow (drop n s) (filled b1 (take n s))"
        using False Inr copy_in_room [OF b1(1) fits] filled_update [of b1 "take n s"] pos(2)
        by (subst buffer_append.simps) (simp add: Let_def n [symmetric])
      have "length (drop n s) < length s" using pos by simp
      from less.hyps [OF this fills [OF b1(1) fits]] show ?thesis by (simp add: eq)
    qed
  qed
qed

lemma to_pointer_holds:
  assumes "holds b t"
  shows "\<exists>r. do_write grow (Direct s) b = Some r \<and> yields E (\<lambda>b'. holds b' (t @ s)) r"
proof (cases "b_capacity b < b_size b + length s")
  case True
  then show ?thesis using append_holds [OF assms] by (simp add: to_pointer_def)
next
  case False
  then have fits: "b_size b + length s \<le> b_capacity b" by simp
  then have "to_pointer grow (length s) b = Inr (Some (b_size b), b\<lparr>b_size := b_size b + length s\<rparr>)"
    by (simp add: to_pointer_def try_resize_def try_reserve_def)
  then show ?thesis
    using copy_in_room [OF assms fits] fills [OF assms fits] filled_update [of b s] by simp
qed

lemma write_holds:
  assumes "holds b t"
  shows "\<exists>r. do_write grow w b = Some r \<and> yields E (\<lambda>b'. holds b' (t @ write_text w)) r"
proof (cases w)
  case (Assign c)
  then show ?thesis using push_back_holds [OF assms] by simp
next
  case (Copy s)
  then show ?thesis using append_holds [OF assms] by simp
next
  case (Reserve n)
  then show ?thesis
    using try_reserve_holds [OF assms, of "b_size b + n"] by (auto simp: appender_reserve_def elim!: yields_mono)
next
  case (Direct s)
  then show ?thesis using to_pointer_holds [OF assms] by simp
qed

lemma writes_hold:
  "holds b t \<Longrightarrow> \<exists>r. do_writes grow ws b = Some r \<and> yields E (\<lambda>b'. holds b' (t @ written_text ws)) r"
proof (induction ws arbitrary: b t)
  case (Cons w ws)
  obtain r where r: "do_write grow w b = Some r" "yields E (\<lambda>b'. holds b' (t @ write_text w)) r"
    using write_holds [OF Cons.prems] by blast
  show ?case
  proof (cases r)
    case (Inr b1)
    with r Cons.IH [of b1 "t @ write_text w"] show ?thesis by simp
  qed (use r in simp)
qed simp

end


section \<open>Buffers with an array of their own\<close>

definition buffer_size :: nat where
  "buffer_size = 256"

text \<open>
  \<open>iterator_buffer\<close> for an output iterator: \<open>i_out\<close> is what was assigned through the iterator.
  \<open>i_limit\<close> is \<open>None\<close> for \<open>buffer_traits\<close>, the limit of \<open>fixed_buffer_traits\<close> otherwise.
\<close>

record iterator_buffer = buffer +
  i_out :: "char option list"
  i_count :: nat
  i_limit :: "nat option"

definition traits_limit :: "nat option \<Rightarrow> nat \<Rightarrow> nat \<Rightarrow> nat \<times> nat" where
  "traits_limit lim c sz =
     (case lim of
        None \<Rightarrow> (sz, 0)
      | Some l \<Rightarrow>
          let n = (if l > c then l - c else 0)
          in (if sz < n then sz else n, c + sz))"

definition iterator_flush :: "iterator_buffer \<Rightarrow> iterator_buffer" where
  "iterator_flush b =
     (let sz = b_size b;
          b1 = buffer_clear b;
          (n, c) = traits_limit (i_limit b1) (i_count b1) sz
      in b1\<lparr>i_count := c, i_out := i_out b1 @ take n (b_ptr b1)\<rparr>)"

definition iterator_grow :: "iterator_buffer grow_fun" where
  "iterator_grow n b = (if b_size b = buffer_size then Inr (iterator_flush b) else Inr b)"

definition iterator_new :: "nat option \<Rightarrow> iterator_buffer" where
  "iterator_new lim =
     \<lparr>b_ptr = replicate buffer_size None, b_size = 0, b_capacity = buffer_size,
      i_out = [], i_count = 0, i_limit = lim\<rparr>"

text \<open>\<open>out()\<close> flushes and gives the iterator; \<open>count()\<close> adds what is not flushed yet.\<close>

definition iterator_total :: "iterator_buffer \<Rightarrow> nat" where
  "iterator_total b = i_count b + b_size b"

text \<open>\<open>counting_buffer\<close> drops what it is given.\<close>

record counting_buffer = buffer +
  c_count :: nat

definition counting_grow :: "counting_buffer grow_fun" where
  "counting_grow n b =
     (if b_size b \<noteq> buffer_size then Inr b
      else Inr (buffer_clear (b\<lparr>c_count := c_count b + b_size b\<rparr>)))"

definition counting_new :: counting_buffer where
  "counting_new = \<lparr>b_ptr = replicate buffer_size None, b_size = 0, b_capacity = buffer_size, c_count = 0\<rparr>"

definition counting_total :: "counting_buffer \<Rightarrow> nat" where
  "counting_total b = c_count b + b_size b"

text \<open>
  What the two hold of the text: the last \<open>b_size\<close> characters are in the array, the ones before
  went out, the first \<open>l\<close> of them if there is a limit.
\<close>

definition tail_in :: "'a buffer_scheme \<Rightarrow> string \<Rightarrow> bool" where
  "tail_in b t \<longleftrightarrow> b_size b \<le> length t \<and> b_size b \<le> b_capacity b \<and> b_capacity b \<le> length (b_ptr b) \<and>
     take (b_size b) (b_ptr b) = map Some (drop (length t - b_size b) t)"

definition iterator_holds :: "nat option \<Rightarrow> iterator_buffer \<Rightarrow> string \<Rightarrow> bool" where
  "iterator_holds lim b t \<longleftrightarrow> tail_in b t \<and> b_capacity b = buffer_size \<and> i_limit b = lim \<and>
     i_count b = (if lim = None then 0 else length t - b_size b) \<and>
     i_out b = map Some (take (case lim of None \<Rightarrow> length t - b_size b | Some l \<Rightarrow> min (length t - b_size b) l) t)"

definition counting_holds :: "counting_buffer \<Rightarrow> string \<Rightarrow> bool" where
  "counting_holds b t \<longleftrightarrow> tail_in b t \<and> b_capacity b = buffer_size \<and> counting_total b = length t"

lemma tail_in_filled:
  assumes "tail_in b t" "b_size b + length s \<le> b_capacity b"
  shows "tail_in (filled b s) (t @ s)"
  using assms by (auto simp: tail_in_def filled_def)

lemma tail_in_clear: "tail_in b t \<Longrightarrow> tail_in (buffer_clear b) t"
  by (simp add: tail_in_def buffer_clear_def)

lemma take_take_drop: "take n t @ take m (drop n t) = take (n + m) t"
  by (metis take_add)

lemma iterator_flush_holds:
  assumes "iterator_holds lim b t"
  shows "iterator_holds lim (iterator_flush b) t" "b_size (iterator_flush b) = 0"
proof -
  have size: "b_size b \<le> length t" using assms by (simp add: iterator_holds_def tail_in_def)
  then obtain k where k: "length t - b_size b = k" "k + b_size b = length t" by simp
  have part: "take n (b_ptr b) = map Some (take n (drop k t))" if "n \<le> b_size b" for n
  proof -
    have "take (b_size b) (b_ptr b) = map Some (drop k t)" using assms k by (simp add: iterator_holds_def tail_in_def)
    then have "take n (take (b_size b) (b_ptr b)) = map Some (take n (drop k t))" by (simp only: take_map)
    then show ?thesis using that by (simp add: min_def)
  qed
  show "b_size (iterator_flush b) = 0"
    by (simp add: iterator_flush_def buffer_clear_def Let_def split: prod.split)
  show "iterator_holds lim (iterator_flush b) t"
  proof (cases lim)
    case None
    have "take k t @ take (b_size b) (drop k t) = t"
      using take_take_drop [of k t "b_size b"] size k by simp
    with None show ?thesis
      using assms part [of "b_size b"] size k
      by (simp add: iterator_holds_def iterator_flush_def traits_limit_def buffer_clear_def tail_in_def
          flip: map_append)
  next
    case (Some l)
    obtain n where n: "n = min (b_size b) (l - k)" by blast
    have "take n (b_ptr b) = map Some (take n (drop k t))" using part n by simp
    moreover have "take (min k l) t @ take n (drop k t) = take (min (length t) l) t"
    proof (cases "l \<le> k")
      case True
      then show ?thesis using n size k by (simp add: min_def)
    next
      case False
      then have "take (min k l) t @ take n (drop k t) = take (k + n) t" by (simp add: take_take_drop min_def)
      also have "k + n = min (length t) l" using False n k size by (auto simp: min_def)
      finally show ?thesis .
    qed
    ultimately have out: "map Some (take (min k l) t) @ take n (b_ptr b) = map Some (take (min (length t) l) t)"
      by (simp flip: map_append)
    have "traits_limit (Some l) k (b_size b) = (n, length t)"
      using n k by (auto simp: traits_limit_def Let_def)
    then show ?thesis
      using Some assms size k out
      by (simp add: iterator_holds_def iterator_flush_def buffer_clear_def tail_in_def)
  qed
qed

lemma filled_fields [simp]:
  "b_size (filled b s) = b_size b + length s" "b_capacity (filled b s) = b_capacity b"
  "i_out (filled ib s) = i_out ib" "i_count (filled ib s) = i_count ib" "i_limit (filled ib s) = i_limit ib"
  "c_count (filled cb s) = c_count cb"
  by (simp_all add: filled_def)

lemma iterator_grow_holds:
  assumes "iterator_holds lim b t"
  shows "yields {} (\<lambda>b'. iterator_holds lim b' t \<and> b_size b' < b_capacity b') (iterator_grow n b)"
proof (cases "b_size b = buffer_size")
  case True
  have "b_capacity (iterator_flush b) = buffer_size"
    using iterator_flush_holds(1) [OF assms] by (simp add: iterator_holds_def)
  then show ?thesis using True iterator_flush_holds [OF assms] by (simp add: iterator_grow_def buffer_size_def)
next
  case False
  moreover have "b_size b \<le> b_capacity b" "b_capacity b = buffer_size"
    using assms by (simp_all add: iterator_holds_def tail_in_def)
  ultimately show ?thesis using assms by (simp add: iterator_grow_def)
qed

interpretation iterator: growable iterator_grow "iterator_holds lim" "{}" for lim
proof unfold_locales
  fix b t n s
  assume b: "iterator_holds lim b t"
  show "b_size b \<le> b_capacity b \<and> b_capacity b \<le> length (b_ptr b)"
    using b by (simp add: iterator_holds_def tail_in_def)
  show "yields {} (\<lambda>b'. iterator_holds lim b' t \<and> b_size b' < b_capacity b') (iterator_grow n b)"
    by (rule iterator_grow_holds [OF b])
  show "iterator_holds lim (filled b s) (t @ s)" if "b_size b + length s \<le> b_capacity b"
  proof -
    have "tail_in (filled b s) (t @ s)" using b that by (auto simp: iterator_holds_def intro!: tail_in_filled)
    moreover have "b_size b \<le> length t" using b by (simp add: iterator_holds_def tail_in_def)
    ultimately show ?thesis using b by (auto simp: iterator_holds_def split: option.split)
  qed
qed

interpretation counting: growable counting_grow counting_holds "{}"
proof unfold_locales
  fix b t n s
  assume b: "counting_holds b t"
  then have le: "b_size b \<le> length t" by (simp add: counting_holds_def tail_in_def)
  show "b_size b \<le> b_capacity b \<and> b_capacity b \<le> length (b_ptr b)"
    using b by (simp add: counting_holds_def tail_in_def)
  show "yields {} (\<lambda>b'. counting_holds b' t \<and> b_size b' < b_capacity b') (counting_grow n b)"
    using b le by (auto simp: counting_holds_def counting_grow_def counting_total_def buffer_clear_def tail_in_def buffer_size_def)
  show "counting_holds (filled b s) (t @ s)" if "b_size b + length s \<le> b_capacity b"
    using b that by (auto simp: counting_holds_def counting_total_def intro!: tail_in_filled)
qed


section \<open>The caller's array\<close>

text \<open>
  \<open>iterator_buffer<T*, T, fixed_buffer_traits>\<close>: it writes into the caller's array as long as
  there is room and from then on into an array of its own, which is thrown away. \<open>p_at_out\<close> is
  \<open>data() == out_\<close>; then \<open>b_ptr\<close> is the caller's array. \<open>p_array\<close> is the caller's array after the
  switch, \<open>p_pos\<close> is \<open>out_\<close>, as a distance from the start of that array.
\<close>

record pointer_buffer = buffer +
  p_at_out :: bool
  p_array :: "char option list"
  p_pos :: nat
  p_count :: nat
  p_limit :: nat

definition pointer_flush :: "pointer_buffer \<Rightarrow> pointer_buffer" where
  "pointer_flush b =
     (let (n, c) = traits_limit (Some (p_limit b)) (p_count b) (b_size b);
          b1 = b\<lparr>p_count := c\<rparr>;
          b2 = (if p_at_out b1 then
                  set_data (replicate buffer_size None) buffer_size
                    (b1\<lparr>p_pos := p_pos b1 + n, p_array := b_ptr b1, p_at_out := False\<rparr>)
                else b1)
      in buffer_clear b2)"

definition pointer_grow :: "pointer_buffer grow_fun" where
  "pointer_grow n b = (if b_size b = b_capacity b then Inr (pointer_flush b) else Inr b)"

definition pointer_new :: "char option list \<Rightarrow> nat \<Rightarrow> pointer_buffer" where
  "pointer_new arr n =
     \<lparr>b_ptr = arr, b_size = 0, b_capacity = n, p_at_out = True, p_array = [], p_pos = 0, p_count = 0, p_limit = n\<rparr>"

definition pointer_total :: "pointer_buffer \<Rightarrow> nat" where
  "pointer_total b = p_count b + b_size b"

definition pointer_holds :: "char option list \<Rightarrow> nat \<Rightarrow> pointer_buffer \<Rightarrow> string \<Rightarrow> bool" where
  "pointer_holds arr l b t \<longleftrightarrow> l \<le> length arr \<and> p_limit b = l \<and> pointer_total b = length t \<and>
     (if p_at_out b then b_size b = length t \<and> length t \<le> l \<and> b_capacity b = l \<and> p_pos b = 0 \<and>
        b_ptr b = map Some t @ drop (length t) arr
      else l \<le> p_count b \<and> b_size b \<le> buffer_size \<and> b_capacity b = buffer_size \<and> length (b_ptr b) = buffer_size \<and>
        p_pos b = l \<and> p_array b = map Some (take l t) @ drop l arr)"

text \<open>\<open>out()\<close>: the place behind the last character, and the caller's array then.\<close>

definition pointer_out :: "pointer_buffer \<Rightarrow> nat \<times> char option list" where
  "pointer_out b = (let b1 = pointer_flush b in (p_pos b1, p_array b1))"

lemma pointer_grow_holds:
  assumes "pointer_holds arr l b t" "b_capacity b < n"
  shows "yields {} (\<lambda>b'. pointer_holds arr l b' t \<and> b_size b' < b_capacity b') (pointer_grow n b)"
  using assms(1)
  by (auto simp: pointer_holds_def pointer_grow_def pointer_flush_def traits_limit_def set_data_def
      buffer_clear_def pointer_total_def buffer_size_def Let_def)

interpretation pointer: growable pointer_grow "pointer_holds arr l" "{}" for arr l
proof unfold_locales
  fix b t n s
  assume b: "pointer_holds arr l b t"
  show "b_size b \<le> b_capacity b \<and> b_capacity b \<le> length (b_ptr b)"
    using b by (auto simp: pointer_holds_def split: if_splits)
  show "yields {} (\<lambda>b'. pointer_holds arr l b' t \<and> b_size b' < b_capacity b') (pointer_grow n b)" if "b_capacity b < n"
    by (rule pointer_grow_holds [OF b that])
  show "pointer_holds arr l (filled b s) (t @ s)" if "b_size b + length s \<le> b_capacity b"
    using b that by (auto simp: pointer_holds_def filled_def pointer_total_def add.commute split: if_splits)
qed

lemma pointer_out_holds:
  assumes "pointer_holds arr l b t"
  shows "pointer_out b = (min (length t) l, map Some (take l t) @ drop (min (length t) l) arr)"
proof (cases "p_at_out b")
  case True
  then show ?thesis
    using assms by (auto simp: pointer_out_def pointer_holds_def pointer_flush_def traits_limit_def set_data_def
        buffer_clear_def pointer_total_def min_def Let_def)
next
  case False
  moreover from this have "l \<le> length t" using assms by (auto simp: pointer_holds_def pointer_total_def)
  ultimately show ?thesis
    using assms by (simp add: pointer_out_def pointer_holds_def pointer_flush_def traits_limit_def buffer_clear_def
        min_def Let_def)
qed


section \<open>Buffers that allocate\<close>

text \<open>
  The allocator is a parameter: the largest size it admits and the sizes it can serve.
  \<open>max_size\<close> of the standard allocator is at most \<open>2 ^ 63 - 1\<close>, so the sums below do not wrap.
\<close>

record allocator =
  max_size :: nat
  serves :: "nat \<Rightarrow> bool"

definition alloc_errors :: "allocator \<Rightarrow> buffer_error set" where
  "alloc_errors al = {e. e = Bad_alloc \<and> (\<exists>n. \<not> serves al n)}"

text \<open>
  \<open>basic_memory_buffer\<close>. \<open>m_heap\<close>: the data is not in \<open>store_\<close>; then \<open>m_store\<close> is that array.
  \<open>m_blocks\<close> belongs to \<open>alloc_\<close>: the sizes of the blocks it has handed out and not got back.
\<close>

record memory_buffer = buffer +
  m_heap :: bool
  m_store :: "char option list"
  m_blocks :: "nat multiset"

definition inline_buffer_size :: nat where
  "inline_buffer_size = 500"

definition memory_new :: memory_buffer where
  "memory_new = \<lparr>b_ptr = replicate inline_buffer_size None, b_size = 0, b_capacity = inline_buffer_size,
     m_heap = False, m_store = [], m_blocks = {#}\<rparr>"

text \<open>Giving back a block of another size than was asked for is undefined.\<close>

definition release :: "nat \<Rightarrow> memory_buffer \<Rightarrow> buffer_error + memory_buffer" where
  "release n b = (if n \<in># m_blocks b then Inr (b\<lparr>m_blocks := m_blocks b - {#n#}\<rparr>) else Inl Bad_free)"

definition deallocate :: "memory_buffer \<Rightarrow> buffer_error + memory_buffer" where
  "deallocate b = (if m_heap b then release (b_capacity b) b else Inr b)"

definition memory_capacity :: "nat \<Rightarrow> nat \<Rightarrow> nat \<Rightarrow> nat" where
  "memory_capacity mx old_capacity sz =
     (let new_capacity = old_capacity + old_capacity div 2
      in if sz > new_capacity then sz
         else if new_capacity > mx then (if sz > mx then sz else mx)
         else new_capacity)"

definition memory_grow :: "allocator \<Rightarrow> memory_buffer grow_fun" where
  "memory_grow al sz b =
     (let old_capacity = b_capacity b;
          new_capacity = memory_capacity (max_size al) old_capacity sz
      in if \<not> serves al new_capacity then Inl Bad_alloc
         else if \<not> (b_size b \<le> new_capacity \<and> b_size b \<le> length (b_ptr b)) then Inl Out_of_bounds
         else
           let b1 = b\<lparr>m_blocks := add_mset new_capacity (m_blocks b)\<rparr>;
               new_data = take (b_size b) (b_ptr b) @ replicate (new_capacity - b_size b) None;
               b2 = set_data new_data new_capacity
                      (b1\<lparr>m_heap := True, m_store := (if m_heap b then m_store b else b_ptr b)\<rparr>)
           in if m_heap b then release old_capacity b2 else Inr b2)"

text \<open>
  \<open>move\<close>, the move constructor and the move assignment. The last step of \<open>move\<close> is \<open>resize\<close>.
  The pair is the target and the source afterwards.
\<close>

definition inline_store :: "memory_buffer \<Rightarrow> char option list" where
  "inline_store b = (if m_heap b then m_store b else b_ptr b)"

definition memory_move ::
  "allocator \<Rightarrow> memory_buffer \<Rightarrow> memory_buffer \<Rightarrow> buffer_error + (memory_buffer \<times> memory_buffer)" where
  "memory_move al dst src =
     (let sz = b_size src;
          cap = b_capacity src;
          d1 = dst\<lparr>m_blocks := m_blocks src\<rparr>;
          s1 = src\<lparr>m_blocks := {#}\<rparr>;
          (d2, s2) =
            (if \<not> m_heap src then
               (set_data (take sz (b_ptr src) @ drop sz (inline_store dst)) cap
                  (d1\<lparr>m_heap := False, m_store := []\<rparr>), s1)
             else
               (set_data (b_ptr src) cap (d1\<lparr>m_heap := True, m_store := inline_store dst\<rparr>),
                buffer_clear (set_data (inline_store src) 0 (s1\<lparr>m_heap := False, m_store := []\<rparr>))))
      in bind_sum (try_resize (memory_grow al) sz d2) (\<lambda>d3. Inr (d3, s2)))"

definition memory_move_new :: "allocator \<Rightarrow> memory_buffer \<Rightarrow> buffer_error + (memory_buffer \<times> memory_buffer)" where
  "memory_move_new al src =
     memory_move al \<lparr>b_ptr = replicate inline_buffer_size None, b_size = 0, b_capacity = 0,
       m_heap = False, m_store = [], m_blocks = {#}\<rparr> src"

definition memory_move_assign ::
  "allocator \<Rightarrow> memory_buffer \<Rightarrow> memory_buffer \<Rightarrow> buffer_error + (memory_buffer \<times> memory_buffer)" where
  "memory_move_assign al dst src = bind_sum (deallocate dst) (\<lambda>d. memory_move al d src)"

definition memory_holds :: "memory_buffer \<Rightarrow> string \<Rightarrow> bool" where
  "memory_holds b t \<longleftrightarrow> b_size b = length t \<and> length t \<le> b_capacity b \<and> take (length t) (b_ptr b) = map Some t \<and>
     length (inline_store b) = inline_buffer_size \<and>
     (if m_heap b then length (b_ptr b) = b_capacity b \<and> m_blocks b = {#b_capacity b#}
      else b_capacity b \<le> inline_buffer_size \<and> m_blocks b = {#})"

lemma memory_capacity_enough: "sz \<le> memory_capacity mx c sz"
  by (simp add: memory_capacity_def Let_def)

lemma memory_grow_holds:
  assumes "memory_holds b t" "b_capacity b < n"
  shows "yields (alloc_errors al) (\<lambda>b'. memory_holds b' t \<and> b_size b' < b_capacity b') (memory_grow al n b)"
proof -
  obtain c where c: "memory_capacity (max_size al) (b_capacity b) n = c" "n \<le> c"
    using memory_capacity_enough by blast
  have len: "length t \<le> length (b_ptr b)" using assms(1) by (auto simp: memory_holds_def inline_store_def split: if_splits)
  show ?thesis
    using assms c len
    by (auto simp: memory_holds_def memory_grow_def release_def set_data_def inline_store_def alloc_errors_def Let_def)
qed

interpretation memory: growable "memory_grow al" memory_holds "alloc_errors al" for al
proof unfold_locales
  fix b t n s
  assume b: "memory_holds b t"
  show room: "b_size b \<le> b_capacity b \<and> b_capacity b \<le> length (b_ptr b)"
    using b by (auto simp: memory_holds_def inline_store_def split: if_splits)
  show "yields (alloc_errors al) (\<lambda>b'. memory_holds b' t \<and> b_size b' < b_capacity b') (memory_grow al n b)" if "b_capacity b < n"
    by (rule memory_grow_holds [OF b that])
  show "memory_holds (filled b s) (t @ s)" if "b_size b + length s \<le> b_capacity b"
    using b that room by (auto simp: memory_holds_def filled_def inline_store_def)
qed

text \<open>
  A move leaves the text in the target. The source is empty if it had a block; if the text was
  in \<open>store_\<close>, the source keeps it. Every block has one owner, and the old block of the target
  is given back.
\<close>

lemma memory_move_holds:
  assumes "memory_holds src t" "length (inline_store dst) = inline_buffer_size" 
  shows "\<exists>d s. memory_move al dst src = Inr (d, s) \<and> memory_holds d t \<and> memory_holds s (if m_heap src then [] else t)"
  using assms
  by (auto simp: memory_move_def memory_holds_def set_data_def buffer_clear_def inline_store_def try_resize_def
      try_reserve_def Let_def)

lemma memory_assign_holds:
  assumes "memory_holds src t" "memory_holds dst u"
  shows "\<exists>d s. memory_move_assign al dst src = Inr (d, s) \<and> memory_holds d t \<and> memory_holds s (if m_heap src then [] else t)"
proof -
  obtain d where "deallocate dst = Inr d" "length (inline_store d) = inline_buffer_size"
    using assms(2) by (cases "m_heap dst") (auto simp: memory_holds_def deallocate_def release_def inline_store_def)
  with memory_move_holds [OF assms(1)] show ?thesis by (simp add: memory_move_assign_def)
qed

lemma memory_deallocate_holds:
  "memory_holds b t \<Longrightarrow> \<exists>b'. deallocate b = Inr b' \<and> m_blocks b' = {#}"
  by (auto simp: memory_holds_def deallocate_def release_def)


section \<open>A contiguous container\<close>

text \<open>
  \<open>iterator_buffer\<close> for \<open>back_insert_iterator\<close> of a string or vector: the array is the one of the
  container, which is resized to the capacity asked for; new elements are zero. So the container
  is \<open>b_ptr\<close> as a whole. Before the first \<open>grow\<close> the pointer is not set and not used.
\<close>

definition container_grow :: "allocator \<Rightarrow> buffer grow_fun" where
  "container_grow al n b =
     (if \<not> serves al n then Inl Bad_alloc
      else Inr (set_data (take n (b_ptr b) @ replicate (n - length (b_ptr b)) (Some (CHR 0x00))) n b))"

definition container_new :: "string \<Rightarrow> buffer" where
  "container_new c = \<lparr>b_ptr = map Some c, b_size = length c, b_capacity = length c\<rparr>"

definition container_holds :: "string \<Rightarrow> buffer \<Rightarrow> string \<Rightarrow> bool" where
  "container_holds c b t \<longleftrightarrow> b_size b = length (c @ t) \<and> b_size b \<le> b_capacity b \<and>
     b_ptr b = map Some (c @ t) @ replicate (b_capacity b - b_size b) (Some (CHR 0x00))"

interpretation container: growable "container_grow al" "container_holds c" "alloc_errors al" for al c
proof unfold_locales
  fix b t n s
  assume b: "container_holds c b t"
  show "b_size b \<le> b_capacity b \<and> b_capacity b \<le> length (b_ptr b)"
    using b by (simp add: container_holds_def)
  show "yields (alloc_errors al) (\<lambda>b'. container_holds c b' t \<and> b_size b' < b_capacity b') (container_grow al n b)" if "b_capacity b < n"
    using b that by (auto simp: container_holds_def container_grow_def set_data_def alloc_errors_def simp flip: replicate_add)
  show "container_holds c (filled b s) (t @ s)" if "b_size b + length s \<le> b_capacity b"
    using b that by (auto simp: container_holds_def filled_def add_ac)
qed

text \<open>How far the container reaches: as far as anything was written or reserved.\<close>

fun reach :: "nat \<Rightarrow> nat \<Rightarrow> buffer_write list \<Rightarrow> nat" where
  "reach cap n [] = cap"
| "reach cap n (Reserve k # ws) = reach (max cap (n + k)) n ws"
| "reach cap n (w # ws) = reach (max cap (n + length (write_text w))) (n + length (write_text w)) ws"


lemma container_reserve_capacity:
  "try_reserve (container_grow al) n b = Inr b1 \<Longrightarrow> b_size b1 = b_size b \<and> b_capacity b1 = max (b_capacity b) n"
  by (auto simp: try_reserve_def container_grow_def set_data_def split: if_splits)

lemma container_append_capacity:
  assumes "buffer_append (container_grow al) s b = Some (Inr b')" "b_size b \<le> b_capacity b"
  shows "b_size b' = b_size b + length s \<and> b_capacity b' = max (b_capacity b) (b_size b + length s)"
proof (cases "s = []")
  case True
  then show ?thesis using assms by (simp add: buffer_append.simps max_def)
next
  case False
  then obtain b1 where b1: "try_reserve (container_grow al) (b_size b + length s) b = Inr b1"
    using assms(1) by (cases "try_reserve (container_grow al) (b_size b + length s) b") (auto simp: buffer_append.simps [of _ s])
  then have "\<not> b_capacity b1 - b_size b1 < length s" using container_reserve_capacity [OF b1] by auto
  then show ?thesis
    using assms(1) b1 container_reserve_capacity [OF b1] False
    by (cases "copy_in (b_size b1) s (b_ptr b1)")
      (auto simp: buffer_append.simps [of _ s] buffer_append.simps [of _ "[]"] Let_def)
qed

lemma container_write_capacity:
  assumes "do_write (container_grow al) w b = Some (Inr b')" "b_size b \<le> b_capacity b"
  shows "b_size b' = b_size b + length (write_text w) \<and>
    b_capacity b' = max (b_capacity b) (b_size b + (case w of Reserve k \<Rightarrow> k | _ \<Rightarrow> length (write_text w)))"
proof (cases w)
  case (Assign c)
  then obtain b1 where b1: "try_reserve (container_grow al) (b_size b + 1) b = Inr b1"
    "b' = b1\<lparr>b_ptr := b_ptr b', b_size := b_size b1 + 1\<rparr>"
    using assms(1) by (auto simp: push_back_def)
  show ?thesis using container_reserve_capacity [OF b1(1)] Assign by (subst (1 2) b1(2)) simp
next
  case (Copy s)
  then show ?thesis using container_append_capacity assms by simp
next
  case (Reserve k)
  then show ?thesis using container_reserve_capacity assms(1) by (simp add: appender_reserve_def)
next
  case (Direct s)
  show ?thesis
  proof (cases "b_capacity b < b_size b + length s")
    case True
    then show ?thesis using Direct assms container_append_capacity [of al s b b'] by (simp add: to_pointer_def)
  next
    case False
    then show ?thesis
      using Direct assms(1) by (auto simp: to_pointer_def try_resize_def try_reserve_def)
  qed
qed

lemma reach_Cons:
  "reach cap n (w # ws) =
    reach (max cap (n + (case w of Reserve k \<Rightarrow> k | _ \<Rightarrow> length (write_text w)))) (n + length (write_text w)) ws"
  by (cases w) simp_all

lemma container_capacity:
  "container_holds c b t \<Longrightarrow> do_writes (container_grow al) ws b = Some (Inr b') \<Longrightarrow>
   b_capacity b' = reach (b_capacity b) (b_size b) ws"
proof (induction ws arbitrary: b t)
  case (Cons w ws)
  obtain b1 where b1: "do_write (container_grow al) w b = Some (Inr b1)" "do_writes (container_grow al) ws b1 = Some (Inr b')"
    using Cons.prems(2) by (auto split: option.splits sum.splits)
  have "container_holds c b1 (t @ write_text w)"
    using container.write_holds [OF Cons.prems(1), of al w] b1(1) by simp
  from Cons.IH [OF this b1(2)] show ?case
    using container_write_capacity [OF b1(1)] container.room [OF Cons.prems(1)] by (simp add: reach_Cons)
qed simp

section \<open>Formatting into a buffer\<close>

text \<open>
  The functions that make a buffer and hand it to \<open>detail::vformat_to\<close>. The text is the one of
  \<open>vformat_to\<close>; \<open>chop\<close> is how the writers divide it into writes, of which only the order matters
  here: \<open>chops chop\<close> says that the writes make up the text.
\<close>

definition chops :: "(string \<Rightarrow> buffer_write list) \<Rightarrow> bool" where
  "chops chop \<longleftrightarrow> (\<forall>t. written_text (chop t) = t)"

definition buffer_message :: "buffer_error \<Rightarrow> string" where
  "buffer_message e = (case e of Bad_alloc \<Rightarrow> ''std::bad_alloc'' | _ \<Rightarrow> assertion_failed)"

definition format_into ::
  "'a buffer_scheme grow_fun \<Rightarrow> 'a buffer_scheme \<Rightarrow> (string \<Rightarrow> buffer_write list) \<Rightarrow> ('f, 'c) format_env \<Rightarrow> string \<Rightarrow>
   (string + 'a buffer_scheme) option" where
  "format_into grow b chop env fmt =
     (case vformat_to env [] fmt of
        None \<Rightarrow> None
      | Some (Inl e) \<Rightarrow> Some (Inl e)
      | Some (Inr t) \<Rightarrow> map_option (map_sum buffer_message (\<lambda>b. b)) (do_writes grow (chop t) b))"

definition vformat_to_n ::
  "(string \<Rightarrow> buffer_write list) \<Rightarrow> ('f, 'c) format_env \<Rightarrow> nat \<Rightarrow> string \<Rightarrow> (string + (char option list \<times> nat)) option" where
  "vformat_to_n chop env n fmt =
     map_option (\<lambda>r. bind_sum r (\<lambda>b. let b1 = iterator_flush b in Inr (i_out b1, iterator_total b1)))
       (format_into iterator_grow (iterator_new (Some n)) chop env fmt)"

definition vformat_to_n_pointer ::
  "(string \<Rightarrow> buffer_write list) \<Rightarrow> ('f, 'c) format_env \<Rightarrow> char option list \<Rightarrow> nat \<Rightarrow> string \<Rightarrow>
   (string + (nat \<times> char option list \<times> nat)) option" where
  "vformat_to_n_pointer chop env arr n fmt =
     map_option (\<lambda>r. bind_sum r (\<lambda>b. let b1 = pointer_flush b in Inr (p_pos b1, p_array b1, pointer_total b1)))
       (format_into pointer_grow (pointer_new arr n) chop env fmt)"

definition formatted_size ::
  "(string \<Rightarrow> buffer_write list) \<Rightarrow> ('f, 'c) format_env \<Rightarrow> string \<Rightarrow> (string + nat) option" where
  "formatted_size chop env fmt =
     map_option (\<lambda>r. bind_sum r (\<lambda>b. Inr (counting_total b))) (format_into counting_grow counting_new chop env fmt)"

text \<open>\<open>vformat\<close>: a memory buffer, its content as a string, and its destructor.\<close>

definition buffer_to_string :: "'a buffer_scheme \<Rightarrow> char option list" where
  "buffer_to_string b = take (b_size b) (b_ptr b)"

definition vformat_string ::
  "allocator \<Rightarrow> (string \<Rightarrow> buffer_write list) \<Rightarrow> ('f, 'c) format_env \<Rightarrow> string \<Rightarrow> (string + char option list) option" where
  "vformat_string al chop env fmt =
     map_option (\<lambda>r. bind_sum r (\<lambda>b. bind_sum (map_sum buffer_message (\<lambda>b. b) (deallocate b)) (\<lambda>_. Inr (buffer_to_string b))))
       (format_into (memory_grow al) memory_new chop env fmt)"

definition vformat_to_container ::
  "allocator \<Rightarrow> (string \<Rightarrow> buffer_write list) \<Rightarrow> ('f, 'c) format_env \<Rightarrow> string \<Rightarrow> string \<Rightarrow> (string + char option list) option" where
  "vformat_to_container al chop env c fmt =
     map_option (\<lambda>r. bind_sum r (\<lambda>b. Inr (b_ptr b))) (format_into (container_grow al) (container_new c) chop env fmt)"

lemma new_holds:
  "iterator_holds lim (iterator_new lim) []" "counting_holds counting_new []" "memory_holds memory_new []"
  "container_holds c (container_new c) []" "l \<le> length arr \<Longrightarrow> pointer_holds arr l (pointer_new arr l) []"
  by (simp_all add: iterator_holds_def iterator_new_def tail_in_def counting_holds_def counting_new_def
      counting_total_def memory_holds_def memory_new_def inline_store_def container_holds_def container_new_def
      pointer_holds_def pointer_new_def pointer_total_def split: option.split)


lemma format_into_text:
  assumes "vformat_to env [] fmt = Some (Inr t)" "do_writes grow (chop t) b = Some r"
  shows "format_into grow b chop env fmt = Some (map_sum buffer_message (\<lambda>b. b) r)"
  using assms by (simp add: format_into_def)

lemma iterator_text:
  assumes "chops chop" "vformat_to env [] fmt = Some (Inr t)"
  shows "\<exists>b. format_into iterator_grow (iterator_new lim) chop env fmt = Some (Inr b) \<and> iterator_holds lim b t"
proof -
  obtain r where r: "do_writes iterator_grow (chop t) (iterator_new lim) = Some r"
    "yields {} (\<lambda>b. iterator_holds lim b t) r"
    using iterator.writes_hold [OF new_holds(1), of "chop t"] assms(1) by (auto simp: chops_def)
  then show ?thesis using format_into_text [where chop = chop, OF assms(2) r(1)] by (cases r) auto
qed

text \<open>
  C17. \<open>format_to_n\<close> writes exactly the first \<open>n\<close> characters of the text, through an iterator and
  into a plain array alike, however the writers divide it: nothing behind them is touched in the
  caller's array, the position returned is behind the last character written, and the size
  returned is the one of the whole text.
\<close>

theorem format_to_n_spec:
  assumes "chops chop" "vformat_to env [] fmt = Some (Inr t)" "n \<le> length arr"
  shows "vformat_to_n chop env n fmt = Some (Inr (map Some (take n t), length t)) \<and>
    vformat_to_n_pointer chop env arr n fmt =
      Some (Inr (min (length t) n, map Some (take n t) @ drop (min (length t) n) arr, length t))"
proof
  obtain b where b: "format_into iterator_grow (iterator_new (Some n)) chop env fmt = Some (Inr b)"
    "iterator_holds (Some n) b t" using iterator_text [OF assms(1,2)] by blast
  from iterator_flush_holds [OF b(2)] have "i_out (iterator_flush b) = map Some (take n t)"
    "iterator_total (iterator_flush b) = length t"
    by (simp_all add: iterator_holds_def iterator_total_def min_def)
  then show "vformat_to_n chop env n fmt = Some (Inr (map Some (take n t), length t))"
    using b(1) by (simp add: vformat_to_n_def)
next
  obtain r where r: "do_writes pointer_grow (chop t) (pointer_new arr n) = Some r"
    "yields {} (\<lambda>b. pointer_holds arr n b t) r"
    using pointer.writes_hold [OF new_holds(5) [OF assms(3)], of "chop t"] assms(1) by (auto simp: chops_def)
  then obtain b where b: "format_into pointer_grow (pointer_new arr n) chop env fmt = Some (Inr b)" "pointer_holds arr n b t"
    using format_into_text [where chop = chop, OF assms(2) r(1)] by (cases r) auto
  have "pointer_total (pointer_flush b) = length t"
    using b(2) by (simp add: pointer_holds_def pointer_flush_def traits_limit_def pointer_total_def set_data_def buffer_clear_def Let_def)
  with b(1) pointer_out_holds [OF b(2)]
  show "vformat_to_n_pointer chop env arr n fmt =
      Some (Inr (min (length t) n, map Some (take n t) @ drop (min (length t) n) arr, length t))"
    by (simp add: vformat_to_n_pointer_def pointer_out_def Let_def)
qed


text \<open>
  Formatting at the end of a container leaves what it held, then the text. If a writer
  reserves more than it writes, zero characters stay at the end, up to the furthest reservation.
\<close>

theorem container_text_spec:
  assumes "chops chop" "vformat_to env [] fmt = Some (Inr t)" "\<forall>n. serves al n"
  shows "vformat_to_container al chop env c fmt =
    Some (Inr (map Some (c @ t) @
      replicate (reach (length c) (length c) (chop t) - length (c @ t)) (Some (CHR 0x00))))"
proof -
  obtain r where r: "do_writes (container_grow al) (chop t) (container_new c) = Some r"
    "yields (alloc_errors al) (\<lambda>b. container_holds c b t) r"
    using container.writes_hold [where ws = "chop t" and al = al, OF new_holds(4) [of c]] assms(1) by (auto simp: chops_def)
  then obtain b where b: "r = Inr b" "container_holds c b t" using assms(3) by (cases r) (auto simp: alloc_errors_def)
  have "b_capacity b = reach (length c) (length c) (chop t)"
    using container_capacity [where ws = "chop t" and al = al, OF new_holds(4) [of c]] r(1) b(1) by (simp add: container_new_def)
  then show ?thesis
    using b format_into_text [where chop = chop, OF assms(2) r(1)] by (simp add: vformat_to_container_def container_holds_def)
qed


text \<open>What is written to a buffer later, and its destructor then.\<close>

lemma memory_written_freed:
  assumes "memory_holds b t"
  shows "\<exists>r. do_writes (memory_grow al) ws b = Some r \<and>
    yields (alloc_errors al) (\<lambda>b'. buffer_to_string b' = map Some (t @ written_text ws) \<and>
      (\<exists>x. deallocate b' = Inr x \<and> m_blocks x = {#})) r"
proof -
  have "yields (alloc_errors al) (\<lambda>b'. buffer_to_string b' = map Some (t @ written_text ws) \<and>
      (\<exists>x. deallocate b' = Inr x \<and> m_blocks x = {#})) r"
    if "yields (alloc_errors al) (\<lambda>b'. memory_holds b' (t @ written_text ws)) r" for r
    using that
  proof (rule yields_mono)
    fix b' assume b': "memory_holds b' (t @ written_text ws)"
    then show "buffer_to_string b' = map Some (t @ written_text ws) \<and> (\<exists>x. deallocate b' = Inr x \<and> m_blocks x = {#})"
      using memory_deallocate_holds [OF b'] by (simp add: buffer_to_string_def memory_holds_def)
  qed
  then show ?thesis using memory.writes_hold [OF assms, of al ws] by blast
qed



definition hi_env :: "(unit, unit) format_env" where
  "hi_env = \<lparr>env_args = make_format_args [(None, \<lparr>arg_ty = string_type, arg_val = V_string ''hi''\<rparr>)],
     env_loc = \<lparr>grouping = [], thousands_sep = []\<rparr>, env_global_loc = \<lparr>grouping = [], thousands_sep = []\<rparr>,
     env_fuel = 200, env_float = (\<lambda>v sp. Done []), env_custom = (\<lambda>c ctx. Inr (0, 0, []))\<rparr>"

lemma hi_text: "vformat_to hi_env [] ''{}'' = Some (Inr ''hi'')"
proof -
  have "get_arg (get_arg_at (env_args hi_env) 0) = Inr \<lparr>arg_ty = string_type, arg_val = V_string ''hi''\<rparr>"
    by code_simp
  then show ?thesis by (simp add: vformat_to_def default_write_def emit_def Let_def)
qed

lemma direct_chops: "chops (\<lambda>t. [Reserve 4, Direct t])"
  by (simp add: chops_def)

theorem format_to_n_spec_witness:
  "vformat_to_n (\<lambda>t. [Reserve 4, Direct t]) hi_env 1 ''{}'' = Some (Inr ([Some (CHR ''h'')], 2)) \<and>
   vformat_to_n_pointer (\<lambda>t. [Reserve 4, Direct t]) hi_env [None, None, None] 1 ''{}'' =
     Some (Inr (1, [Some (CHR ''h''), None, None], 2))"
  using format_to_n_spec [OF direct_chops hi_text, of 1 "[None, None, None]"] by simp


theorem container_text_spec_witness:
  "vformat_to_container \<lparr>max_size = 1000, serves = (\<lambda>n. True)\<rparr> (\<lambda>t. [Reserve 4, Direct t]) hi_env ''>'' ''{}'' =
     Some (Inr [Some (CHR ''>''), Some (CHR ''h''), Some (CHR ''i''), Some (CHR 0x00), Some (CHR 0x00)])"
  using container_text_spec [OF direct_chops hi_text, of "\<lparr>max_size = 1000, serves = (\<lambda>n. True)\<rparr>" "''>''"]
  by (simp add: numeral_eq_Suc)

end
