(* ===== verification/Fmt_Bigint.thy ===== *)
theory Fmt_Bigint
  imports Prelude "HOL-Library.Monad_Syntax"
begin

text \<open>
  \<open>detail::bigint\<close> of fmt/include/fmt/format.h: the large numbers of the floating-point
  fallback. A bigint is a list of bigits (digits to the base 2 ^ 32, the least significant one
  first) and an exponent, the number of zero bigits left out below. A bigit is a natural number;
  where the code computes in 32, 64 or 128 bits, the reduction is written out. \<open>None\<close> is a call
  that does not return: an assertion fails, a bigit out of range is accessed, or a loop does
  not end. The lemmas show what each operation does to the value, \<open>bvalue\<close>.
\<close>

unbundle bit_operations_syntax

section \<open>Numbers\<close>

record bigint =
  bigits :: "nat list"
  bexp :: nat

definition base :: nat where
  "base = 2 ^ 32"

fun digits_value :: "nat list \<Rightarrow> nat" where
  "digits_value [] = 0"
| "digits_value (x # xs) = x + base * digits_value xs"

definition bvalue :: "bigint \<Rightarrow> nat" where
  "bvalue b = base ^ bexp b * digits_value (bigits b)"

definition all_bigits :: "nat list \<Rightarrow> bool" where
  "all_bigits xs \<longleftrightarrow> (\<forall>x \<in> set xs. x < base)"

text \<open>No zero bigit at the top, unless it is the only one.\<close>

definition trimmed :: "bigint \<Rightarrow> bool" where
  "trimmed b \<longleftrightarrow> all_bigits (bigits b) \<and> bigits b \<noteq> [] \<and> (length (bigits b) = 1 \<or> last (bigits b) \<noteq> 0)"

lemma base_pos [simp]: "0 < base" "base \<noteq> 0" "1 < base" "Suc 0 < base" "1 \<le> base" "Suc 0 \<le> base"
  by (simp_all add: base_def)

lemma all_bigits_simps [simp]:
  "all_bigits []" "all_bigits (x # xs) \<longleftrightarrow> x < base \<and> all_bigits xs"
  "all_bigits (xs @ ys) \<longleftrightarrow> all_bigits xs \<and> all_bigits ys" "all_bigits (replicate n 0)"
  by (auto simp: all_bigits_def)

lemma digits_value_append [simp]:
  "digits_value (xs @ ys) = digits_value xs + base ^ length xs * digits_value ys"
  by (induction xs) (simp_all add: algebra_simps)

lemma digits_value_zeros [simp]: "digits_value (replicate n 0) = 0"
  by (induction n) simp_all

lemma digits_value_less: "all_bigits xs \<Longrightarrow> digits_value xs < base ^ length xs"
proof (induction xs)
  case (Cons x xs)
  then have "digits_value xs + 1 \<le> base ^ length xs" by simp
  then have "base * (digits_value xs + 1) \<le> base * base ^ length xs" by (rule mult_le_mono2)
  with Cons.prems show ?case by (simp add: algebra_simps)
qed simp

lemma digits_value_ge: "xs \<noteq> [] \<Longrightarrow> last xs \<noteq> 0 \<Longrightarrow> base ^ (length xs - 1) \<le> digits_value xs"
  by (cases xs rule: rev_cases) (auto simp: Suc_le_eq intro!: trans_le_add2)

lemma last_bigit_nonzero:
  assumes "all_bigits xs" "xs \<noteq> []"
  shows "last xs \<noteq> 0 \<longleftrightarrow> base ^ (length xs - 1) \<le> digits_value xs"
proof
  assume "base ^ (length xs - 1) \<le> digits_value xs"
  then show "last xs \<noteq> 0"
    using assms digits_value_less [of "butlast xs"] by (cases xs rule: rev_cases; cases "last xs = 0") auto
qed (use assms(2) digits_value_ge in blast)

text \<open>A number without zero bigits at the top, not zero.\<close>

definition proper :: "bigint \<Rightarrow> bool" where
  "proper b \<longleftrightarrow> all_bigits (bigits b) \<and> bigits b \<noteq> [] \<and> last (bigits b) \<noteq> 0"

lemma proper_trimmed: "proper b \<Longrightarrow> trimmed b"
  by (simp add: proper_def trimmed_def)

lemma trimmed_proper: "trimmed b \<Longrightarrow> 0 < bvalue b \<Longrightarrow> proper b"
  by (auto simp: trimmed_def proper_def bvalue_def length_Suc_conv)

lemma proper_pos: "proper b \<Longrightarrow> 0 < bvalue b"
  using digits_value_ge [of "bigits b"] by (simp add: proper_def bvalue_def) (metis base_pos(1) gr0I le_zero_eq power_not_zero less_not_refl2)

lemma div_base_less: "n div base \<noteq> 0 \<Longrightarrow> n div base < n"
  by (cases "n = 0") simp_all

section \<open>Operations\<close>

text \<open>\<open>subtract_bigits\<close>: the bigit and the borrow.\<close>

definition subtract_bigits :: "nat \<Rightarrow> nat \<Rightarrow> nat \<Rightarrow> nat \<times> nat" where
  "subtract_bigits x other borrow =
     (let result = (2 ^ 64 + x - other - borrow) mod 2 ^ 64
      in (result mod base, (result div 2 ^ 63) mod base))"

fun top_index :: "nat list \<Rightarrow> nat \<Rightarrow> nat" where
  "top_index xs 0 = 0"
| "top_index xs (Suc n) = (if xs ! Suc n = 0 then top_index xs n else Suc n)"

definition remove_leading_zeros :: "nat list \<Rightarrow> nat list" where
  "remove_leading_zeros xs = take (top_index xs (length xs - 1) + 1) xs"

definition num_bigits :: "bigint \<Rightarrow> nat" where
  "num_bigits b = length (bigits b) + bexp b"

text \<open>\<open>compare\<close> walks down from the top bigits, here the heads of the reversed lists.\<close>

fun compare_loop :: "nat list \<Rightarrow> nat list \<Rightarrow> int" where
  "compare_loop (x # xs) (y # ys) = (if x \<noteq> y then if x > y then 1 else -1 else compare_loop xs ys)"
| "compare_loop [] [] = 0"
| "compare_loop (x # xs) [] = 1"
| "compare_loop [] (y # ys) = -1"

definition compare :: "bigint \<Rightarrow> bigint \<Rightarrow> int" where
  "compare lhs rhs =
     (if num_bigits lhs \<noteq> num_bigits rhs then if num_bigits lhs > num_bigits rhs then 1 else -1
      else compare_loop (rev (bigits lhs)) (rev (bigits rhs)))"

text \<open>
  The loops of \<open>subtract_aligned\<close>, from the bigit on where the other number starts. The second
  one passes the same index again and again.
\<close>

partial_function (option) borrow_loop :: "nat \<Rightarrow> nat \<Rightarrow> nat option" where
  "borrow_loop x borrow =
     (if borrow > 0 then let (d, borrow1) = subtract_bigits x 0 borrow in borrow_loop d borrow1 else Some x)"

fun subtract_loop :: "nat list \<Rightarrow> nat list \<Rightarrow> nat \<Rightarrow> nat list option" where
  "subtract_loop (x # xs) (y # ys) borrow =
     (let (d, borrow1) = subtract_bigits x y borrow
      in do { r \<leftarrow> subtract_loop xs ys borrow1; Some (d # r) })"
| "subtract_loop [] (y # ys) borrow = None"
| "subtract_loop (x # xs) [] borrow =
     do { d \<leftarrow> borrow_loop x borrow; Some (d # xs) }"
| "subtract_loop [] [] borrow = (if borrow > 0 then None else Some [])"

definition subtract_aligned :: "bigint \<Rightarrow> bigint \<Rightarrow> bigint option" where
  "subtract_aligned b other =
     (if \<not> bexp other \<ge> bexp b then None
      else if \<not> compare b other \<ge> 0 then None
      else
        let i = bexp other - bexp b in
        do {
          r \<leftarrow> subtract_loop (drop i (bigits b)) (bigits other) 0;
          Some (b\<lparr>bigits := remove_leading_zeros (take i (bigits b) @ r)\<rparr>)
        })"

text \<open>\<open>multiply(uint32_t)\<close>.\<close>

fun multiply_loop :: "nat \<Rightarrow> nat \<Rightarrow> nat list \<Rightarrow> nat list \<times> nat" where
  "multiply_loop wide_value carry [] = ([], carry)"
| "multiply_loop wide_value carry (x # xs) =
     (let result = (x * wide_value + carry) mod 2 ^ 64;
          (ys, c) = multiply_loop wide_value ((result div base) mod base) xs
      in ((result mod base) # ys, c))"

definition multiply32 :: "nat \<Rightarrow> bigint \<Rightarrow> bigint" where
  "multiply32 v b =
     (let (ys, carry) = multiply_loop v 0 (bigits b)
      in b\<lparr>bigits := (if carry \<noteq> 0 then ys @ [carry] else ys)\<rparr>)"

text \<open>\<open>multiply\<close> with a factor of \<open>w\<close> bits, 64 or 128; the halves have \<open>w div 2\<close> bits.\<close>

fun multiply_wide_loop :: "nat \<Rightarrow> nat \<Rightarrow> nat \<Rightarrow> nat \<Rightarrow> nat list \<Rightarrow> nat list \<times> nat" where
  "multiply_wide_loop w lower upper carry [] = ([], carry)"
| "multiply_wide_loop w lower upper carry (x # xs) =
     (let result = (lower * x + carry mod base) mod 2 ^ w;
          carry1 = ((upper * x * 2 ^ (w div 2 - 32)) mod 2 ^ w + result div base + carry div base) mod 2 ^ w;
          (ys, c) = multiply_wide_loop w lower upper carry1 xs
      in ((result mod base) # ys, c))"

function carry_bigits :: "nat \<Rightarrow> nat list" where
  "carry_bigits carry = (if carry \<noteq> 0 then (carry mod base) # carry_bigits (carry div base) else [])"
  by auto
termination by (relation "measure (\<lambda>c. c)") simp_all

declare carry_bigits.simps [simp del]

definition multiply_wide :: "nat \<Rightarrow> nat \<Rightarrow> bigint \<Rightarrow> bigint" where
  "multiply_wide w v b =
     (let lower = v mod 2 ^ (w div 2);
          upper = v div 2 ^ (w div 2);
          (ys, carry) = multiply_wide_loop w lower upper 0 (bigits b)
      in b\<lparr>bigits := ys @ carry_bigits carry\<rparr>)"

function assign_loop :: "nat \<Rightarrow> nat list" where
  "assign_loop n = (n mod base) # (if n div base \<noteq> 0 then assign_loop (n div base) else [])"
  by auto
termination by (relation "measure (\<lambda>n. n)") (simp_all add: div_base_less)

declare assign_loop.simps [simp del]

text \<open>\<open>operator=\<close> and \<open>operator*=\<close> insist on a positive number.\<close>

definition bigint_of :: "nat \<Rightarrow> bigint option" where
  "bigint_of n = (if n > 0 then Some \<lparr>bigits = assign_loop n, bexp = 0\<rparr> else None)"

definition times32 :: "bigint \<Rightarrow> nat \<Rightarrow> bigint option" where
  "times32 b v = (if v > 0 then Some (multiply32 v b) else None)"

definition times128 :: "bigint \<Rightarrow> nat \<Rightarrow> bigint option" where
  "times128 b v = (if v > 0 then Some (multiply_wide 128 v b) else None)"

fun shift_loop :: "nat \<Rightarrow> nat \<Rightarrow> nat list \<Rightarrow> nat list \<times> nat" where
  "shift_loop s carry [] = ([], carry)"
| "shift_loop s carry (x # xs) =
     (let c = x div 2 ^ (32 - s);
          (ys, c') = shift_loop s c xs
      in (((x * 2 ^ s) mod base + carry) mod base # ys, c'))"

definition shift_left :: "bigint \<Rightarrow> int \<Rightarrow> bigint option" where
  "shift_left b shift =
     (if shift < 0 then None
      else
        let b1 = b\<lparr>bexp := bexp b + nat shift div 32\<rparr>;
            s = nat shift mod 32
        in if s = 0 then Some b1
           else
             let (ys, carry) = shift_loop s 0 (bigits b1)
             in Some (b1\<lparr>bigits := (if carry \<noteq> 0 then ys @ [carry] else ys)\<rparr>))"

text \<open>\<open>add_compare\<close>: from \<open>i\<close> down, \<open>k\<close> bigits.\<close>

definition get_bigit :: "bigint \<Rightarrow> nat \<Rightarrow> nat" where
  "get_bigit n i = (if i \<ge> bexp n \<and> i < num_bigits n then bigits n ! (i - bexp n) else 0)"

fun add_compare_loop :: "bigint \<Rightarrow> bigint \<Rightarrow> bigint \<Rightarrow> nat \<Rightarrow> nat \<Rightarrow> nat \<Rightarrow> int" where
  "add_compare_loop lhs1 lhs2 rhs i 0 borrow = (if borrow \<noteq> 0 then -1 else 0)"
| "add_compare_loop lhs1 lhs2 rhs i (Suc k) borrow =
     (let acc = (get_bigit lhs1 i + get_bigit lhs2 i) mod 2 ^ 64;
          rhs_bigit = get_bigit rhs i
      in if acc > (rhs_bigit + borrow) mod 2 ^ 64 then 1
         else
           let borrow1 = ((rhs_bigit + borrow) mod 2 ^ 64 - acc)
           in if borrow1 > 1 then -1
              else add_compare_loop lhs1 lhs2 rhs (i - 1) k ((borrow1 * base) mod 2 ^ 64))"

definition add_compare :: "bigint \<Rightarrow> bigint \<Rightarrow> bigint \<Rightarrow> int" where
  "add_compare lhs1 lhs2 rhs =
     (let max_lhs_bigits = max (num_bigits lhs1) (num_bigits lhs2);
          num_rhs_bigits = num_bigits rhs;
          min_exp = min (min (bexp lhs1) (bexp lhs2)) (bexp rhs)
      in if max_lhs_bigits + 1 < num_rhs_bigits then -1
         else if max_lhs_bigits > num_rhs_bigits then 1
         else add_compare_loop lhs1 lhs2 rhs (num_rhs_bigits - 1) (num_rhs_bigits - min_exp) 0)"

text \<open>\<open>square\<close>: the sums of cross products for each place of the result.\<close>

definition cross_sum :: "nat list \<Rightarrow> (nat \<times> nat) list \<Rightarrow> nat \<Rightarrow> nat" where
  "cross_sum n ijs acc = fold (\<lambda>(i, j) acc. (acc + (n ! i * n ! j) mod 2 ^ 64) mod 2 ^ 128) ijs acc"

definition low_pairs :: "nat \<Rightarrow> (nat \<times> nat) list" where
  "low_pairs k = map (\<lambda>i. (i, k - i)) [0..<Suc k]"

definition high_pairs :: "nat \<Rightarrow> nat \<Rightarrow> (nat \<times> nat) list" where
  "high_pairs m k = map (\<lambda>i. (i, k - i)) [k - (m - 1)..<m]"

fun square_loop :: "nat list \<Rightarrow> (nat \<times> nat) list list \<Rightarrow> nat \<Rightarrow> nat list" where
  "square_loop n [] acc = []"
| "square_loop n (ijs # rest) acc =
     (let acc1 = cross_sum n ijs acc
      in acc1 mod base # square_loop n rest (acc1 div base))"

definition square :: "bigint \<Rightarrow> bigint" where
  "square b =
     (let n = bigits b;
          m = length n
      in \<lparr>bigits = remove_leading_zeros
                     (square_loop n (map low_pairs [0..<m] @ map (high_pairs m) [m..<2 * m]) 0),
          bexp = bexp b * 2\<rparr>)"

definition align :: "bigint \<Rightarrow> bigint \<Rightarrow> bigint" where
  "align b other =
     (if bexp b \<le> bexp other then b
      else \<lparr>bigits = replicate (bexp b - bexp other) 0 @ bigits b, bexp = bexp other\<rparr>)"

partial_function (option) divmod_loop :: "bigint \<Rightarrow> bigint \<Rightarrow> nat \<Rightarrow> (nat \<times> bigint) option" where
  "divmod_loop divisor b q =
     Option.bind (subtract_aligned b divisor) (\<lambda>b1.
       if compare b1 divisor \<ge> 0 then divmod_loop divisor b1 (q + 1) else Some (q + 1, b1))"

definition divmod_assign :: "bigint \<Rightarrow> bigint \<Rightarrow> (nat \<times> bigint) option" where
  "divmod_assign b divisor =
     (if compare b divisor < 0 then Some (0, b)
      else if bigits divisor = [] \<or> last (bigits divisor) = 0 then None
      else divmod_loop divisor (align b divisor) 0)"

text \<open>\<open>assign_pow10\<close>. \<open>bitmask\<close> is an \<open>int\<close>: its doubling ends for exponents below 2 ^ 30.\<close>

function top_bit :: "nat \<Rightarrow> nat \<Rightarrow> nat" where
  "top_bit e bitmask = (if bitmask \<noteq> 0 \<and> e \<ge> bitmask then top_bit e (2 * bitmask) else bitmask)"
  by auto
termination by (relation "measure (\<lambda>(e, m). e + 1 - m)") auto

declare top_bit.simps [simp del]

function pow5_loop :: "nat \<Rightarrow> nat \<Rightarrow> bigint \<Rightarrow> bigint option" where
  "pow5_loop e bitmask b =
     (if bitmask = 0 then Some b
      else
        do {
          b1 \<leftarrow> (if e AND bitmask \<noteq> 0 then times32 (square b) 5 else Some (square b));
          pow5_loop e (bitmask div 2) b1
        })"
  by auto
termination by (relation "measure (\<lambda>(e, m, b). m)") auto

declare pow5_loop.simps [simp del]

definition pow10_bigint :: "int \<Rightarrow> bigint option" where
  "pow10_bigint e =
     (if e < 0 then None
      else if e = 0 then bigint_of 1
      else
        let bitmask = top_bit (nat e) 1 div 2
        in do {
          b \<leftarrow> bigint_of 5;
          b1 \<leftarrow> pow5_loop (nat e) (bitmask div 2) b;
          shift_left b1 e
        })"


section \<open>Multiplication and shifting\<close>

lemma mult_step_bound:
  assumes "x < base" "v < 2 ^ k" "c < 2 ^ k"
  shows "x * v + c < base * 2 ^ k"
proof -
  have "x * v \<le> (base - 1) * v" using assms(1) by (intro mult_le_mono1) simp
  also have "\<dots> \<le> (base - 1) * 2 ^ k" using assms(2) by (intro mult_le_mono2) simp
  finally have "x * v + c < (base - 1) * 2 ^ k + 2 ^ k" using assms(3) by linarith
  also have "\<dots> = base * 2 ^ k" by (simp add: base_def)
  finally show ?thesis .
qed

lemma digit_step:
  assumes "a = d + r div base"
  shows "r mod base + base * a = r + base * d"
proof -
  have "base * a = base * d + base * (r div base)" by (simp add: assms distrib_left)
  then show ?thesis using mult_div_mod_eq [of base r] by linarith
qed

lemma multiply_loop_value:
  "all_bigits xs \<Longrightarrow> v < base \<Longrightarrow> carry < base \<Longrightarrow> multiply_loop v carry xs = (ys, c) \<Longrightarrow>
   digits_value ys + base ^ length xs * c = v * digits_value xs + carry \<and> length ys = length xs \<and> all_bigits ys \<and> c < base"
proof (induction xs arbitrary: carry ys c)
  case (Cons x xs)
  obtain r where r: "r = x * v + carry" by blast
  have "r < base * base" using mult_step_bound [of x v 32 carry] Cons.prems r by (simp add: base_def)
  then have m: "r mod 2 ^ 64 = r" "r div base < base" by (simp_all add: base_def less_mult_imp_div_less)
  obtain zs where z: "multiply_loop v (r div base) xs = (zs, c)" "ys = r mod base # zs"
    using Cons.prems(4) m r by (auto simp: Let_def split: prod.splits)
  have IH: "digits_value zs + base ^ length xs * c = v * digits_value xs + r div base" "length zs = length xs" "all_bigits zs" "c < base"
    using Cons.IH [OF _ _ m(2) z(1)] Cons.prems by simp_all
  have "digits_value ys + base ^ length (x # xs) * c = r mod base + base * (digits_value zs + base ^ length xs * c)"
    by (simp add: z(2) algebra_simps)
  also have "\<dots> = r + base * (v * digits_value xs)" by (rule digit_step [OF IH(1)])
  finally show ?case using IH z(2) r by (simp add: algebra_simps)
qed auto

lemma bvalue_bigits: "bvalue (b\<lparr>bigits := xs\<rparr>) = base ^ bexp b * digits_value xs"
  by (simp add: bvalue_def)

lemma digits_value_carry:
  "digits_value (if c \<noteq> 0 then ys @ [c] else ys) = digits_value ys + base ^ length ys * c"
  by simp

lemma times32_value:
  assumes "all_bigits (bigits b)" "0 < v" "v < base"
  shows "\<exists>r. times32 b v = Some r \<and> bvalue r = v * bvalue b \<and> all_bigits (bigits r) \<and> bexp r = bexp b"
proof -
  obtain ys c where m: "multiply_loop v 0 (bigits b) = (ys, c)" by fastforce
  from multiply_loop_value [OF assms(1,3) _ m]
  show ?thesis using m assms(2)
    by (cases "c = 0") (simp_all add: times32_def multiply32_def bvalue_def algebra_simps)
qed

lemma carry_bigits_value: "digits_value (carry_bigits c) = c \<and> all_bigits (carry_bigits c)"
proof (induction c rule: carry_bigits.induct)
  case (1 c)
  then show ?case by (subst (1 2) carry_bigits.simps) simp
qed

lemma multiply_wide_loop_value:
  assumes w: "w = 64 \<or> w = 128" and v: "v < 2 ^ w"
  defines "lower \<equiv> v mod 2 ^ (w div 2)" and "upper \<equiv> v div 2 ^ (w div 2)"
  shows "all_bigits xs \<Longrightarrow> carry < 2 ^ w \<Longrightarrow> multiply_wide_loop w lower upper carry xs = (ys, c) \<Longrightarrow>
   digits_value ys + base ^ length xs * c = v * digits_value xs + carry \<and> length ys = length xs \<and> all_bigits ys"
proof (induction xs arbitrary: carry ys c)
  case (Cons x xs)
  have split: "v = upper * 2 ^ (w div 2) + lower" unfolding lower_def upper_def by (rule div_mult_mod_eq [symmetric])
  have lower: "lower < 2 ^ (w div 2)" by (simp add: lower_def)
  have half: "(2 :: nat) ^ (w div 2) = base * 2 ^ (w div 2 - 32)" "base * 2 ^ (w div 2) \<le> 2 ^ w"
    using w by (auto simp: base_def)
  obtain r where r: "r = lower * x + carry mod base" by blast
  have "r < base * 2 ^ (w div 2)"
  proof -
    have "carry mod base < 2 ^ (w div 2)"
      by (rule less_le_trans [of _ base]) (use w in \<open>auto simp: base_def\<close>)
    then show ?thesis using mult_step_bound [of x lower "w div 2" "carry mod base"] Cons.prems lower r by (simp add: mult.commute)
  qed
  then have r_less: "r < 2 ^ w" using half(2) by linarith
  obtain s where s: "s = x * v + carry" by blast
  have s_less: "s < base * 2 ^ w" using mult_step_bound [of x v w carry] Cons.prems v s by simp
  obtain u where u: "u = upper * x * 2 ^ (w div 2 - 32)" by blast
  have s_eq: "s = r + base * (u + carry div base)"
  proof -
    have "base * u = upper * x * 2 ^ (w div 2)" by (simp add: u half(1))
    moreover have "x * v = upper * x * 2 ^ (w div 2) + lower * x" by (subst split) (simp add: algebra_simps)
    moreover have "base * (carry div base) + carry mod base = carry" by simp
    ultimately show ?thesis using s r by (simp add: distrib_left)
  qed
  then have s_mod: "s mod base = r mod base" and s_div: "s div base = u + r div base + carry div base"
    by simp_all
  have div_less: "s div base < 2 ^ w" using s_less by (simp add: less_mult_imp_div_less mult.commute)
  then have "u < 2 ^ w" using s_div by linarith
  then have step: "((upper * x * 2 ^ (w div 2 - 32)) mod 2 ^ w + r div base + carry div base) mod 2 ^ w = s div base"
    using s_div div_less by (simp flip: u)
  obtain zs where z: "multiply_wide_loop w lower upper (s div base) xs = (zs, c)" "ys = s mod base # zs"
    using Cons.prems(3) r_less step s_mod by (auto simp: Let_def simp flip: r split: prod.splits)
  have IH: "digits_value zs + base ^ length xs * c = v * digits_value xs + s div base" "length zs = length xs" "all_bigits zs"
    using Cons.IH [OF _ div_less z(1)] Cons.prems by simp_all
  have "digits_value ys + base ^ length (x # xs) * c = s mod base + base * (digits_value zs + base ^ length xs * c)"
    by (simp add: z(2) algebra_simps)
  also have "\<dots> = s + base * (v * digits_value xs)" by (rule digit_step [OF IH(1)])
  finally show ?case using IH z(2) s by (simp add: algebra_simps)
qed auto


lemma times128_value:
  assumes "all_bigits (bigits b)" "0 < v" "v < 2 ^ 128"
  shows "\<exists>r. times128 b v = Some r \<and> bvalue r = v * bvalue b \<and> all_bigits (bigits r) \<and> bexp r = bexp b"
proof -
  obtain ys c where m: "multiply_wide_loop 128 (v mod 2 ^ (128 div 2)) (v div 2 ^ (128 div 2)) 0 (bigits b) = (ys, c)"
    by fastforce
  from multiply_wide_loop_value [OF _ assms(3,1) _ m]
  have "digits_value ys + base ^ length (bigits b) * c = v * digits_value (bigits b)" "length ys = length (bigits b)" "all_bigits ys"
    by simp_all
  then show ?thesis using m assms(2) carry_bigits_value [of c]
    by (simp add: times128_def multiply_wide_def bvalue_def algebra_simps)
qed

lemma assign_loop_value: "digits_value (assign_loop n) = n \<and> all_bigits (assign_loop n) \<and> assign_loop n \<noteq> []"
proof (induction n rule: assign_loop.induct)
  case (1 n)
  then show ?case
    using mult_div_mod_eq [of base n] mod_less_divisor [OF base_pos(1), of n] by (subst (1 2 3) assign_loop.simps) (cases "n div base = 0", simp_all)
qed

lemma bigint_of_value:
  "0 < n \<Longrightarrow> \<exists>b. bigint_of n = Some b \<and> bvalue b = n \<and> all_bigits (bigits b) \<and> bexp b = 0"
  using assign_loop_value [of n] by (simp add: bigint_of_def bvalue_def)

lemma shift_loop_value:
  "0 < s \<Longrightarrow> s < 32 \<Longrightarrow> all_bigits xs \<Longrightarrow> carry < 2 ^ s \<Longrightarrow> shift_loop s carry xs = (ys, c) \<Longrightarrow>
   digits_value ys + base ^ length xs * c = 2 ^ s * digits_value xs + carry \<and> length ys = length xs \<and> all_bigits ys \<and> c < 2 ^ s"
proof (induction xs arbitrary: carry ys c)
  case (Cons x xs)
  have pow: "base = 2 ^ (32 - s) * 2 ^ s"
  proof -
    have "(2 :: nat) ^ 32 = 2 ^ (32 - s + s)" using Cons.prems(2) by simp
    then show ?thesis by (simp add: base_def power_add)
  qed
  obtain q r where qr: "x = q * 2 ^ (32 - s) + r" "r < 2 ^ (32 - s)" "q = x div 2 ^ (32 - s)"
    using div_mult_mod_eq [of x "2 ^ (32 - s)"] by (metis mod_less_divisor zero_less_numeral zero_less_power)
  have q: "q < 2 ^ s"
  proof -
    have "x < 2 ^ s * 2 ^ (32 - s)" using Cons.prems(3) pow by (simp add: mult.commute)
    then show ?thesis using qr(3) by (simp add: less_mult_imp_div_less)
  qed
  have low: "r * 2 ^ s + carry < base"
  proof -
    have "(r + 1) * 2 ^ s \<le> base" using qr(2) unfolding pow by (intro mult_le_mono1) simp
    then show ?thesis using Cons.prems(4) by (simp add: algebra_simps)
  qed
  have x: "x * 2 ^ s = r * 2 ^ s + base * q" by (simp add: qr(1) pow algebra_simps)
  then have "(x * 2 ^ s) mod base = r * 2 ^ s" using low by simp
  then have new: "((x * 2 ^ s) mod base + carry) mod base = r * 2 ^ s + carry" using low by simp
  obtain zs where z: "shift_loop s q xs = (zs, c)" "ys = (r * 2 ^ s + carry) # zs"
    using Cons.prems(5) new by (auto simp: Let_def simp flip: qr(3) split: prod.splits)
  have IH: "digits_value zs + base ^ length xs * c = 2 ^ s * digits_value xs + q" "length zs = length xs" "all_bigits zs" "c < 2 ^ s"
    using Cons.IH [OF Cons.prems(1,2) _ q z(1)] Cons.prems(3) by simp_all
  have "digits_value ys + base ^ length (x # xs) * c = r * 2 ^ s + carry + base * (digits_value zs + base ^ length xs * c)"
    by (simp add: z(2) algebra_simps)
  also have "\<dots> = 2 ^ s * digits_value (x # xs) + carry" by (simp only: IH(1)) (simp add: x algebra_simps)
  finally show ?case using IH z(2) low by simp
qed auto

lemma shift_left_value:
  assumes "all_bigits (bigits b)" "0 \<le> k"
  shows "\<exists>r. shift_left b k = Some r \<and> bvalue r = 2 ^ nat k * bvalue b \<and> all_bigits (bigits r) \<and> bexp r = bexp b + nat k div 32"
proof -
  obtain e s where es: "nat k div 32 = e" "nat k mod 32 = s" by blast
  have k: "nat k = 32 * e + s" unfolding es [symmetric] by simp
  have pow: "(2 :: nat) ^ nat k = base ^ e * 2 ^ s" by (simp add: k power_add power_mult base_def)
  show ?thesis
  proof (cases "s = 0")
    case True
    then show ?thesis using assms es pow by (simp add: shift_left_def bvalue_def power_add algebra_simps)
  next
    case False
    obtain ys c where m: "shift_loop s 0 (bigits b) = (ys, c)" by fastforce
    have "s < 32" unfolding es(2) [symmetric] by simp
    with shift_loop_value [OF _ _ assms(1) _ m] False
    have v: "digits_value ys + base ^ length (bigits b) * c = 2 ^ s * digits_value (bigits b)" "length ys = length (bigits b)"
      "all_bigits ys" "c < 2 ^ s" by simp_all
    have "(2 :: nat) ^ s < base" unfolding base_def using \<open>s < 32\<close> by (intro power_strict_increasing) simp_all
    then have c: "c < base" using v(4) by linarith
    have "digits_value (if c \<noteq> 0 then ys @ [c] else ys) = 2 ^ s * digits_value (bigits b)"
      using v(1,2) by (cases "c = 0") simp_all
    moreover have "shift_left b k = Some (b\<lparr>bexp := bexp b + e, bigits := (if c \<noteq> 0 then ys @ [c] else ys)\<rparr>)"
      using assms(2) False m es by (simp add: shift_left_def Let_def)
    ultimately show ?thesis using v(3) c es pow by (simp add: bvalue_def power_add algebra_simps)
  qed
qed


section \<open>Squaring\<close>

lemma cross_sum_eq:
  assumes "\<forall>(i, j) \<in> set ijs. n ! i < base \<and> n ! j < base" "acc + length ijs * base ^ 2 \<le> 2 ^ 128"
  shows "cross_sum n ijs acc = acc + sum_list (map (\<lambda>(i, j). n ! i * n ! j) ijs) \<and>
    sum_list (map (\<lambda>(i, j). n ! i * n ! j) ijs) \<le> length ijs * (base - 1) ^ 2"
  using assms
proof (induction ijs arbitrary: acc)
  case (Cons ij ijs)
  obtain i j where ij: "ij = (i, j)" by fastforce
  then have less: "n ! i \<le> base - 1" "n ! j \<le> base - 1" using Cons.prems(1) by auto
  then have p: "n ! i * n ! j \<le> (base - 1) ^ 2" by (simp add: power2_eq_square mult_le_mono)
  have sq: "(base - 1) ^ 2 < base ^ 2" "(base - 1) ^ 2 < 2 ^ 64" by (simp_all add: base_def)
  have "acc + base ^ 2 + length ijs * base ^ 2 \<le> 2 ^ 128" using Cons.prems(2) by simp
  then have b: "acc + n ! i * n ! j < 2 ^ 128" "acc + n ! i * n ! j + length ijs * base ^ 2 \<le> 2 ^ 128"
    using p sq by linarith+
  have "cross_sum n (ij # ijs) acc = cross_sum n ijs (acc + n ! i * n ! j)"
    using b(1) p sq by (simp add: cross_sum_def ij)
  with Cons.IH [OF _ b(2)] Cons.prems(1) p ij show ?case by (simp add: algebra_simps)
qed (simp add: cross_sum_def)

lemma square_loop_value:
  assumes n: "m \<le> 2 ^ 32"
  shows "\<forall>ijs \<in> set pss. length ijs \<le> m \<and> (\<forall>(i, j) \<in> set ijs. n ! i < base \<and> n ! j < base) \<Longrightarrow> acc \<le> m * base \<Longrightarrow>
   \<exists>c. digits_value (square_loop n pss acc) + base ^ length pss * c =
      digits_value (map (\<lambda>ijs. sum_list (map (\<lambda>(i, j). n ! i * n ! j) ijs)) pss) + acc \<and>
      length (square_loop n pss acc) = length pss \<and> all_bigits (square_loop n pss acc)"
proof (induction pss arbitrary: acc)
  case (Cons ijs pss)
  let ?f = "\<lambda>ijs. sum_list (map (\<lambda>(i, j). n ! i * n ! j) ijs)"
  have len: "length ijs \<le> m" using Cons.prems(1) by simp
  have "acc + length ijs * base ^ 2 \<le> m * base + m * base ^ 2"
    using len Cons.prems(2) by (intro add_mono mult_le_mono1)
  also have "\<dots> \<le> 2 ^ 32 * base + 2 ^ 32 * base ^ 2" using n by (intro add_mono mult_le_mono1)
  also have "\<dots> \<le> 2 ^ 128" by (simp add: base_def)
  finally have bound: "acc + length ijs * base ^ 2 \<le> 2 ^ 128" .
  have cs: "cross_sum n ijs acc = acc + ?f ijs" "?f ijs \<le> length ijs * (base - 1) ^ 2"
    using cross_sum_eq [OF _ bound, of n] Cons.prems(1) by simp_all
  have "acc + ?f ijs \<le> m * base + m * (base - 1) ^ 2"
    using cs(2) Cons.prems(2) len by (meson add_mono mult_le_mono1 order_trans)
  also have "\<dots> \<le> m * base * base"
  proof -
    have "base + (base - 1) ^ 2 \<le> base * base" by (simp add: base_def)
    then have "m * (base + (base - 1) ^ 2) \<le> m * (base * base)" by (rule mult_le_mono2)
    then show ?thesis by (simp add: distrib_left mult.assoc)
  qed
  finally have carry: "(acc + ?f ijs) div base \<le> m * base"
    by (metis base_pos(1) div_le_mono nonzero_mult_div_cancel_right base_pos(2))
  obtain c where c: "digits_value (square_loop n pss ((acc + ?f ijs) div base)) + base ^ length pss * c =
      digits_value (map ?f pss) + (acc + ?f ijs) div base"
    "length (square_loop n pss ((acc + ?f ijs) div base)) = length pss"
    "all_bigits (square_loop n pss ((acc + ?f ijs) div base))"
    using Cons.IH [OF _ carry] Cons.prems(1) by auto
  have "digits_value (square_loop n (ijs # pss) acc) + base ^ length (ijs # pss) * c =
      (acc + ?f ijs) mod base + base * (digits_value (square_loop n pss ((acc + ?f ijs) div base)) + base ^ length pss * c)"
    by (simp add: cs(1) Let_def algebra_simps)
  also have "\<dots> = digits_value (map ?f (ijs # pss)) + acc"
    using digit_step [OF c(1)] by simp
  finally show ?case using c(2,3) cs(1) by (intro exI [of _ c]) (simp add: Let_def)
qed simp

lemma digits_value_sum: "digits_value xs = (\<Sum>i<length xs. xs ! i * base ^ i)"
proof (induction xs)
  case (Cons x xs)
  have "(\<Sum>i<length (x # xs). (x # xs) ! i * base ^ i) = x + (\<Sum>i<length xs. xs ! i * base ^ Suc i)"
    by (simp add: sum.lessThan_Suc_shift del: sum.lessThan_Suc)
  then show ?case by (simp add: Cons sum_distrib_left algebra_simps)
qed simp

lemma convolution:
  assumes "m = length n"
  shows "digits_value (map (\<lambda>ijs. sum_list (map (\<lambda>(i, j). n ! i * n ! j) ijs))
      (map low_pairs [0..<m] @ map (high_pairs m) [m..<2 * m])) = digits_value n ^ 2"
proof -
  let ?h = "\<lambda>(i, j). n ! i * n ! j * base ^ (i + j)"
  let ?S = "{..<m} \<times> {..<m}"
  let ?pairs = "\<lambda>k. if k < m then low_pairs k else high_pairs m k"
  have all: "map low_pairs [0..<m] @ map (high_pairs m) [m..<2 * m] = map ?pairs [0..<2 * m]"
  proof -
    have "[0..<2 * m] = [0..<m] @ [m..<2 * m]" by (metis add.left_neutral mult_2 upt_add_eq_append zero_le)
    then show ?thesis by simp
  qed
  have set: "set (?pairs k) = {x \<in> ?S. fst x + snd x = k}" if "k < 2 * m" for k
    using that by (auto simp: low_pairs_def high_pairs_def image_iff)
  have distinct: "distinct (?pairs k)" for k
    by (auto simp: low_pairs_def high_pairs_def distinct_map inj_on_def)
  have "sum_list (map (\<lambda>(i, j). n ! i * n ! j) (?pairs k)) * base ^ k = (\<Sum>x \<in> {x \<in> ?S. fst x + snd x = k}. ?h x)"
    if "k < 2 * m" for k
  proof -
    have "sum_list (map (\<lambda>(i, j). n ! i * n ! j) (?pairs k)) = (\<Sum>(i, j) \<in> {x \<in> ?S. fst x + snd x = k}. n ! i * n ! j)"
      using sum.distinct_set_conv_list [OF distinct, of "\<lambda>(i, j). n ! i * n ! j" k] set [OF that] by simp
    then show ?thesis by (auto simp: sum_distrib_right intro!: sum.cong)
  qed
  then have "digits_value (map (\<lambda>ijs. sum_list (map (\<lambda>(i, j). n ! i * n ! j) ijs)) (map ?pairs [0..<2 * m])) =
      (\<Sum>k<2 * m. \<Sum>x \<in> {x \<in> ?S. fst x + snd x = k}. ?h x)"
    by (simp add: digits_value_sum)
  also have "\<dots> = (\<Sum>x \<in> ?S. ?h x)"
    by (rule sum.group) auto
  also have "\<dots> = (\<Sum>i<m. \<Sum>j<m. n ! i * base ^ i * (n ! j * base ^ j))"
    by (simp add: sum.cartesian_product power_add algebra_simps)
  also have "\<dots> = digits_value n ^ 2"
    by (simp add: digits_value_sum power2_eq_square sum_product assms)
  finally show ?thesis unfolding all .
qed


lemma top_index_zeros: "n < length xs \<Longrightarrow> top_index xs n \<le> n \<and> (\<forall>i. top_index xs n < i \<and> i \<le> n \<longrightarrow> xs ! i = 0) \<and>
    (top_index xs n = 0 \<or> xs ! top_index xs n \<noteq> 0)"
proof (induction n)
  case (Suc n)
  then show ?case by (auto simp: le_Suc_eq)
qed simp

lemma remove_leading_zeros_value:
  assumes "xs \<noteq> []"
  shows "digits_value (remove_leading_zeros xs) = digits_value xs" "remove_leading_zeros xs \<noteq> []"
    "all_bigits xs \<Longrightarrow> all_bigits (remove_leading_zeros xs)"
    "length (remove_leading_zeros xs) = 1 \<or> last (remove_leading_zeros xs) \<noteq> 0"
    "length (remove_leading_zeros xs) \<le> length xs"
proof -
  obtain k where k: "top_index xs (length xs - 1) = k" by blast
  note top = top_index_zeros [of "length xs - 1" xs, unfolded k]
  have less: "k < length xs" using top assms by (cases xs) auto
  have "drop (k + 1) xs = replicate (length xs - (k + 1)) 0"
    using top assms by (intro nth_equalityI) (auto simp: Suc_le_eq)
  then have "xs = take (k + 1) xs @ replicate (length xs - (k + 1)) 0"
    by (metis append_take_drop_id)
  then show "digits_value (remove_leading_zeros xs) = digits_value xs"
    unfolding remove_leading_zeros_def k
    by (metis add.right_neutral digits_value_append digits_value_zeros mult_0_right)
  have eq: "remove_leading_zeros xs = take (k + 1) xs" by (simp only: remove_leading_zeros_def k)
  show "remove_leading_zeros xs \<noteq> []" "length (remove_leading_zeros xs) \<le> length xs"
    using assms by (auto simp: remove_leading_zeros_def)
  show "all_bigits xs \<Longrightarrow> all_bigits (remove_leading_zeros xs)"
    by (auto simp: remove_leading_zeros_def all_bigits_def dest: in_set_takeD)
  have "last (take (k + 1) xs) = xs ! k" using less by (simp add: take_Suc_conv_app_nth)
  then show "length (remove_leading_zeros xs) = 1 \<or> last (remove_leading_zeros xs) \<noteq> 0"
    using top assms less unfolding eq by auto
qed

lemma square_value:
  assumes "all_bigits (bigits b)" "bigits b \<noteq> []" "length (bigits b) \<le> 2 ^ 32"
  shows "bvalue (square b) = bvalue b ^ 2 \<and> trimmed (square b) \<and> length (bigits (square b)) \<le> 2 * length (bigits b)"
proof -
  obtain n m where nm: "n = bigits b" "m = length n" by blast
  let ?pss = "map low_pairs [0..<m] @ map (high_pairs m) [m..<2 * m]"
  have less: "n ! i < base" if "i < m" for i using assms(1) that nm by (simp add: all_bigits_def)
  have "\<forall>ijs \<in> set ?pss. length ijs \<le> m \<and> (\<forall>(i, j) \<in> set ijs. n ! i < base \<and> n ! j < base)"
    by (auto simp: low_pairs_def high_pairs_def intro!: less) (presburger+)?
  then obtain c where c: "digits_value (square_loop n ?pss 0) + base ^ length ?pss * c = digits_value n ^ 2"
    "length (square_loop n ?pss 0) = length ?pss" "all_bigits (square_loop n ?pss 0)"
    using square_loop_value [of m ?pss n 0] convolution [OF nm(2)] assms(3) nm by auto
  have "digits_value n ^ 2 < (base ^ m) ^ 2"
    using digits_value_less [of n] assms(1) nm by (intro power_strict_mono) simp_all
  also have "(base ^ m) ^ 2 = base ^ length ?pss" by (simp add: power_mult [symmetric] mult.commute)
  finally have "base ^ length ?pss * c < base ^ length ?pss" using c(1) by linarith
  then have "c = 0" by simp
  then have sq: "digits_value (square_loop n ?pss 0) = digits_value n ^ 2" using c(1) by simp
  have ne: "square_loop n ?pss 0 \<noteq> []" using c(2) assms(2) nm by auto
  have eq: "square b = \<lparr>bigits = remove_leading_zeros (square_loop n ?pss 0), bexp = bexp b * 2\<rparr>"
    by (simp add: square_def nm Let_def)
  show ?thesis
    using remove_leading_zeros_value [OF ne] c(2,3) sq
    by (simp add: eq bvalue_def trimmed_def nm power_mult power_mult_distrib)
qed


lemma proper_if_ge:
  assumes "all_bigits xs" "xs \<noteq> []" "base ^ (length xs - 1) \<le> digits_value xs"
  shows "proper (b\<lparr>bigits := xs\<rparr>)"
  using assms last_bigit_nonzero by (simp add: proper_def)

text \<open>What the multiplications give is proper again.\<close>

lemma multiply_loop_proper:
  assumes "proper b" "0 < v" "digits_value ys + base ^ length (bigits b) * c = v * digits_value (bigits b)"
    "length ys = length (bigits b)" "all_bigits ys" "c = 0"
  shows "ys \<noteq> [] \<and> last ys \<noteq> 0"
proof -
  have ne: "ys \<noteq> []" using assms(1,4) by (auto simp: proper_def)
  have "base ^ (length ys - 1) \<le> digits_value (bigits b)"
    using assms(1,4) digits_value_ge by (simp add: proper_def)
  also have "\<dots> \<le> v * digits_value (bigits b)" using assms(2) by simp
  finally show ?thesis using ne last_bigit_nonzero [OF assms(5) ne] assms(3,6) by simp
qed

lemma carry_bigits_proper: "c \<noteq> 0 \<Longrightarrow> carry_bigits c \<noteq> [] \<and> last (carry_bigits c) \<noteq> 0"
proof (induction c rule: carry_bigits.induct)
  case (1 c)
  show ?case
  proof (cases "c div base = 0")
    case True
    then have "c mod base = c" using mult_div_mod_eq [of base c] by simp
    then show ?thesis using "1.prems" True by (subst (1 2) carry_bigits.simps) (simp add: carry_bigits.simps [of 0])
  next
    case False
    then show ?thesis using "1.IH" [OF "1.prems"] "1.prems" by (subst (1 2) carry_bigits.simps) simp
  qed
qed

lemma times32_proper:
  assumes "proper b" "0 < v" "v < base"
  shows "\<exists>r. times32 b v = Some r \<and> bvalue r = v * bvalue b \<and> proper r \<and> bexp r = bexp b"
proof -
  obtain r where r: "times32 b v = Some r" "bvalue r = v * bvalue b" "all_bigits (bigits r)" "bexp r = bexp b"
    using times32_value [OF _ assms(2,3), of b] assms(1) unfolding proper_def by blast
  obtain ys c where m: "multiply_loop v 0 (bigits b) = (ys, c)" by fastforce
  have "all_bigits (bigits b)" using assms(1) by (simp add: proper_def)
  from multiply_loop_value [OF this assms(3) _ m]
  have v: "digits_value ys + base ^ length (bigits b) * c = v * digits_value (bigits b)" "length ys = length (bigits b)"
    "all_bigits ys" by simp_all
  have "proper r"
    using r(1,3) multiply_loop_proper [OF assms(1,2) v] m assms(2)
    by (cases "c = 0") (auto simp: times32_def multiply32_def proper_def)
  with r show ?thesis by blast
qed

lemma times128_proper:
  assumes "proper b" "0 < v" "v < 2 ^ 128"
  shows "\<exists>r. times128 b v = Some r \<and> bvalue r = v * bvalue b \<and> proper r \<and> bexp r = bexp b"
proof -
  obtain r where r: "times128 b v = Some r" "bvalue r = v * bvalue b" "all_bigits (bigits r)" "bexp r = bexp b"
    using times128_value [OF _ assms(2,3), of b] assms(1) unfolding proper_def by blast
  obtain ys c where m: "multiply_wide_loop 128 (v mod 2 ^ (128 div 2)) (v div 2 ^ (128 div 2)) 0 (bigits b) = (ys, c)"
    by fastforce
  have "all_bigits (bigits b)" using assms(1) by (simp add: proper_def)
  from multiply_wide_loop_value [OF _ assms(3) this _ m]
  have v: "digits_value ys + base ^ length (bigits b) * c = v * digits_value (bigits b)" "length ys = length (bigits b)"
    "all_bigits ys" by simp_all
  have "proper r"
    using r(1,3) multiply_loop_proper [OF assms(1,2) v] carry_bigits_proper [of c] m assms(2)
    by (cases "c = 0") (auto simp: times128_def multiply_wide_def proper_def carry_bigits.simps [of 0])
  with r show ?thesis by blast
qed

lemma assign_loop_proper: "0 < n \<Longrightarrow> last (assign_loop n) \<noteq> 0"
proof (induction n rule: assign_loop.induct)
  case (1 n)
  show ?case
  proof (cases "n div base = 0")
    case True
    then have "n mod base = n" using mult_div_mod_eq [of base n] by simp
    then show ?thesis using "1.prems" True by (subst assign_loop.simps) simp
  next
    case False
    then show ?thesis using "1.IH" assign_loop_value [of "n div base"] by (subst assign_loop.simps) simp
  qed
qed

lemma bigint_of_proper: "0 < n \<Longrightarrow> \<exists>b. bigint_of n = Some b \<and> bvalue b = n \<and> proper b \<and> bexp b = 0"
  using assign_loop_value [of n] assign_loop_proper [of n] by (simp add: bigint_of_def bvalue_def proper_def)

lemma shift_left_proper:
  assumes "proper b" "0 \<le> k"
  shows "\<exists>r. shift_left b k = Some r \<and> bvalue r = 2 ^ nat k * bvalue b \<and> proper r \<and> bexp r = bexp b + nat k div 32"
proof -
  have ok: "all_bigits (bigits b)" using assms(1) by (simp add: proper_def)
  obtain r where r: "shift_left b k = Some r" "bvalue r = 2 ^ nat k * bvalue b" "all_bigits (bigits r)" "bexp r = bexp b + nat k div 32"
    using shift_left_value [OF ok assms(2)] by blast
  obtain s where s: "nat k mod 32 = s" by blast
  have "proper r"
  proof (cases "s = 0")
    case True
    then show ?thesis using r(1) assms s by (auto simp: shift_left_def proper_def Let_def)
  next
    case False
    obtain ys c where m: "shift_loop s 0 (bigits b) = (ys, c)" by fastforce
    have "s < 32" unfolding s [symmetric] by simp
    with shift_loop_value [OF _ _ ok _ m] False
    have v: "digits_value ys + base ^ length (bigits b) * c = 2 ^ s * digits_value (bigits b)" "length ys = length (bigits b)"
      "all_bigits ys" by simp_all
    show ?thesis
      using r(1,3) multiply_loop_proper [OF assms(1) _ v] m assms(2) False s
      by (cases "c = 0") (auto simp: shift_left_def proper_def Let_def)
  qed
  with r show ?thesis by blast
qed

lemma top_bit_value: "0 < m \<Longrightarrow> \<exists>k. top_bit e m = 2 ^ k * m \<and> e < top_bit e m \<and> (m \<le> e \<longrightarrow> top_bit e m \<le> 2 * e)"
proof (induction e m rule: top_bit.induct)
  case (1 e m)
  show ?case
  proof (cases "e \<ge> m")
    case True
    with "1" obtain k where k: "top_bit e (2 * m) = 2 ^ k * (2 * m)" "e < top_bit e (2 * m)"
      "2 * m \<le> e \<longrightarrow> top_bit e (2 * m) \<le> 2 * e" by auto
    have eq: "top_bit e m = top_bit e (2 * m)" using True "1.prems" by (subst top_bit.simps) simp
    have "top_bit e (2 * m) \<le> 2 * e"
    proof (cases "2 * m \<le> e")
      case False
      then have "top_bit e (2 * m) = 2 * m" by (subst top_bit.simps) simp
      then show ?thesis using True by simp
    qed (use k in simp)
    with k eq show ?thesis by (intro exI [of _ "Suc k"]) simp
  next
    case False
    then have "top_bit e m = m" by (subst top_bit.simps) simp
    with False show ?thesis by (intro exI [of _ 0]) simp
  qed
qed

lemma small_power_length:
  assumes "proper b" "bexp b = 0" "bvalue b = 5 ^ x" "x < 2 ^ 31"
  shows "length (bigits b) \<le> 2 ^ 32"
proof (rule ccontr)
  assume "\<not> ?thesis"
  then have "x < length (bigits b) - 1" using assms(4) by simp
  then have "base ^ x < base ^ (length (bigits b) - 1)" by (intro power_strict_increasing) simp_all
  also have "\<dots> \<le> 5 ^ x" using assms digits_value_ge [of "bigits b"] by (simp add: proper_def bvalue_def)
  also have "\<dots> \<le> base ^ x" by (intro power_mono) (simp_all add: base_def)
  finally show False by simp
qed

lemma pow5_loop_value:
  assumes "e < 2 ^ 31" "proper b" "bexp b = 0" "bvalue b = 5 ^ (e div 2 ^ k)"
  shows "\<exists>r. pow5_loop e (2 ^ k div 2) b = Some r \<and> bvalue r = 5 ^ e \<and> proper r \<and> bexp r = 0"
  using assms(2-4)
proof (induction k arbitrary: b)
  case 0
  then show ?case by (simp add: pow5_loop.simps [of e 0])
next
  case (Suc k)
  let ?x = "e div 2 ^ Suc k"
  have x: "?x < 2 ^ 31" using assms(1) by (meson div_le_dividend le_less_trans)
  have ok: "all_bigits (bigits b)" "bigits b \<noteq> []" using Suc.prems by (simp_all add: proper_def)
  have sq: "bvalue (square b) = 5 ^ (2 * ?x)" "trimmed (square b)" "bexp (square b) = 0"
    using square_value [OF ok small_power_length [OF Suc.prems(1,2,3) x]] Suc.prems(2,3)
    by (simp_all add: power_mult [symmetric] mult.commute square_def Let_def)
  then have sqp: "proper (square b)" by (intro trimmed_proper) simp_all
  have half: "e div 2 ^ k = 2 * ?x + (e div 2 ^ k) mod 2"
    by (metis div_exp_eq mult_div_mod_eq power_Suc2 power_one_right div_mult2_eq)
  have bit: "e AND 2 ^ k \<noteq> 0 \<longleftrightarrow> odd (e div 2 ^ k)"
    using and_exp_eq_0_iff_not_bit [of e k] by (simp add: bit_iff_odd)
  obtain b1 where b1: "(if e AND 2 ^ k \<noteq> 0 then times32 (square b) 5 else Some (square b)) = Some b1"
    "proper b1" "bexp b1 = 0" "bvalue b1 = 5 ^ (e div 2 ^ k)"
  proof (cases "odd (e div 2 ^ k)")
    case True
    then have "e div 2 ^ k = Suc (2 * ?x)" using half by (simp add: odd_iff_mod_2_eq_one)
    then show ?thesis using that times32_proper [OF sqp, of 5] True bit sq by (auto simp: base_def)
  next
    case False
    then have "e div 2 ^ k = 2 * ?x" using half by (simp add: even_iff_mod_2_eq_zero)
    then show ?thesis using that [of "square b"] False bit sq sqp by simp
  qed
  have "pow5_loop e (2 ^ Suc k div 2) b = pow5_loop e (2 ^ k div 2) b1"
    using b1(1) by (subst pow5_loop.simps) simp
  then show ?case using Suc.IH [OF b1(2-4)] by simp
qed

lemma pow10_bigint_value:
  assumes "0 \<le> e" "e < 2 ^ 30"
  shows "\<exists>r. pow10_bigint e = Some r \<and> bvalue r = 10 ^ nat e \<and> proper r \<and> bexp r = nat e div 32"
proof (cases "e = 0")
  case True
  then show ?thesis using bigint_of_proper [of 1] by (simp add: pow10_bigint_def)
next
  case False
  obtain n where n: "nat e = n" "0 < n" "n < 2 ^ 31" using assms False by auto
  obtain k where k: "top_bit n 1 = 2 ^ k" "n < 2 ^ k" "2 ^ k \<le> 2 * n" using top_bit_value [of 1 n] n(2) by auto
  then obtain j where j: "k = Suc j" using n(2) by (cases k) auto
  have "n div 2 ^ j = 1" using k j n(2) by (intro div_nat_eqI) simp_all
  moreover obtain b where b: "bigint_of 5 = Some b" "bvalue b = 5" "proper b" "bexp b = 0" using bigint_of_proper [of 5] by auto
  ultimately obtain r where r: "pow5_loop n (2 ^ j div 2) b = Some r" "bvalue r = 5 ^ n" "proper r" "bexp r = 0"
    using pow5_loop_value [OF n(3), of b j] by auto
  obtain s where s: "shift_left r e = Some s" "bvalue s = 2 ^ n * 5 ^ n" "proper s" "bexp s = n div 32"
    using shift_left_proper [OF r(3) assms(1)] r n by auto
  have "pow10_bigint e = Some s"
    using assms(1) False b(1) r(1) s(1) k(1) j n(1) by (simp add: pow10_bigint_def Let_def)
  then show ?thesis using s n by (simp add: power_mult_distrib [symmetric])
qed


section \<open>Comparison\<close>

text \<open>
  \<open>small_zero b d\<close>: the number zero with an exponent that is not above the one of \<open>d\<close>; \<open>fit b d\<close>:
  numbers that compare by value with a proper \<open>d\<close>, up to zero bigits at the bottom.
\<close>

definition fit :: "bigint \<Rightarrow> bigint \<Rightarrow> bool" where
  "fit b d \<longleftrightarrow> trimmed b \<and> (proper b \<or> bexp b \<le> bexp d)"

lemma proper_fit: "proper b \<Longrightarrow> fit b d"
  by (simp add: fit_def proper_trimmed)

lemma bvalue_less: "all_bigits (bigits b) \<Longrightarrow> bvalue b < base ^ num_bigits b"
  using digits_value_less [of "bigits b"] by (simp add: bvalue_def num_bigits_def power_add)

lemma bvalue_ge:
  assumes "proper b"
  shows "base ^ (num_bigits b - 1) \<le> bvalue b"
proof -
  have ne: "bigits b \<noteq> []" "last (bigits b) \<noteq> 0" using assms by (simp_all add: proper_def)
  have "num_bigits b - 1 = bexp b + (length (bigits b) - 1)"
    using ne(1) by (cases "bigits b") (simp_all add: num_bigits_def)
  with digits_value_ge [OF ne] show ?thesis by (simp add: bvalue_def power_add)
qed

lemma compare_loop_swap: "compare_loop ys xs = - compare_loop xs ys"
  by (induction xs ys rule: compare_loop.induct) auto

lemma compare_loop_lex:
  "length u = length v \<Longrightarrow> all_bigits u \<Longrightarrow> all_bigits v \<Longrightarrow>
   compare_loop (rev u @ p) (rev v @ q) =
     (if digits_value u = digits_value v then compare_loop p q else if digits_value u > digits_value v then 1 else -1)"
proof (induction u arbitrary: v rule: rev_induct)
  case (snoc x u)
  then obtain w y where v: "v = w @ [y]" "length u = length w" by (cases v rule: rev_cases) auto
  have less: "digits_value u < base ^ length u" "digits_value w < base ^ length u"
    using snoc.prems v digits_value_less [of u] digits_value_less [of w] by auto
  have step: "digits_value u + base ^ length u * a < digits_value w + base ^ length u * b"
    if "a < b" "digits_value u < base ^ length u" for a b u
  proof -
    have "digits_value u + base ^ length u * a < base ^ length u * (a + 1)" using that(2) by simp
    also have "\<dots> \<le> base ^ length u * b" using that(1) by (intro mult_le_mono2) simp
    finally show ?thesis by linarith
  qed
  consider "x = y" | "x < y" | "y < x" by linarith
  then show ?case
  proof cases
    case 1
    then show ?thesis using snoc.IH [of w] snoc.prems v by simp
  next
    case 2
    have "digits_value (u @ [x]) < digits_value v" using 2 less v(2) step [of x y u] by (simp add: v(1))
    then show ?thesis using 2 v(1) by simp
  next
    case 3
    have "digits_value w + base ^ length u * y < base ^ length u * (y + 1)" using less(2) by simp
    also have "\<dots> \<le> base ^ length u * x" using 3 by (intro mult_le_mono2) simp
    finally have "digits_value v < digits_value (u @ [x])" using v by simp
    then show ?thesis using 3 v(1) by simp
  qed
qed simp

text \<open>With the same number of bigits the walk compares the values; if they are equal, the longer list wins.\<close>

lemma compare_same_length:
  assumes "num_bigits l = num_bigits r" "all_bigits (bigits l)" "all_bigits (bigits r)" "bexp l \<le> bexp r"
  shows "compare l r = (if bvalue l < bvalue r then -1 else if bvalue l = bvalue r \<and> bexp l = bexp r then 0 else 1)"
proof -
  obtain k where k: "bexp r = bexp l + k" using assms(4) le_Suc_ex by blast
  then have len: "length (bigits l) = k + length (bigits r)" using assms(1) by (simp add: num_bigits_def)
  obtain x u where x: "bigits l = x @ u" "length x = k" "length u = length (bigits r)"
    using len by (metis append_take_drop_id length_append length_take min_absorb2 le_add1 add_left_cancel)
  have less: "digits_value x < base ^ k" using x(1,2) assms(2) digits_value_less [of x] by simp
  have ok: "all_bigits u" using x(1) assms(2) by simp
  have vl: "bvalue l = base ^ bexp l * (digits_value x + base ^ k * digits_value u)"
    and vr: "bvalue r = base ^ bexp l * (base ^ k * digits_value (bigits r))"
    using x by (simp_all add: bvalue_def k power_add)
  have cmp: "compare l r = (if digits_value u = digits_value (bigits r) then compare_loop (rev x) []
      else if digits_value u > digits_value (bigits r) then 1 else -1)"
    using compare_loop_lex [OF x(3) ok assms(3), of "rev x" "[]"] assms(1) x(1) by (simp add: compare_def)
  consider "digits_value u = digits_value (bigits r)" | "digits_value u < digits_value (bigits r)"
    | "digits_value (bigits r) < digits_value u" by linarith
  then show ?thesis
  proof cases
    case 1
    then have "bvalue r \<le> bvalue l" using vl vr by simp
    moreover have "compare_loop (rev x) [] = (if k = 0 then 0 else 1)" using x(2) by (cases "rev x") auto
    moreover have "k = 0 \<Longrightarrow> bvalue l = bvalue r" using 1 vl vr x(2) by simp
    ultimately show ?thesis using cmp 1 k by auto
  next
    case 2
    then have "base ^ k * (digits_value u + 1) \<le> base ^ k * digits_value (bigits r)" by (intro mult_le_mono2) simp
    then have "digits_value x + base ^ k * digits_value u < base ^ k * digits_value (bigits r)" using less by simp
    then have "bvalue l < bvalue r" unfolding vl vr by simp
    then show ?thesis using cmp 2 by simp
  next
    case 3
    then have "base ^ k * (digits_value (bigits r) + 1) \<le> base ^ k * digits_value u" by (intro mult_le_mono2) simp
    moreover have "0 < base ^ k" by simp
    ultimately have "base ^ k * digits_value (bigits r) < digits_value x + base ^ k * digits_value u"
      unfolding distrib_left by linarith
    then have "bvalue r < bvalue l" unfolding vl vr by simp
    then show ?thesis using cmp 3 by simp
  qed
qed

lemma compare_swap: "compare r l = - compare l r"
  using compare_loop_swap [of "rev (bigits r)" "rev (bigits l)"] by (simp add: compare_def)

lemma compare_value:
  assumes r: "proper r" and l: "fit l r"
  shows "compare l r =
    (if bvalue l < bvalue r then -1 else if bvalue r < bvalue l then 1
     else if bexp l < bexp r then 1 else if bexp r < bexp l then -1 else 0)"
proof -
  have ok: "all_bigits (bigits l)" "all_bigits (bigits r)" "bigits l \<noteq> []" using assms by (auto simp: proper_def fit_def trimmed_def)
  have rpos: "1 \<le> num_bigits r" using r by (cases "bigits r") (auto simp: proper_def num_bigits_def)
  consider "num_bigits l < num_bigits r" | "num_bigits r < num_bigits l" | "num_bigits l = num_bigits r" by linarith
  then show ?thesis
  proof cases
    case 1
    have "bvalue l < base ^ num_bigits l" by (rule bvalue_less [OF ok(1)])
    also have "\<dots> \<le> base ^ (num_bigits r - 1)" using 1 by (intro power_increasing) simp_all
    also have "\<dots> \<le> bvalue r" by (rule bvalue_ge [OF r])
    finally show ?thesis using 1 by (simp add: compare_def)
  next
    case 2
    have "proper l"
    proof (rule ccontr)
      assume np: "\<not> proper l"
      then have le: "bexp l \<le> bexp r" "length (bigits l) = 1" using l by (auto simp: fit_def trimmed_def proper_def)
      have "1 \<le> length (bigits r)" using r by (cases "bigits r") (auto simp: proper_def)
      then show False using 2 le by (simp add: num_bigits_def)
    qed
    have "bvalue r < base ^ num_bigits r" by (rule bvalue_less [OF ok(2)])
    also have "\<dots> \<le> base ^ (num_bigits l - 1)" using 2 by (intro power_increasing) simp_all
    also have "\<dots> \<le> bvalue l" by (rule bvalue_ge [OF \<open>proper l\<close>])
    finally show ?thesis using 2 by (simp add: compare_def)
  next
    case 3
    show ?thesis
    proof (cases "bexp l \<le> bexp r")
      case True
      then show ?thesis using compare_same_length [OF 3 ok(1,2) True] by auto
    next
      case False
      then show ?thesis
        using compare_same_length [OF 3 [symmetric] ok(2,1)] compare_swap [of l r] by auto
    qed
  qed
qed


section \<open>Subtraction and division\<close>

lemma mult_less_succ: "(m :: nat) * a < m * (b + 1) \<Longrightarrow> a \<le> b"
  by (simp only: mult_less_cancel1) simp

lemma subtract_bigits_value:
  assumes "x < base" "y < base" "b \<le> 1"
  shows "subtract_bigits x y b = (if y + b \<le> x then (x - y - b, 0) else (base + x - y - b, 1))"
proof (cases "y + b \<le> x")
  case True
  then obtain d where d: "x = y + b + d" using le_Suc_ex by blast
  then have r: "2 ^ 64 + x - y - b = 2 ^ 64 + d" by simp
  have small: "d < base" using assms(1) d by linarith
  then have "d < 2 ^ 63" by (simp add: base_def)
  then have m: "(2 ^ 64 + x - y - b) mod 2 ^ 64 = d" "d div 2 ^ 63 = 0" unfolding r by simp_all
  have "subtract_bigits x y b = (d mod base, d div 2 ^ 63 mod base)" unfolding subtract_bigits_def Let_def m(1) ..
  then have "subtract_bigits x y b = (d, 0)" using small m(2) by simp
  then show ?thesis using True d by simp
next
  case False
  then obtain d where d: "y + b = x + d" "0 < d" by (metis not_le less_imp_add_positive add.commute)
  have db: "d \<le> base" using assms d by linarith
  have r: "2 ^ 64 + x - y - b = 2 ^ 64 - d" using d by linarith
  have n: "(2 :: nat) ^ 64 = base * base" "(2 :: nat) ^ 63 = base * (base div 2)" by (simp_all add: base_def)
  have m: "(2 ^ 64 + x - y - b) mod 2 ^ 64 = 2 ^ 64 - d" unfolding r using d(2) by simp
  have "subtract_bigits x y b = ((2 ^ 64 - d) mod base, (2 ^ 64 - d) div 2 ^ 63 mod base)"
    unfolding subtract_bigits_def Let_def m ..
  moreover have "(2 ^ 64 - d) mod base = base - d"
  proof -
    have "2 ^ 64 - d = (base - 1) * base + (base - d)" using db by (simp add: base_def)
    moreover have "base - d < base" using d(2) by simp
    ultimately show ?thesis by (simp only: mod_mult_self3 mod_less)
  qed
  moreover have "(2 ^ 64 - d) div 2 ^ 63 = 1"
  proof -
    have "d < 2 ^ 63" using db by (simp add: base_def)
    then show ?thesis using d(2) by (intro div_nat_eqI) simp_all
  qed
  ultimately have "subtract_bigits x y b = (base - d, 1)" by (simp only: mod_less base_pos)
  then show ?thesis using False d db by simp
qed

lemma subtract_loop_value:
  "all_bigits xs \<Longrightarrow> all_bigits ys \<Longrightarrow> borrow \<le> 1 \<Longrightarrow> length ys \<le> length xs \<Longrightarrow>
   length xs \<le> length ys + 1 \<Longrightarrow> digits_value ys + borrow \<le> digits_value xs \<Longrightarrow>
   \<exists>r. subtract_loop xs ys borrow = Some r \<and> digits_value r + digits_value ys + borrow = digits_value xs \<and>
     length r = length xs \<and> all_bigits r"
proof (induction xs ys borrow rule: subtract_loop.induct)
  case (1 x xs y ys borrow)
  note prems = "1.prems"
  obtain d b1 where db: "subtract_bigits x y borrow = (d, b1)" by fastforce
  have d: "d + y + borrow = x + base * b1" "d < base" "b1 \<le> 1"
    using db subtract_bigits_value [of x y borrow] prems(1-3) by (auto split: if_splits)
  have "base * (digits_value ys + b1) < base * (digits_value xs + 1)"
  proof -
    have "y + base * digits_value ys + borrow \<le> x + base * digits_value xs" using prems(6) by simp
    then have "base * digits_value ys + base * b1 \<le> d + base * digits_value xs" using d(1) by linarith
    then show ?thesis using d(2) by (simp add: distrib_left)
  qed
  then have "digits_value ys + b1 \<le> digits_value xs" by (rule mult_less_succ)
  then obtain r where r: "subtract_loop xs ys b1 = Some r" "digits_value r + digits_value ys + b1 = digits_value xs"
    "length r = length xs" "all_bigits r"
    using "1.IH" [OF db [symmetric] refl] d(3) prems by auto
  have "base * digits_value r + base * digits_value ys + base * b1 = base * digits_value xs"
    by (simp add: r(2) [symmetric] distrib_left)
  then show ?case using r db d by simp
next
  case (3 x xs borrow)
  note prems = "3.prems"
  show ?case
  proof (cases "borrow > 0")
    case True
    then have "subtract_bigits x 0 borrow = (x - borrow, 0)" "borrow \<le> x"
      using subtract_bigits_value [of x 0 borrow] prems by simp_all
    then have "borrow_loop x borrow = Some (x - borrow)"
      using True by (simp add: borrow_loop.simps)
    then show ?thesis using prems \<open>borrow \<le> x\<close> by simp
  next
    case False
    then show ?thesis using prems by (simp add: borrow_loop.simps)
  qed
qed auto

text \<open>\<open>aligned b d\<close>: what \<open>subtract_aligned\<close> asks for, apart from the order.\<close>

definition aligned :: "bigint \<Rightarrow> bigint \<Rightarrow> bool" where
  "aligned b d \<longleftrightarrow> trimmed b \<and> bexp b \<le> bexp d"

lemma compare_aligned:
  assumes "proper d" "aligned b d"
  shows "compare b d \<ge> 0 \<longleftrightarrow> bvalue d \<le> bvalue b"
  using compare_value [OF assms(1), of b] assms(2) by (simp add: fit_def aligned_def)

lemma subtract_aligned_value:
  assumes d: "proper d" and b: "aligned b d" and le: "bvalue d \<le> bvalue b" and less: "bvalue b < base * bvalue d"
  shows "\<exists>r. subtract_aligned b d = Some r \<and> bvalue r + bvalue d = bvalue b \<and> aligned r d \<and> bexp r = bexp b"
proof -
  obtain k where k: "bexp d = bexp b + k" using b by (auto simp: aligned_def le_iff_add)
  have bb: "all_bigits (bigits b)" "bigits b \<noteq> []" and dd: "all_bigits (bigits d)" "bigits d \<noteq> []" "last (bigits d) \<noteq> 0"
    using b d by (auto simp: aligned_def trimmed_def proper_def)
  have cmp: "compare b d \<ge> 0" using compare_aligned [OF d b] le by simp
  then have "num_bigits d \<le> num_bigits b" by (auto simp: compare_def split: if_splits)
  then have len: "k + length (bigits d) \<le> length (bigits b)" by (simp add: num_bigits_def k)
  let ?lo = "take k (bigits b)" and ?hi = "drop k (bigits b)"
  have "length (bigits d) \<le> length ?hi" using len by simp
  moreover have "length ?hi \<le> length (bigits d) + 1"
  proof -
    have "proper b" using trimmed_proper [of b] b le proper_pos [OF d] by (simp add: aligned_def)
    then have "base ^ (num_bigits b - 1) \<le> bvalue b" by (rule bvalue_ge)
    also have "\<dots> < base * base ^ num_bigits d" using less bvalue_less [OF dd(1)] by (simp add: less_trans)
    finally have "base ^ (num_bigits b - 1) < base ^ Suc (num_bigits d)" by simp
    then have "num_bigits b - 1 < Suc (num_bigits d)" by (rule power_less_imp_less_exp [OF base_pos(3)])
    then show ?thesis by (simp add: num_bigits_def k)
  qed
  ultimately have lens: "length (bigits d) \<le> length ?hi" "length ?hi \<le> length (bigits d) + 1" .
  have lo: "digits_value ?lo < base ^ k" "length ?lo = k"
    using digits_value_less [of ?lo] bb(1) len by (auto simp: all_bigits_def dest: in_set_takeD)
  have vb: "digits_value (bigits b) = digits_value ?lo + base ^ k * digits_value ?hi"
    using digits_value_append [of ?lo ?hi] lo(2) by simp
  have "base ^ k * digits_value (bigits d) \<le> digits_value (bigits b)"
    using le by (simp add: bvalue_def k power_add mult.assoc)
  then have "base ^ k * digits_value (bigits d) < base ^ k * (digits_value ?hi + 1)"
    using vb lo(1) by (simp add: distrib_left)
  then have "digits_value (bigits d) \<le> digits_value ?hi" by (rule mult_less_succ)
  moreover have "all_bigits ?hi" using bb(1) by (auto simp: all_bigits_def dest: in_set_dropD)
  ultimately obtain r where r: "subtract_loop ?hi (bigits d) 0 = Some r" "digits_value r + digits_value (bigits d) = digits_value ?hi"
    "length r = length ?hi" "all_bigits r"
    using subtract_loop_value [of ?hi "bigits d" 0] dd(1) lens by auto
  let ?xs = "?lo @ r"
  have ne: "?xs \<noteq> []" using bb(2) r(3) by auto
  have "all_bigits ?xs" using bb(1) r(4) by (auto simp: all_bigits_def dest: in_set_takeD)
  note zeros = remove_leading_zeros_value [OF ne]
  have "digits_value ?xs + base ^ k * digits_value (bigits d) = digits_value (bigits b)"
    using vb lo(2) by (simp add: r(2) [symmetric] distrib_left)
  then have "base ^ bexp b * digits_value ?xs + base ^ bexp d * digits_value (bigits d) = bvalue b"
    by (simp add: bvalue_def k power_add mult.assoc flip: distrib_left)
  moreover have "subtract_aligned b d = Some (b\<lparr>bigits := remove_leading_zeros ?xs\<rparr>)"
    using cmp k r(1) by (simp add: subtract_aligned_def Let_def)
  ultimately show ?thesis
    using zeros \<open>all_bigits ?xs\<close> b by (simp add: bvalue_def aligned_def trimmed_def)
qed

lemma divmod_loop_value:
  assumes d: "proper d"
  shows "aligned b d \<Longrightarrow> bvalue d \<le> bvalue b \<Longrightarrow> bvalue b < base * bvalue d \<Longrightarrow>
    \<exists>r. divmod_loop d b q = Some (q + bvalue b div bvalue d, r) \<and> bvalue r = bvalue b mod bvalue d \<and>
      aligned r d \<and> bexp r = bexp b"
proof (induction "bvalue b" arbitrary: b q rule: less_induct)
  case less
  have pos: "0 < bvalue d" by (rule proper_pos [OF d])
  obtain s where s: "subtract_aligned b d = Some s" "bvalue s + bvalue d = bvalue b" "aligned s d" "bexp s = bexp b"
    using subtract_aligned_value [OF d less.prems] by blast
  have div: "bvalue b div bvalue d = Suc (bvalue s div bvalue d)" "bvalue b mod bvalue d = bvalue s mod bvalue d"
    using pos div_add_self2 [of "bvalue d" "bvalue s"] by (simp_all flip: s(2))
  show ?case
  proof (cases "compare s d \<ge> 0")
    case True
    then have "bvalue d \<le> bvalue s" using compare_aligned [OF d s(3)] by simp
    moreover have "bvalue s < bvalue b" using s(2) pos by linarith
    ultimately obtain r where "divmod_loop d s (q + 1) = Some (q + 1 + bvalue s div bvalue d, r)"
      "bvalue r = bvalue s mod bvalue d" "aligned r d" "bexp r = bexp s"
      using less.hyps [of s "q + 1"] s(3) less.prems(3) less_trans by blast
    then show ?thesis using s True div by (subst divmod_loop.simps) simp
  next
    case False
    then have "bvalue s < bvalue d" using compare_aligned [OF d s(3)] by simp
    then show ?thesis using s False div by (subst divmod_loop.simps) simp
  qed
qed

lemma align_value:
  assumes "trimmed b"
  shows "bvalue (align b d) = bvalue b" "bexp (align b d) = min (bexp b) (bexp d)" "proper b \<Longrightarrow> aligned (align b d) d"
  using assms by (auto simp: align_def bvalue_def trimmed_def proper_def aligned_def min_def simp flip: power_add mult.assoc)

lemma divmod_assign_value:
  assumes d: "proper d" and b: "fit b d" and reg: "bvalue b \<noteq> bvalue d \<or> bexp b \<le> bexp d"
    and less: "bvalue b < base * bvalue d"
  shows "\<exists>r. divmod_assign b d = Some (bvalue b div bvalue d, r) \<and> bvalue r = bvalue b mod bvalue d \<and>
    fit r d \<and> (r = b \<or> aligned r d) \<and> bexp r \<le> bexp b"
proof (cases "compare b d < 0")
  case True
  then have "bvalue b < bvalue d" using compare_value [OF d b] reg by (auto split: if_splits)
  then show ?thesis using True b by (simp add: divmod_assign_def)
next
  case False
  have pos: "0 < bvalue d" by (rule proper_pos [OF d])
  have le: "bvalue d \<le> bvalue b" using False compare_value [OF d b] by (auto split: if_splits)
  have tr: "trimmed b" using b by (simp add: fit_def)
  have "proper b" using trimmed_proper [OF tr] le pos by simp
  note al = align_value [OF tr, of d]
  obtain r where r: "divmod_loop d (align b d) 0 = Some (bvalue b div bvalue d, r)" "bvalue r = bvalue b mod bvalue d" "aligned r d"
    "bexp r \<le> bexp b"
    using divmod_loop_value [OF d al(3) [OF \<open>proper b\<close>], of 0] le less by (auto simp: al(1,2))
  have "fit r d" using r(3) by (simp add: aligned_def fit_def)
  then show ?thesis using r False d by (simp add: divmod_assign_def proper_def)
qed


section \<open>Comparison of a sum\<close>

lemma digit_at: "all_bigits xs \<Longrightarrow> digits_value xs div base ^ k mod base = (if k < length xs then xs ! k else 0)"
proof (induction xs arbitrary: k)
  case (Cons x xs)
  then show ?case
    by (cases k) (simp_all add: div_mult2_eq)
qed simp

lemma get_bigit_value:
  assumes "all_bigits (bigits n)"
  shows "get_bigit n i = bvalue n div base ^ i mod base"
proof (cases "bexp n \<le> i")
  case True
  then obtain k where k: "i = bexp n + k" using le_Suc_ex by blast
  have "bvalue n div base ^ i = digits_value (bigits n) div base ^ k"
    by (simp add: bvalue_def k power_add div_mult2_eq)
  then show ?thesis using digit_at [OF assms, of k] k by (auto simp: get_bigit_def num_bigits_def)
next
  case False
  then obtain k where k: "bexp n = i + Suc k" by (metis add_Suc_right less_imp_Suc_add not_le)
  have "bvalue n div base ^ i = base * (base ^ k * digits_value (bigits n))"
    by (simp add: bvalue_def k power_add mult.assoc)
  then show ?thesis using False by (simp add: get_bigit_def)
qed

lemma div_step: "(v :: nat) div base ^ i = base * (v div base ^ Suc i) + v div base ^ i mod base"
  by (metis div_mult2_eq mult_div_mod_eq power_Suc2)

text \<open>
  The loop knows how far the sum of the parts above \<open>i\<close> is below the part of the right side
  there: by nothing or by one.
\<close>

lemma add_compare_loop_value:
  fixes l1 l2 r :: bigint and m :: nat
  assumes ok: "all_bigits (bigits l1)" "all_bigits (bigits l2)" "all_bigits (bigits r)"
    and low: "base ^ m dvd bvalue l1" "base ^ m dvd bvalue l2" "base ^ m dvd bvalue r"
  shows "(0 < k \<longrightarrow> i + 1 = m + k) \<Longrightarrow>
    bvalue r div base ^ (m + k) = bvalue l1 div base ^ (m + k) + bvalue l2 div base ^ (m + k) + d \<Longrightarrow> d \<le> 1 \<Longrightarrow>
    add_compare_loop l1 l2 r i k (d * base) =
      (if bvalue l1 + bvalue l2 < bvalue r then -1 else if bvalue l1 + bvalue l2 = bvalue r then 0 else 1)"
proof (induction k arbitrary: i d)
  case 0
  obtain a1 a2 a3 where a: "bvalue l1 = base ^ m * a1" "bvalue l2 = base ^ m * a2" "bvalue r = base ^ m * a3"
    using low by (auto elim!: dvdE)
  then have "a3 = a1 + a2 + d" using "0.prems"(2) by simp
  then have "bvalue r = bvalue l1 + bvalue l2 + base ^ m * d" using a by (simp add: distrib_left)
  then show ?case using "0.prems"(3) by auto
next
  case (Suc k)
  have i: "i = m + k" using Suc.prems(1) by simp
  let ?p = "base ^ i"
  let ?x = "get_bigit l1 i" and ?y = "get_bigit l2 i" and ?z = "get_bigit r i"
  have less: "?x < base" "?y < base" "?z < base" using get_bigit_value ok by simp_all
  have parts: "bvalue l1 div ?p = base * (bvalue l1 div base ^ Suc i) + ?x"
    "bvalue l2 div ?p = base * (bvalue l2 div base ^ Suc i) + ?y"
    "bvalue r div ?p = base * (bvalue r div base ^ Suc i) + ?z"
    using div_step get_bigit_value ok by metis+
  have top: "bvalue r div base ^ Suc i = bvalue l1 div base ^ Suc i + bvalue l2 div base ^ Suc i + d"
    using Suc.prems(2) i by simp
  have diff: "bvalue r div ?p + (?x + ?y) = bvalue l1 div ?p + bvalue l2 div ?p + (?z + d * base)"
    unfolding parts top by (simp add: distrib_left)
  have "(2 :: nat) ^ 64 = base * base" by (simp add: base_def)
  moreover have "3 * base \<le> base * base" by (simp add: base_def)
  ultimately have m64: "(?x + ?y) mod 2 ^ 64 = ?x + ?y" "(?z + d * base) mod 2 ^ 64 = ?z + d * base" "base mod 2 ^ 64 = base"
    using less Suc.prems(3) mult_le_mono1 [OF Suc.prems(3), of base] by (simp_all add: base_def)
  have q: "bvalue n div ?p * ?p \<le> bvalue n" "bvalue n < (bvalue n div ?p + 1) * ?p" for n
  proof -
    have "bvalue n mod ?p < ?p" by simp
    then show "bvalue n div ?p * ?p \<le> bvalue n" "bvalue n < (bvalue n div ?p + 1) * ?p"
      using div_mult_mod_eq [of "bvalue n" ?p] unfolding distrib_right mult_1 by linarith+
  qed
  consider "?z + d * base < ?x + ?y" | "?x + ?y + 1 < ?z + d * base"
    | "?x + ?y \<le> ?z + d * base" "?z + d * base \<le> ?x + ?y + 1" by linarith
  then show ?case
  proof cases
    case 1
    then have "bvalue r div ?p + 1 \<le> bvalue l1 div ?p + bvalue l2 div ?p" using diff by linarith
    then have "(bvalue r div ?p + 1) * ?p \<le> (bvalue l1 div ?p + bvalue l2 div ?p) * ?p" by (rule mult_le_mono1)
    then have "bvalue r < bvalue l1 + bvalue l2" using q(1) [of l1] q(1) [of l2] q(2) [of r] unfolding distrib_right by linarith
    then show ?thesis using 1 m64 by (simp add: Let_def)
  next
    case 2
    then have "bvalue l1 div ?p + 1 + (bvalue l2 div ?p + 1) \<le> bvalue r div ?p" using diff by linarith
    then have "(bvalue l1 div ?p + 1 + (bvalue l2 div ?p + 1)) * ?p \<le> bvalue r div ?p * ?p" by (rule mult_le_mono1)
    then have "bvalue l1 + bvalue l2 < bvalue r" using q(2) [of l1] q(2) [of l2] q(1) [of r] unfolding distrib_right by linarith
    moreover have "1 < ?z + d * base - (?x + ?y)" using 2 by linarith
    ultimately show ?thesis using 2 m64 by (simp add: Let_def)
  next
    case 3
    obtain e where e: "?z + d * base = ?x + ?y + e" using le_Suc_ex [OF 3(1)] by blast
    then have e1: "e \<le> 1" using 3(2) by linarith
    have "bvalue r div base ^ (m + k) = bvalue l1 div base ^ (m + k) + bvalue l2 div base ^ (m + k) + e"
      using diff e i by simp
    from Suc.IH [OF _ this e1, of "i - 1"] i
    have "add_compare_loop l1 l2 r (i - 1) k (e * base) =
      (if bvalue l1 + bvalue l2 < bvalue r then -1 else if bvalue l1 + bvalue l2 = bvalue r then 0 else 1)"
      by (cases k) simp_all
    moreover have "(e * base) mod 2 ^ 64 = e * base" using e1 m64(3) by (cases e) simp_all
    ultimately show ?thesis using e e1 m64 by (simp add: Let_def)
  qed
qed


lemma add_compare_value:
  assumes r: "proper r" and l: "fit l1 r" "fit l2 r"
  shows "add_compare l1 l2 r =
    (if bvalue l1 + bvalue l2 < bvalue r then -1 else if bvalue l1 + bvalue l2 = bvalue r then 0 else 1)"
proof -
  have ok: "all_bigits (bigits l1)" "all_bigits (bigits l2)" "all_bigits (bigits r)"
    using r l by (simp_all add: fit_def trimmed_def proper_def)
  have big: "proper l" if "num_bigits r < num_bigits l" "fit l r" for l
  proof (rule ccontr)
    assume np: "\<not> proper l"
    then have "bexp l \<le> bexp r" "length (bigits l) = 1" using that(2) by (auto simp: fit_def trimmed_def proper_def)
    moreover have "1 \<le> length (bigits r)" using r by (cases "bigits r") (auto simp: proper_def)
    ultimately show False using that(1) by (simp add: num_bigits_def)
  qed
  have above: "bvalue r < bvalue l" if "num_bigits r < num_bigits l" "fit l r" for l
  proof -
    have "bvalue r < base ^ num_bigits r" by (rule bvalue_less [OF ok(3)])
    also have "\<dots> \<le> base ^ (num_bigits l - 1)" using that(1) by (intro power_increasing) simp_all
    also have "\<dots> \<le> bvalue l" by (rule bvalue_ge [OF big [OF that]])
    finally show ?thesis .
  qed
  obtain m where m: "m = min (min (bexp l1) (bexp l2)) (bexp r)" by blast
  consider "max (num_bigits l1) (num_bigits l2) + 1 < num_bigits r" | "num_bigits r < max (num_bigits l1) (num_bigits l2)"
    | "\<not> max (num_bigits l1) (num_bigits l2) + 1 < num_bigits r" "num_bigits l1 \<le> num_bigits r" "num_bigits l2 \<le> num_bigits r"
    by linarith
  then show ?thesis
  proof cases
    case 1
    let ?e = "num_bigits r - 2"
    have "bvalue l < base ^ ?e" if "num_bigits l \<le> ?e" "all_bigits (bigits l)" for l
      using less_le_trans [OF bvalue_less [OF that(2)] power_increasing [OF that(1)]] by simp
    then have "bvalue l1 + bvalue l2 < base ^ ?e + base ^ ?e" using 1 ok by (intro add_strict_mono) simp_all
    also have "\<dots> \<le> base * base ^ ?e" by (simp add: base_def)
    also have "base * base ^ ?e = base ^ (num_bigits r - 1)" using 1 by (simp flip: power_Suc)
    also have "\<dots> \<le> bvalue r" by (rule bvalue_ge [OF r])
    finally show ?thesis using 1 by (simp add: add_compare_def Let_def)
  next
    case 2
    then have "bvalue r < bvalue l1 + bvalue l2" using above [OF _ l(1)] above [OF _ l(2)] by (auto simp: max_def split: if_splits)
    then show ?thesis using 2 by (simp add: add_compare_def Let_def)
  next
    case 3
    obtain k where k: "num_bigits r = m + k" using m by (metis le_iff_add min.cobounded2 num_bigits_def trans_le_add2)
    have dvd: "base ^ m dvd bvalue n" if "m \<le> bexp n" for n
      using that by (simp add: bvalue_def le_imp_power_dvd)
    have zero: "bvalue n div base ^ (m + k) = 0" if "num_bigits n \<le> num_bigits r" "all_bigits (bigits n)" for n
      using less_le_trans [OF bvalue_less [OF that(2)] power_increasing [OF that(1)]] k by simp
    have ms: "m \<le> bexp l1" "m \<le> bexp l2" "m \<le> bexp r" unfolding m by linarith+
    have z: "bvalue l1 div base ^ (m + k) = 0" "bvalue l2 div base ^ (m + k) = 0" "bvalue r div base ^ (m + k) = 0"
      by (rule zero; use 3 ok in simp)+
    have "0 < k \<longrightarrow> num_bigits r - 1 + 1 = m + k" using k by simp
    moreover have "bvalue r div base ^ (m + k) = bvalue l1 div base ^ (m + k) + bvalue l2 div base ^ (m + k) + 0"
      unfolding z by simp
    ultimately have "add_compare_loop l1 l2 r (num_bigits r - 1) k (0 * base) =
      (if bvalue l1 + bvalue l2 < bvalue r then -1 else if bvalue l1 + bvalue l2 = bvalue r then 0 else 1)"
      by (rule add_compare_loop_value [OF ok dvd [OF ms(1)] dvd [OF ms(2)] dvd [OF ms(3)]]) simp
    moreover have "num_bigits r - min (min (bexp l1) (bexp l2)) (bexp r) = k" unfolding m [symmetric] k by simp
    moreover have "\<not> num_bigits r < max (num_bigits l1) (num_bigits l2)" using 3(2,3) by simp
    ultimately show ?thesis using 3(1) unfolding add_compare_def Let_def by simp
  qed
qed

lemma times32_fit:
  assumes "fit b d" "0 < v" "v < base"
  shows "\<exists>r. times32 b v = Some r \<and> bvalue r = v * bvalue b \<and> fit r d \<and> bexp r = bexp b"
proof (cases "proper b")
  case True
  then show ?thesis using times32_proper [OF True assms(2,3)] proper_fit by blast
next
  case False
  then have z: "bigits b = [0]" "bexp b \<le> bexp d" using assms(1) by (auto simp: fit_def trimmed_def proper_def length_Suc_conv)
  then show ?thesis using assms(1,2)
    by (auto simp: times32_def multiply32_def Let_def fit_def trimmed_def bvalue_def)
qed



section \<open>What the operations compute\<close>

text \<open>
  C15. The operations on bigints are those on the numbers they stand for: multiplication by a factor
  of 32 or of 128 bits, the shift, the square, the power of 10, and the comparison of a sum. Each
  returns, and the numbers that come back have no zero bigits at the top.
\<close>

theorem bigint_refines_nat:
  assumes "proper b" "proper b1" "proper b2" "0 < v" "v < 2 ^ 32" "0 < w" "w < 2 ^ 128" "0 \<le> k" "0 \<le> x" "x < 2 ^ 30"
    "length (bigits b) \<le> 2 ^ 32"
  shows "(\<exists>r. times32 b v = Some r \<and> proper r \<and> bvalue r = v * bvalue b) \<and>
    (\<exists>r. times128 b w = Some r \<and> proper r \<and> bvalue r = w * bvalue b) \<and>
    (\<exists>r. shift_left b k = Some r \<and> proper r \<and> bvalue r = 2 ^ nat k * bvalue b) \<and>
    (\<exists>r. pow10_bigint x = Some r \<and> proper r \<and> bvalue r = 10 ^ nat x) \<and>
    proper (square b) \<and> bvalue (square b) = bvalue b ^ 2 \<and>
    add_compare b1 b2 b = sgn (int (bvalue b1) + int (bvalue b2) - int (bvalue b))"
proof -
  have ok: "all_bigits (bigits b)" "bigits b \<noteq> []" using assms(1) by (simp_all add: proper_def)
  have sq: "bvalue (square b) = bvalue b ^ 2" "trimmed (square b)" using square_value [OF ok assms(11)] by simp_all
  then have "proper (square b)" using trimmed_proper proper_pos [OF assms(1)] by simp
  moreover have "add_compare b1 b2 b = sgn (int (bvalue b1) + int (bvalue b2) - int (bvalue b))"
    using add_compare_value [OF assms(1) proper_fit [OF assms(2)] proper_fit [OF assms(3)]] by (auto simp: sgn_if)
  moreover have "v < base" using assms(5) by (simp add: base_def)
  ultimately show ?thesis
    using times32_proper [OF assms(1,4)] times128_proper [OF assms(1,6,7)] shift_left_proper [OF assms(1,8)]
      pow10_bigint_value [OF assms(9,10)] sq(1) by blast
qed

lemma bigint_refines_nat_witness:
  "(\<exists>r. times32 \<lparr>bigits = [7, 1], bexp = 1\<rparr> 10 = Some r \<and> proper r \<and> bvalue r = 10 * bvalue \<lparr>bigits = [7, 1], bexp = 1\<rparr>) \<and>
    (\<exists>r. times128 \<lparr>bigits = [7, 1], bexp = 1\<rparr> (2 ^ 100) = Some r \<and> proper r \<and>
      bvalue r = 2 ^ 100 * bvalue \<lparr>bigits = [7, 1], bexp = 1\<rparr>) \<and>
    (\<exists>r. shift_left \<lparr>bigits = [7, 1], bexp = 1\<rparr> 33 = Some r \<and> proper r \<and>
      bvalue r = 2 ^ nat 33 * bvalue \<lparr>bigits = [7, 1], bexp = 1\<rparr>) \<and>
    (\<exists>r. pow10_bigint 300 = Some r \<and> proper r \<and> bvalue r = 10 ^ nat 300) \<and>
    proper (square \<lparr>bigits = [7, 1], bexp = 1\<rparr>) \<and>
    bvalue (square \<lparr>bigits = [7, 1], bexp = 1\<rparr>) = bvalue \<lparr>bigits = [7, 1], bexp = 1\<rparr> ^ 2 \<and>
    add_compare \<lparr>bigits = [5], bexp = 0\<rparr> \<lparr>bigits = [6], bexp = 2\<rparr> \<lparr>bigits = [7, 1], bexp = 1\<rparr> =
      sgn (int (bvalue \<lparr>bigits = [5], bexp = 0\<rparr>) + int (bvalue \<lparr>bigits = [6], bexp = 2\<rparr>) - int (bvalue \<lparr>bigits = [7, 1], bexp = 1\<rparr>))"
  by (rule bigint_refines_nat) (simp_all add: proper_def base_def)




end
