(* ===== verification/Fmt_Dragon.thy ===== *)
theory Fmt_Dragon
  imports Fmt_Bigint
begin

text \<open>
  \<open>format_dragon\<close> of fmt/include/fmt/format.h: the digits of a floating-point number
  \<open>f * 2 ^ e\<close>, either the given number of them or as many as it takes to identify the number.
  A character of the buffer is given by its distance from \<open>'0'\<close>, so that \<open>overflow\<close> is 10. The
  result is the buffer and \<open>exp10\<close>; the left of a sum is an error that is thrown, \<open>None\<close> a call
  that does not return (see \<open>Fmt_Bigint\<close>).
\<close>

section \<open>The program\<close>

definition int_max :: int where
  "int_max = 2147483647"

definition adjust_precision :: "int \<Rightarrow> int \<Rightarrow> string + int" where
  "adjust_precision precision exp10 =
     (if exp10 > 0 \<and> precision > int_max - exp10 then Inl ''number is too big'' else Inr (precision + exp10))"

record dragon =
  numerator :: bigint
  denominator :: bigint
  lower :: bigint
  upper_store :: "bigint option"

text \<open>\<open>upper\<close> points to \<open>lower\<close> unless the predecessor is closer.\<close>

definition upper :: "dragon \<Rightarrow> bigint" where
  "upper s = (case upper_store s of None \<Rightarrow> lower s | Some u \<Rightarrow> u)"

lemma upper_numerator [simp]: "upper (s\<lparr>numerator := n\<rparr>) = upper s"
  by (simp add: upper_def split: option.split)

text \<open>The extra bits that make the bounds integers.\<close>

definition dragon_shift :: "bool \<Rightarrow> int" where
  "dragon_shift closer = (if closer then 2 else 1)"

definition dragon_setup :: "nat \<Rightarrow> int \<Rightarrow> bool \<Rightarrow> int \<Rightarrow> dragon option" where
  "dragon_setup f e closer exp10 =
     (let shift = dragon_shift closer in
      if e \<ge> 0 then
        do {
          n0 \<leftarrow> bigint_of f;
          n \<leftarrow> shift_left n0 (e + shift);
          l0 \<leftarrow> bigint_of 1;
          l \<leftarrow> shift_left l0 e;
          u \<leftarrow> (if closer then do { u0 \<leftarrow> bigint_of 1; u1 \<leftarrow> shift_left u0 (e + 1); Some (Some u1) } else Some None);
          d0 \<leftarrow> pow10_bigint exp10;
          d \<leftarrow> shift_left d0 shift;
          Some \<lparr>numerator = n, denominator = d, lower = l, upper_store = u\<rparr>
        }
      else if exp10 < 0 then
        do {
          n0 \<leftarrow> pow10_bigint (- exp10);
          u \<leftarrow> (if closer then do { u1 \<leftarrow> shift_left n0 1; Some (Some u1) } else Some None);
          n1 \<leftarrow> times128 n0 f;
          n \<leftarrow> shift_left n1 shift;
          d0 \<leftarrow> bigint_of 1;
          d \<leftarrow> shift_left d0 (shift - e);
          Some \<lparr>numerator = n, denominator = d, lower = n0, upper_store = u\<rparr>
        }
      else
        do {
          n0 \<leftarrow> bigint_of f;
          n \<leftarrow> shift_left n0 shift;
          d0 \<leftarrow> pow10_bigint exp10;
          d \<leftarrow> shift_left d0 (shift - e);
          l \<leftarrow> bigint_of 1;
          u \<leftarrow> (if closer then do { u1 \<leftarrow> bigint_of 2; Some (Some u1) } else Some None);
          Some \<lparr>numerator = n, denominator = d, lower = l, upper_store = u\<rparr>
        })"

definition scale_bounds :: "dragon \<Rightarrow> dragon option" where
  "scale_bounds s =
     do {
       l \<leftarrow> times32 (lower s) 10;
       u \<leftarrow> (case upper_store s of None \<Rightarrow> Some None | Some u \<Rightarrow> do { u1 \<leftarrow> times32 u 10; Some (Some u1) });
       Some (s\<lparr>lower := l, upper_store := u\<rparr>)
     }"

definition dragon_fixup :: "dragon \<Rightarrow> int \<Rightarrow> int \<Rightarrow> int \<Rightarrow> (dragon \<times> int) option" where
  "dragon_fixup s evn num_digits exp10 =
     (if add_compare (numerator s) (upper s) (denominator s) + evn \<le> 0 then
        do {
          n \<leftarrow> times32 (numerator s) 10;
          s1 \<leftarrow> (if num_digits < 0 then scale_bounds (s\<lparr>numerator := n\<rparr>) else Some (s\<lparr>numerator := n\<rparr>));
          Some (s1, exp10 - 1)
        }
      else Some (s, exp10))"

text \<open>The shortest representation: \<open>data\<close> are the digits so far.\<close>

partial_function (option) shortest_loop :: "int \<Rightarrow> dragon \<Rightarrow> nat list \<Rightarrow> (nat list) option" where
  "shortest_loop evn s data =
     Option.bind (divmod_assign (numerator s) (denominator s)) (\<lambda>(digit, n).
       let low = compare n (lower s) - evn < 0;
           high = add_compare n (upper s) (denominator s) + evn > 0
       in if low \<or> high then
            Some (data @ [if \<not> low then digit + 1
                          else if high then
                            let result = add_compare n n (denominator s)
                            in if result > 0 \<or> result = 0 \<and> digit mod 2 \<noteq> 0 then digit + 1 else digit
                          else digit])
          else
            Option.bind (times32 n 10) (\<lambda>n1.
            Option.bind (scale_bounds (s\<lparr>numerator := n1\<rparr>)) (\<lambda>s1.
              shortest_loop evn s1 (data @ [digit]))))"

text \<open>All digits but the last one.\<close>

fun dragon_digits :: "nat \<Rightarrow> bigint \<Rightarrow> bigint \<Rightarrow> (nat list \<times> bigint) option" where
  "dragon_digits 0 n d = Some ([], n)"
| "dragon_digits (Suc k) n d =
     do {
       (digit, n1) \<leftarrow> divmod_assign n d;
       n2 \<leftarrow> times32 n1 10;
       (ds, n3) \<leftarrow> dragon_digits k n2 d;
       Some (digit # ds, n3)
     }"

text \<open>The propagation of the carry, from the last digit to the first.\<close>

fun propagate :: "nat list \<Rightarrow> nat list" where
  "propagate (x # y # rest) = (if x = 10 then 0 # propagate ((y + 1) # rest) else x # y # rest)"
| "propagate ds = ds"

definition fixed_digits :: "bool \<Rightarrow> dragon \<Rightarrow> int \<Rightarrow> int \<Rightarrow> (nat list \<times> int) option" where
  "fixed_digits fixed s num_digits exp10 =
     (let exp1 = exp10 - (num_digits - 1) in
      if num_digits \<le> 0 then
        if num_digits = 0 then
          do {
            d \<leftarrow> times32 (denominator s) 10;
            Some ([if add_compare (numerator s) (numerator s) d > 0 then 1 else 0], exp1)
          }
        else Some ([0], exp1)
      else
        do {
          (ds, n) \<leftarrow> dragon_digits (nat num_digits - 1) (numerator s) (denominator s);
          (digit, n1) \<leftarrow> divmod_assign n (denominator s);
          let result = add_compare n1 n1 (denominator s);
          if result > 0 \<or> result = 0 \<and> digit mod 2 \<noteq> 0 then
            if digit = 9 then
              let buf = rev (propagate (rev (ds @ [10])))
              in if hd buf = 10 then
                   if fixed then Some (1 # tl buf @ [0], exp1) else Some (1 # tl buf, exp1 + 1)
                 else Some (buf, exp1)
            else Some (ds @ [digit + 1], exp1)
          else Some (ds @ [digit], exp1)
        })"

definition format_dragon :: "nat \<Rightarrow> int \<Rightarrow> bool \<Rightarrow> bool \<Rightarrow> bool \<Rightarrow> int \<Rightarrow> int \<Rightarrow> (string + (nat list \<times> int)) option" where
  "format_dragon f e closer fixup fixed num_digits exp10 =
     Option.bind (dragon_setup f e closer exp10) (\<lambda>s.
     let evn = (if f mod 2 = 0 then 1 else 0) :: int;
         shortest = num_digits < 0
     in Option.bind (if fixup then dragon_fixup s evn num_digits exp10 else Some (s, exp10)) (\<lambda>(s1, exp1).
        case (if fixup \<and> fixed then adjust_precision num_digits (exp1 + 1) else Inr num_digits) of
          Inl e \<Rightarrow> Some (Inl e)
        | Inr n \<Rightarrow>
            if shortest then
              Option.bind (shortest_loop evn s1 []) (\<lambda>data. Some (Inr (data, exp1 - (int (length data) - 1))))
            else Option.bind (fixed_digits fixed s1 n exp1) (\<lambda>r. Some (Inr r))))"


section \<open>The numbers the program starts with\<close>

text \<open>
  \<open>num_at f e t / den_at e t\<close> is the number divided by \<open>10 ^ t\<close>; \<open>gap_at e t / den_at e t\<close> is the unit
  of its last place.
\<close>

definition gap_at :: "int \<Rightarrow> int \<Rightarrow> nat" where
  "gap_at e t = 2 ^ nat e * 10 ^ nat (- t)"

definition num_at :: "nat \<Rightarrow> int \<Rightarrow> int \<Rightarrow> nat" where
  "num_at f e t = f * gap_at e t"

definition den_at :: "int \<Rightarrow> int \<Rightarrow> nat" where
  "den_at e t = 2 ^ nat (- e) * 10 ^ nat t"

definition numerator_exp :: "int \<Rightarrow> bool \<Rightarrow> int \<Rightarrow> nat" where
  "numerator_exp e closer t =
     (if e \<ge> 0 then nat (e + dragon_shift closer) div 32 else if t < 0 then nat (- t) div 32 else 0)"

definition denominator_exp :: "int \<Rightarrow> bool \<Rightarrow> int \<Rightarrow> nat" where
  "denominator_exp e closer t =
     (if e \<ge> 0 then nat t div 32 else nat t div 32 + nat (dragon_shift closer - e) div 32)"

definition lower_exp :: "int \<Rightarrow> int \<Rightarrow> nat" where
  "lower_exp e t = (if e \<ge> 0 then nat e div 32 else if t < 0 then nat (- t) div 32 else 0)"

lemma dragon_setup_value:
  assumes f: "0 < f" "f < 2 ^ 128" and e: "\<bar>e\<bar> < 2 ^ 29" "\<bar>t\<bar> < 2 ^ 29" "0 \<le> e \<longrightarrow> 0 \<le> t"
  shows "\<exists>s. dragon_setup f e closer t = Some s \<and>
    proper (numerator s) \<and> proper (denominator s) \<and> proper (lower s) \<and> proper (upper s) \<and>
    bvalue (numerator s) = 2 ^ nat (dragon_shift closer) * num_at f e t \<and>
    bvalue (denominator s) = 2 ^ nat (dragon_shift closer) * den_at e t \<and>
    bvalue (lower s) = gap_at e t \<and> bvalue (upper s) = (if closer then 2 else 1) * gap_at e t \<and>
    bexp (numerator s) = numerator_exp e closer t \<and> bexp (denominator s) = denominator_exp e closer t \<and>
    bexp (lower s) = lower_exp e t"
proof -
  let ?s = "dragon_shift closer"
  have sh: "0 \<le> ?s" "nat ?s div 32 = 0" by (simp_all add: dragon_shift_def)
  obtain f0 where f0: "bigint_of f = Some f0" "bvalue f0 = f" "proper f0" "bexp f0 = 0"
    using bigint_of_proper [OF f(1)] by blast
  obtain one where one: "bigint_of 1 = Some one" "bvalue one = 1" "proper one" "bexp one = 0"
    using bigint_of_proper [of 1] by auto
  obtain two where two: "bigint_of 2 = Some two" "bvalue two = 2" "proper two" "bexp two = 0"
    using bigint_of_proper [of 2] by auto
  note shift = shift_left_proper
  consider "0 \<le> e" | "e < 0" "t < 0" | "e < 0" "0 \<le> t" by linarith
  then show ?thesis
  proof cases
    case 1
    have t: "0 \<le> t" "t < 2 ^ 30" using e 1 by auto
    have pw: "(2 :: nat) ^ nat (e + ?s) = 2 ^ nat ?s * 2 ^ nat e" "(2 :: nat) ^ nat (e + 1) = 2 * 2 ^ nat e"
      using 1 sh(1) by (simp_all add: nat_add_distrib power_add)
    have nn: "0 \<le> e + ?s" "0 \<le> e + 1" using 1 sh(1) by simp_all
    obtain n where n: "shift_left f0 (e + ?s) = Some n" "bvalue n = 2 ^ nat ?s * (f * 2 ^ nat e)" "proper n" "bexp n = nat (e + ?s) div 32"
      using shift [OF f0(3) nn(1)] f0 pw(1) by auto
    obtain l where l: "shift_left one e = Some l" "bvalue l = 2 ^ nat e" "proper l" "bexp l = nat e div 32"
      using shift [OF one(3) 1] one by auto
    obtain u where u: "shift_left one (e + 1) = Some u" "bvalue u = 2 * 2 ^ nat e" "proper u"
      using shift [OF one(3) nn(2)] one pw(2) by auto
    obtain d0 where d0: "pow10_bigint t = Some d0" "bvalue d0 = 10 ^ nat t" "proper d0" "bexp d0 = nat t div 32"
      using pow10_bigint_value [OF t] by auto
    obtain d where d: "shift_left d0 ?s = Some d" "bvalue d = 2 ^ nat ?s * 10 ^ nat t" "proper d" "bexp d = nat t div 32"
      using shift [OF d0(3) sh(1)] d0 sh(2) by auto
    show ?thesis
      using 1 t(1) f0 one n l u d0 d
      by (cases closer) (simp_all add: dragon_setup_def upper_def num_at_def gap_at_def den_at_def
        numerator_exp_def denominator_exp_def lower_exp_def Let_def)
  next
    case 2
    have t: "0 \<le> - t" "- t < 2 ^ 30" using e 2 by auto
    have pw: "(2 :: nat) ^ nat (?s - e) = 2 ^ nat ?s * 2 ^ nat (- e)"
      using 2 sh(1) nat_add_distrib [of ?s "- e"] by (simp add: power_add)
    obtain n0 where n0: "pow10_bigint (- t) = Some n0" "bvalue n0 = 10 ^ nat (- t)" "proper n0" "bexp n0 = nat (- t) div 32"
      using pow10_bigint_value [OF t] by auto
    obtain u where u: "shift_left n0 1 = Some u" "bvalue u = 2 * 10 ^ nat (- t)" "proper u"
      using shift [OF n0(3), of 1] n0 by auto
    obtain n1 where n1: "times128 n0 f = Some n1" "bvalue n1 = f * 10 ^ nat (- t)" "proper n1" "bexp n1 = nat (- t) div 32"
      using times128_proper [OF n0(3) f] n0 by auto
    obtain n where n: "shift_left n1 ?s = Some n" "bvalue n = 2 ^ nat ?s * (f * 10 ^ nat (- t))" "proper n" "bexp n = nat (- t) div 32"
      using shift [OF n1(3) sh(1)] n1 sh(2) by auto
    have "0 \<le> ?s - e" using 2 sh(1) by simp
    then obtain d where d: "shift_left one (?s - e) = Some d" "bvalue d = 2 ^ nat ?s * 2 ^ nat (- e)" "proper d" "bexp d = nat (?s - e) div 32"
      using shift [OF one(3), of "?s - e"] one pw by auto
    show ?thesis
      using 2 n0 u n1 n d one
      by (cases closer) (simp_all add: dragon_setup_def upper_def num_at_def gap_at_def den_at_def
        numerator_exp_def denominator_exp_def lower_exp_def Let_def)
  next
    case 3
    have t: "t < 2 ^ 30" using e by auto
    have pw: "(2 :: nat) ^ nat (?s - e) = 2 ^ nat ?s * 2 ^ nat (- e)"
      using 3 sh(1) nat_add_distrib [of ?s "- e"] by (simp add: power_add)
    obtain n where n: "shift_left f0 ?s = Some n" "bvalue n = 2 ^ nat ?s * f" "proper n" "bexp n = 0"
      using shift [OF f0(3) sh(1)] f0 sh(2) by auto
    obtain d0 where d0: "pow10_bigint t = Some d0" "bvalue d0 = 10 ^ nat t" "proper d0" "bexp d0 = nat t div 32"
      using pow10_bigint_value [OF 3(2) t] by auto
    have "0 \<le> ?s - e" using 3 sh(1) by simp
    then obtain d where d: "shift_left d0 (?s - e) = Some d" "bvalue d = 2 ^ nat ?s * (2 ^ nat (- e) * 10 ^ nat t)" "proper d"
      "bexp d = nat t div 32 + nat (?s - e) div 32"
      using shift [OF d0(3), of "?s - e"] d0 pw by auto
    show ?thesis
      using 3 f0 n d0 d one two
      by (cases closer) (simp_all add: dragon_setup_def upper_def num_at_def gap_at_def den_at_def
        numerator_exp_def denominator_exp_def lower_exp_def Let_def)
  qed
qed


section \<open>Digits\<close>

definition nearest_even :: "nat \<Rightarrow> nat \<Rightarrow> nat" where
  "nearest_even n d =
     (if 2 * (n mod d) > d \<or> 2 * (n mod d) = d \<and> odd (n div d) then n div d + 1 else n div d)"

fun digits_number :: "nat list \<Rightarrow> nat" where
  "digits_number [] = 0"
| "digits_number (d # ds) = d * 10 ^ length ds + digits_number ds"

lemma digits_number_append: "digits_number (xs @ ys) = digits_number xs * 10 ^ length ys + digits_number ys"
  by (induction xs) (simp_all add: power_add algebra_simps)

lemma digits_number_snoc [simp]: "digits_number (xs @ [y]) = 10 * digits_number xs + y"
  by (simp add: digits_number_append)

lemma digits_number_zeros: "\<forall>x \<in> set xs. x = 0 \<Longrightarrow> digits_number xs = 0"
  by (induction xs) simp_all

text \<open>Numerators on which every division by the denominator is exact, also after multiplying by 10.\<close>

definition steady :: "bigint \<Rightarrow> bigint \<Rightarrow> bool" where
  "steady n d \<longleftrightarrow> fit n d \<and> (bexp n \<le> bexp d \<or> (\<forall>j. bvalue n * 10 ^ j \<noteq> bvalue d))"

lemma divmod_steady:
  assumes "proper d" "steady n d" "bvalue n < 10 * bvalue d"
  shows "\<exists>r. divmod_assign n d = Some (bvalue n div bvalue d, r) \<and> bvalue r = bvalue n mod bvalue d \<and>
    steady r d \<and> (r = n \<or> bexp r \<le> bexp d) \<and> bexp r \<le> bexp n"
proof -
  have "bvalue n \<noteq> bvalue d \<or> bexp n \<le> bexp d"
    using assms(2) by (auto simp: steady_def dest: spec [of _ 0])
  moreover have "bvalue n < base * bvalue d" using assms(3) by (simp add: base_def)
  moreover have "fit n d" using assms(2) by (simp add: steady_def)
  ultimately obtain r where r: "divmod_assign n d = Some (bvalue n div bvalue d, r)" "bvalue r = bvalue n mod bvalue d"
    "fit r d" "r = n \<or> aligned r d" "bexp r \<le> bexp n"
    using divmod_assign_value [OF assms(1)] by blast
  then show ?thesis using assms(2) by (auto simp: steady_def aligned_def)
qed

lemma times10_steady:
  assumes "steady n d"
  shows "\<exists>r. times32 n 10 = Some r \<and> bvalue r = 10 * bvalue n \<and> steady r d \<and> bexp r = bexp n"
proof -
  obtain r where r: "times32 n 10 = Some r" "bvalue r = 10 * bvalue n" "fit r d" "bexp r = bexp n"
    using times32_fit [of n d 10] assms by (auto simp: steady_def base_def)
  have "bvalue r * 10 ^ j = bvalue n * 10 ^ Suc j" for j by (simp add: r(2))
  then show ?thesis using r assms unfolding steady_def by metis
qed

lemma dragon_digits_value:
  assumes d: "proper d"
  shows "steady n d \<Longrightarrow> bvalue n < 10 * bvalue d \<Longrightarrow>
    \<exists>ds r. dragon_digits k n d = Some (ds, r) \<and> length ds = k \<and> (\<forall>x \<in> set ds. x \<le> 9) \<and> steady r d \<and>
      bvalue r < 10 * bvalue d \<and> bvalue r + 10 * bvalue d * digits_number ds = bvalue n * 10 ^ k"
proof (induction k arbitrary: n)
  case (Suc k)
  have pos: "0 < bvalue d" by (rule proper_pos [OF d])
  obtain n1 where n1: "divmod_assign n d = Some (bvalue n div bvalue d, n1)" "bvalue n1 = bvalue n mod bvalue d" "steady n1 d"
    using divmod_steady [OF d Suc.prems] by blast
  obtain n2 where n2: "times32 n1 10 = Some n2" "bvalue n2 = 10 * bvalue n1" "steady n2 d"
    using times10_steady [OF n1(3)] by blast
  have "bvalue n2 < 10 * bvalue d" using n1(2) n2(2) pos by simp
  then obtain ds r where ds: "dragon_digits k n2 d = Some (ds, r)" "length ds = k" "\<forall>x \<in> set ds. x \<le> 9" "steady r d"
    "bvalue r < 10 * bvalue d" "bvalue r + 10 * bvalue d * digits_number ds = bvalue n2 * 10 ^ k"
    using Suc.IH [OF n2(3)] by blast
  obtain q where q_def: "bvalue n div bvalue d = q" by blast
  have q: "q \<le> 9" using q_def Suc.prems(2) less_mult_imp_div_less [of "bvalue n" 10 "bvalue d"] by simp
  have n_eq: "bvalue n = bvalue d * q + bvalue n1" unfolding n1(2) q_def [symmetric] by simp
  then have "bvalue n * 10 ^ Suc k = 10 * bvalue d * (q * 10 ^ k) + bvalue n2 * 10 ^ k"
    unfolding n_eq n2(2) by (simp add: algebra_simps)
  then have "bvalue r + 10 * bvalue d * digits_number (q # ds) = bvalue n * 10 ^ Suc k"
    using ds(2,6) by (simp add: distrib_left)
  then show ?case using n1(1) n2(1) ds(1-5) q by (simp add: q_def)
qed simp

lemma propagate_value:
  "xs \<noteq> [] \<Longrightarrow> hd xs \<le> 10 \<Longrightarrow> \<forall>x \<in> set (tl xs). x \<le> 9 \<Longrightarrow>
   digits_number (rev (propagate xs)) = digits_number (rev xs) \<and> length (propagate xs) = length xs \<and>
   ((\<forall>x \<in> set (propagate xs). x \<le> 9) \<or> last (propagate xs) = 10 \<and> (\<forall>x \<in> set (butlast (propagate xs)). x = 0))"
proof (induction xs rule: propagate.induct)
  case (1 x y rest)
  show ?case
  proof (cases "x = 10")
    case True
    with "1.prems" have "hd ((y + 1) # rest) \<le> 10" "\<forall>x \<in> set (tl ((y + 1) # rest)). x \<le> 9" by simp_all
    from "1.IH" [OF True _ this]
    have IH: "digits_number (rev (propagate ((y + 1) # rest))) = digits_number (rev ((y + 1) # rest))"
      "length (propagate ((y + 1) # rest)) = length ((y + 1) # rest)"
      "(\<forall>x \<in> set (propagate ((y + 1) # rest)). x \<le> 9) \<or>
        last (propagate ((y + 1) # rest)) = 10 \<and> (\<forall>x \<in> set (butlast (propagate ((y + 1) # rest))). x = 0)" by simp_all
    have "propagate ((y + 1) # rest) \<noteq> []" using IH(2) by (metis length_0_conv list.distinct(1))
    with IH True show ?thesis by (auto simp: digits_number_append)
  next
    case False
    then show ?thesis using "1.prems" by auto
  qed
qed auto

lemma nearest_even_eqI:
  assumes "q * d + r = n" "r < d"
  shows "nearest_even n d = (if 2 * r > d \<or> 2 * r = d \<and> odd q then q + 1 else q)"
proof -
  have "n div d = q" "n mod d = r" using assms by (auto simp flip: assms(1))
  then show ?thesis by (simp add: nearest_even_def)
qed

lemma fixed_digits_value:
  assumes d: "proper (denominator s)" and n: "steady (numerator s) (denominator s)"
    and less: "bvalue (numerator s) < 10 * bvalue (denominator s)"
  shows "\<exists>ds j. fixed_digits fixed s nd t = Some (ds, t - (nd - 1) + int j) \<and> (\<forall>x \<in> set ds. x \<le> 9) \<and>
    length ds = (if nd \<le> 0 then 1 else nat nd + (if fixed then length ds - nat nd else 0)) \<and> ds \<noteq> [] \<and> j \<le> (if fixed then 0 else 1) \<and>
    digits_number ds * 10 ^ j =
      nearest_even (bvalue (numerator s) * 10 ^ nat (nd - 1)) (bvalue (denominator s) * 10 ^ nat (1 - nd))"
proof -
  let ?N = "bvalue (numerator s)" and ?D = "bvalue (denominator s)"
  have pos: "0 < ?D" by (rule proper_pos [OF d])
  consider "nd < 0" | "nd = 0" | "0 < nd" by linarith
  then show ?thesis
  proof cases
    case 1
    have "(10 :: nat) ^ 2 \<le> 10 ^ nat (1 - nd)" using 1 by (intro power_increasing) auto
    then have "?D * 100 \<le> ?D * 10 ^ nat (1 - nd)" by (intro mult_le_mono2) simp
    then have "2 * ?N < ?D * 10 ^ nat (1 - nd)" using less by linarith
    then have "nearest_even (?N * 10 ^ nat (nd - 1)) (?D * 10 ^ nat (1 - nd)) = 0"
      using 1 by (simp add: nearest_even_def)
    then show ?thesis using 1 by (intro exI [of _ "[0]"] exI [of _ 0]) (simp add: fixed_digits_def)
  next
    case 2
    obtain d10 where d10: "times32 (denominator s) 10 = Some d10" "bvalue d10 = 10 * ?D" "proper d10" "bexp d10 = bexp (denominator s)"
      using times32_proper [OF d, of 10] by (auto simp: base_def)
    have "fit (numerator s) d10" using n d10(4) by (simp add: steady_def fit_def)
    then have cmp: "add_compare (numerator s) (numerator s) d10 > 0 \<longleftrightarrow> 2 * ?N > 10 * ?D"
      using add_compare_value [OF d10(3)] d10(2) by auto
    have "nearest_even (?N * 10 ^ nat (nd - 1)) (?D * 10 ^ nat (1 - nd)) = (if 2 * ?N > 10 * ?D then 1 else 0)"
      using 2 less nearest_even_eqI [of 0 "10 * ?D" ?N ?N] by (simp add: mult.commute)
    then show ?thesis using 2 d10(1) cmp
      by (intro exI [of _ "[if add_compare (numerator s) (numerator s) d10 > 0 then 1 else 0]"] exI [of _ 0])
        (simp add: fixed_digits_def)
  next
    case 3
    let ?k = "nat nd - 1"
    have k: "nat (nd - 1) = ?k" "nat (1 - nd) = 0" "nat nd = Suc ?k" using 3 by auto
    obtain ds r where ds: "dragon_digits ?k (numerator s) (denominator s) = Some (ds, r)" "length ds = ?k"
      "\<forall>x \<in> set ds. x \<le> 9" "steady r (denominator s)" "bvalue r < 10 * ?D"
      "bvalue r + 10 * ?D * digits_number ds = ?N * 10 ^ ?k"
      using dragon_digits_value [OF d n less] by blast
    obtain r1 where r1: "divmod_assign r (denominator s) = Some (bvalue r div ?D, r1)" "bvalue r1 = bvalue r mod ?D"
      "steady r1 (denominator s)" using divmod_steady [OF d ds(4,5)] by blast
    obtain q where q: "bvalue r div ?D = q" by blast
    have q9: "q \<le> 9" using ds(5) q less_mult_imp_div_less [of "bvalue r" 10 ?D] by simp
    have rq: "bvalue r = ?D * q + bvalue r1" unfolding r1(2) q [symmetric] by simp
    have r1_less: "bvalue r1 < ?D" using r1(2) pos by simp
    have "fit r1 (denominator s)" using r1(3) by (simp add: steady_def)
    note cmp = add_compare_value [OF d this this]
    have up: "add_compare r1 r1 (denominator s) > 0 \<or> add_compare r1 r1 (denominator s) = 0 \<and> q mod 2 \<noteq> 0 \<longleftrightarrow>
        2 * bvalue r1 > ?D \<or> 2 * bvalue r1 = ?D \<and> odd q"
      unfolding cmp by (auto simp: odd_iff_mod_2_eq_one)
    have near: "nearest_even (?N * 10 ^ nat (nd - 1)) (?D * 10 ^ nat (1 - nd)) =
      (if add_compare r1 r1 (denominator s) > 0 \<or> add_compare r1 r1 (denominator s) = 0 \<and> q mod 2 \<noteq> 0
       then 10 * digits_number ds + q + 1 else 10 * digits_number ds + q)"
    proof -
      have "(10 * digits_number ds + q) * ?D + bvalue r1 = ?N * 10 ^ ?k"
        using ds(6) rq by (simp add: algebra_simps)
      from nearest_even_eqI [OF this r1_less] show ?thesis unfolding k(1,2) up by simp
    qed
    have fd: "fixed_digits fixed s nd t = (let result = add_compare r1 r1 (denominator s) in
        if result > 0 \<or> result = 0 \<and> q mod 2 \<noteq> 0 then
          if q = 9 then
            let buf = rev (propagate (rev (ds @ [10])))
            in if hd buf = 10 then
                 if fixed then Some (1 # tl buf @ [0], t - (nd - 1)) else Some (1 # tl buf, t - (nd - 1) + 1)
               else Some (buf, t - (nd - 1))
          else Some (ds @ [q + 1], t - (nd - 1))
        else Some (ds @ [q], t - (nd - 1)))"
      using 3 ds(1) r1(1) q by (simp add: fixed_digits_def Let_def)
    show ?thesis
    proof (cases "add_compare r1 r1 (denominator s) > 0 \<or> add_compare r1 r1 (denominator s) = 0 \<and> q mod 2 \<noteq> 0")
      case False
      then show ?thesis unfolding near fd using ds(2,3) q9 k(3) 3
        by (intro exI [of _ "ds @ [q]"] exI [of _ 0]) auto
    next
      case up: True
      show ?thesis
      proof (cases "q = 9")
        case False
        then show ?thesis unfolding near fd using up ds(2,3) q9 k(3) 3
          by (intro exI [of _ "ds @ [q + 1]"] exI [of _ 0]) auto
      next
        case nine: True
        obtain p where p: "propagate (10 # rev ds) = p" by blast
        have "digits_number (rev p) = digits_number (ds @ [10]) \<and> length p = length (ds @ [10]) \<and>
          ((\<forall>x \<in> set p. x \<le> 9) \<or> last p = 10 \<and> (\<forall>x \<in> set (butlast p). x = 0))"
          using propagate_value [of "rev (ds @ [10])"] ds(3) p by simp
        then have pv: "digits_number (rev p) = 10 * digits_number ds + 10" "length p = Suc ?k"
          "(\<forall>x \<in> set p. x \<le> 9) \<or> last p = 10 \<and> (\<forall>x \<in> set (butlast p). x = 0)"
          using ds(2) by simp_all
        have ne: "p \<noteq> []" using pv(2) by auto
        have hd: "hd (rev p) = last p" "tl (rev p) = rev (butlast p)"
          using ne by (cases p rule: rev_cases; simp)+
        show ?thesis
        proof (cases "last p = 10")
          case False
          then have "\<forall>x \<in> set p. x \<le> 9" using pv(3) by blast
          then show ?thesis unfolding near fd using up nine False pv(1,2) hd ne k(3) 3
            by (intro exI [of _ "rev p"] exI [of _ 0]) (auto simp: p Let_def)
        next
          case True
          have zeros: "\<forall>x \<in> set (butlast p). x = 0" using pv(3) True last_in_set [OF ne] by force
          obtain bs where bs: "rev p = 10 # bs" "length bs = ?k" "\<forall>x \<in> set bs. x = 0"
            using ne True zeros pv(2) by (cases p rule: rev_cases) auto
          have z: "digits_number bs = 0" by (rule digits_number_zeros [OF bs(3)])
          have total: "10 * digits_number ds + 10 = 10 * 10 ^ ?k" using pv(1) bs z by simp
          have nines: "\<forall>x \<in> set bs. x \<le> 9" using bs(3) by auto
          show ?thesis
          proof (cases fixed)
            case True
            have "digits_number (1 # bs @ [0]) = 10 * 10 ^ ?k" using bs(2) z by simp
            then show ?thesis unfolding near fd using up nine True bs nines total k(3) 3
              by (intro exI [of _ "1 # bs @ [0]"] exI [of _ 0]) (auto simp: p Let_def)
          next
            case False
            have "digits_number (1 # bs) * 10 = 10 * 10 ^ ?k" using bs(2) z by simp
            then show ?thesis unfolding near fd using up nine False bs nines total k(3) 3
              by (intro exI [of _ "1 # bs"] exI [of _ 1]) (auto simp: p Let_def)
          qed
        qed
      qed
    qed
  qed
qed


section \<open>A given number of digits\<close>

lemma nearest_even_scale:
  assumes "0 < c"
  shows "nearest_even (c * n) (c * d) = nearest_even n d"
proof -
  have "c * n div (c * d) = n div d" using assms by simp
  moreover have "c * n mod (c * d) = c * (n mod d)" by (rule mult_mod_right [symmetric])
  moreover have "2 * (c * (n mod d)) = c * (2 * (n mod d))" by simp
  ultimately show ?thesis unfolding nearest_even_def using assms by (simp only: mult_less_cancel1 mult_cancel1) simp
qed

lemma nearest_even_ratio:
  assumes "n * d' = n' * d" "0 < d" "0 < d'"
  shows "nearest_even n d = nearest_even n' d'"
proof -
  have "nearest_even n d = nearest_even (d' * n) (d' * d)" by (rule nearest_even_scale [OF assms(3), symmetric])
  also have "\<dots> = nearest_even (d * n') (d * d')" using assms(1) by (simp add: ac_simps)
  also have "\<dots> = nearest_even n' d'" by (rule nearest_even_scale [OF assms(2)])
  finally show ?thesis .
qed

text \<open>The number at two powers of 10.\<close>

lemma at_ratio:
  "num_at f e s * 10 ^ nat (s - t) * den_at e t = num_at f e t * (den_at e s * 10 ^ nat (t - s))"
proof -
  have "nat (- s) + nat (s - t) + nat t = nat (- t) + nat s + nat (t - s)" by linarith
  then have "(10 :: nat) ^ nat (- s) * 10 ^ nat (s - t) * 10 ^ nat t = 10 ^ nat (- t) * 10 ^ nat s * 10 ^ nat (t - s)"
    by (simp flip: power_add)
  then show ?thesis by (simp add: num_at_def gap_at_def den_at_def algebra_simps)
qed

lemma den_at_pos: "0 < den_at e t"
  by (simp add: den_at_def)

lemma two_power_mod_5: "(2 :: nat) ^ n mod 5 \<noteq> 0"
proof (induction n)
  case (Suc n)
  have "(2 * x) mod 5 \<noteq> 0" if "x mod 5 \<noteq> 0" for x :: nat using that by presburger
  from this [OF Suc] show ?case by simp
qed simp

text \<open>
  The comparison of the first numerator with the denominator goes by value unless the number is
  a power of 10 and the exponents of the two bigints are in the wrong order.
\<close>

definition regular :: "nat \<Rightarrow> int \<Rightarrow> bool \<Rightarrow> int \<Rightarrow> bool" where
  "regular f e closer t \<longleftrightarrow>
     e < 0 \<or> numerator_exp e closer t \<le> denominator_exp e closer t \<or> (\<forall>j. f * 2 ^ nat e \<noteq> 10 ^ j)"

lemma setup_steady:
  assumes "regular f e closer t" "0 \<le> e \<longrightarrow> 0 \<le> t" "proper n" "bvalue n = 2 ^ k * num_at f e t"
    "bvalue d = 2 ^ k * den_at e t" "bexp n = numerator_exp e closer t" "bexp d = denominator_exp e closer t"
  shows "steady n d"
proof -
  have "bexp n \<le> bexp d \<or> (\<forall>j. bvalue n * 10 ^ j \<noteq> bvalue d)"
  proof (cases "e < 0")
    case True
    show ?thesis
    proof (cases "t < 0")
      case t: True
      have "bvalue n * 10 ^ j \<noteq> bvalue d" for j
      proof
        assume "bvalue n * 10 ^ j = bvalue d"
        then have "2 ^ (k + nat (- e)) = f * 2 ^ k * 10 ^ nat (- t) * 10 ^ j"
          using True t by (simp add: assms num_at_def gap_at_def den_at_def power_add ac_simps)
        also have "(10 :: nat) ^ nat (- t) = 5 * (2 * 10 ^ (nat (- t) - 1))"
          using t by (cases "nat (- t)") simp_all
        finally have "(2 :: nat) ^ (k + nat (- e)) = 5 * (f * 2 ^ k * (2 * 10 ^ (nat (- t) - 1)) * 10 ^ j)" by (simp add: ac_simps)
        then show False using two_power_mod_5 [of "k + nat (- e)"] by (metis mod_mult_self1_is_0)
      qed
      then show ?thesis by blast
    next
      case False
      then have "bexp n = 0" using True by (simp add: assms numerator_exp_def)
      then show ?thesis by simp
    qed
  next
    case False
    show ?thesis
    proof (cases "numerator_exp e closer t \<le> denominator_exp e closer t")
      case le: False
      then have np: "f * 2 ^ nat e \<noteq> 10 ^ j" for j using assms(1) False by (simp add: regular_def)
      have "bvalue n * 10 ^ j \<noteq> bvalue d" for j
      proof
        assume "bvalue n * 10 ^ j = bvalue d"
        then have eq: "f * 2 ^ nat e * 10 ^ j = 10 ^ nat t"
          using False assms(2) by (simp add: assms num_at_def gap_at_def den_at_def)
        show False
        proof (cases "j \<le> nat t")
          case True
          then have "f * 2 ^ nat e * 10 ^ j = 10 ^ (nat t - j) * 10 ^ j" using eq by (simp flip: power_add)
          then show False using np by simp
        next
          case False
          then have "(10 :: nat) ^ nat t < 10 ^ j" by simp
          moreover have "f * 2 ^ nat e \<noteq> 0" using eq by (metis mult_0 power_not_zero zero_neq_numeral)
          then have "10 ^ j \<le> f * 2 ^ nat e * 10 ^ j" by simp
          ultimately show False using eq by simp
        qed
      qed
      then show ?thesis by blast
    qed (simp add: assms)
  qed
  then show ?thesis using assms(3) proper_fit by (simp add: steady_def)
qed


lemma format_digits:
  assumes d: "proper (denominator s)" and n: "steady (numerator s) (denominator s)"
    and less: "bvalue (numerator s) < 10 * bvalue (denominator s)"
    and ratio: "bvalue (numerator s) * den_at e u = num_at f e u * bvalue (denominator s)"
  shows "\<exists>ds j. fixed_digits fixed s nd u = Some (ds, u - (nd - 1) + int j) \<and> (\<forall>x \<in> set ds. x \<le> 9) \<and> ds \<noteq> [] \<and>
    j \<le> (if fixed then 0 else 1) \<and>
    digits_number ds * 10 ^ j = nearest_even (num_at f e (u - (nd - 1))) (den_at e (u - (nd - 1)))"
proof -
  let ?N = "bvalue (numerator s)" and ?D = "bvalue (denominator s)" and ?p = "u - (nd - 1)"
  have pos: "0 < ?D" by (rule proper_pos [OF d])
  have "nearest_even (?N * 10 ^ nat (nd - 1)) (?D * 10 ^ nat (1 - nd)) =
      nearest_even (num_at f e u * 10 ^ nat (nd - 1)) (den_at e u * 10 ^ nat (1 - nd))"
    by (rule nearest_even_ratio) (use ratio pos den_at_pos in \<open>simp_all add: ac_simps\<close>)
  also have "\<dots> = nearest_even (num_at f e ?p) (den_at e ?p)"
    by (rule nearest_even_ratio) (use at_ratio [of f e u ?p] den_at_pos in simp_all)
  finally show ?thesis using fixed_digits_value [OF d n less, of fixed nd u] by metis
qed

definition in_range :: "nat \<Rightarrow> int \<Rightarrow> int \<Rightarrow> bool" where
  "in_range f e t \<longleftrightarrow> 0 < f \<and> f < 2 ^ 128 \<and> \<bar>e\<bar> < 2 ^ 29 \<and> \<bar>t\<bar> < 2 ^ 29 \<and> (0 \<le> e \<longrightarrow> 0 \<le> t)"

text \<open>
  C9. \<open>format_dragon\<close> with a given number of digits is exact: the digits are the number \<open>f * 2 ^ e\<close>
  divided by the power of 10 of the last place and rounded to the nearest integer, a tie to the
  even one; after a carry out of the first digit the result has one digit less and an exponent
  that is one larger. With \<open>fixed\<close> and \<open>fixup\<close> the last place is the one asked for behind the
  decimal point. The estimate of the exponent may be one too large.
\<close>

theorem dragon_fixed_spec:
  assumes "in_range f e t" "regular f e closer t" "num_at f e t < 10 * den_at e t" "0 \<le> nd"
  shows "\<exists>r. format_dragon f e closer fixup fixed nd t = Some r \<and>
    (case r of
       Inl err \<Rightarrow> err = ''number is too big'' \<and> fixup \<and> fixed \<and> nd + t + 1 > int_max
     | Inr (ds, x) \<Rightarrow> \<exists>u p j. (u = t \<or> u = t - 1 \<and> fixup \<and> num_at f e t < den_at e t) \<and>
         p = (if fixup \<and> fixed then - nd else u - (nd - 1)) \<and> x = p + int j \<and> j \<le> (if fixed then 0 else 1) \<and>
         ds \<noteq> [] \<and> (\<forall>d \<in> set ds. d \<le> 9) \<and>
         digits_number ds * 10 ^ j = nearest_even (num_at f e p) (den_at e p))"
proof -
  let ?evn = "if f mod 2 = 0 then 1 else 0 :: int"
  obtain s where s: "dragon_setup f e closer t = Some s" "proper (numerator s)" "proper (denominator s)"
    "proper (upper s)" "bvalue (numerator s) = 2 ^ nat (dragon_shift closer) * num_at f e t"
    "bvalue (denominator s) = 2 ^ nat (dragon_shift closer) * den_at e t"
    "bexp (numerator s) = numerator_exp e closer t" "bexp (denominator s) = denominator_exp e closer t"
    "bvalue (upper s) = (if closer then 2 else 1) * gap_at e t"
    using dragon_setup_value [of f e t closer] assms(1) unfolding in_range_def by blast
  have st: "steady (numerator s) (denominator s)"
    using setup_steady [OF assms(2) _ s(2,5,6,7,8)] assms(1) by (simp add: in_range_def)
  obtain s1 u where s1: "(if fixup then dragon_fixup s ?evn nd t else Some (s, t)) = Some (s1, u)"
    "proper (denominator s1)" "steady (numerator s1) (denominator s1)"
    "bvalue (numerator s1) < 10 * bvalue (denominator s1)"
    "bvalue (numerator s1) * den_at e u = num_at f e u * bvalue (denominator s1)"
    "u = t \<or> u = t - 1 \<and> fixup \<and> num_at f e t < den_at e t"
  proof (cases "fixup \<and> add_compare (numerator s) (upper s) (denominator s) + ?evn \<le> 0")
    case True
    obtain n where n: "times32 (numerator s) 10 = Some n" "bvalue n = 10 * bvalue (numerator s)" "steady n (denominator s)"
      using times10_steady [OF st] by blast
    have "add_compare (numerator s) (upper s) (denominator s) \<le> 0" using True by (simp split: if_splits)
    then have "bvalue (numerator s) + bvalue (upper s) \<le> bvalue (denominator s)"
      using add_compare_value [OF s(3) proper_fit [OF s(2)] proper_fit [OF s(4)]] by (auto split: if_splits)
    then have less: "bvalue (numerator s) < bvalue (denominator s)" using proper_pos [OF s(4)] by linarith
    have "10 * num_at f e t * den_at e (t - 1) = num_at f e (t - 1) * den_at e t"
      using at_ratio [of f e t "t - 1"] by (simp add: ac_simps)
    then show ?thesis
      using that [of "s\<lparr>numerator := n\<rparr>" "t - 1"] True n less s assms(4)
      by (simp add: dragon_fixup_def ac_simps)
  next
    case False
    then show ?thesis
      using that [of s t] st s assms(3) by (auto simp: dragon_fixup_def ac_simps)
  qed
  have fd: "format_dragon f e closer fixup fixed nd t =
      (case (if fixup \<and> fixed then adjust_precision nd (u + 1) else Inr nd) of
         Inl e \<Rightarrow> Some (Inl e)
       | Inr n \<Rightarrow> Option.bind (fixed_digits fixed s1 n u) (\<lambda>r. Some (Inr r)))"
    using s(1) s1(1) assms(4) by (simp add: format_dragon_def Let_def cong: sum.case_cong)
  show ?thesis
  proof (cases "if fixup \<and> fixed then adjust_precision nd (u + 1) else Inr nd")
    case (Inl err)
    then have "err = ''number is too big'' \<and> fixup \<and> fixed \<and> nd + t + 1 > int_max"
      using s1(6) by (auto simp: adjust_precision_def split: if_splits)
    moreover have "format_dragon f e closer fixup fixed nd t = Some (Inl err)" unfolding fd Inl by simp
    ultimately show ?thesis by (intro exI [of _ "Inl err"]) simp
  next
    case (Inr n)
    obtain ds j where ds: "fixed_digits fixed s1 n u = Some (ds, u - (n - 1) + int j)" "\<forall>x \<in> set ds. x \<le> 9" "ds \<noteq> []"
      "j \<le> (if fixed then 0 else 1)"
      "digits_number ds * 10 ^ j = nearest_even (num_at f e (u - (n - 1))) (den_at e (u - (n - 1)))"
      using format_digits [OF s1(2-5)] by blast
    have p: "u - (n - 1) = (if fixup \<and> fixed then - nd else u - (nd - 1))"
      using Inr by (auto simp: adjust_precision_def split: if_splits)
    let ?x = "u - (n - 1) + int j"
    have fmt: "format_dragon f e closer fixup fixed nd t = Some (Inr (ds, u - (n - 1) + int j))"
      unfolding fd Inr using ds(1) by simp
    have "(u = t \<or> u = t - 1 \<and> fixup \<and> num_at f e t < den_at e t) \<and>
      u - (n - 1) = (if fixup \<and> fixed then - nd else u - (nd - 1)) \<and> u - (n - 1) + int j = u - (n - 1) + int j \<and>
      j \<le> (if fixed then 0 else 1) \<and> ds \<noteq> [] \<and> (\<forall>d \<in> set ds. d \<le> 9) \<and>
      digits_number ds * 10 ^ j = nearest_even (num_at f e (u - (n - 1))) (den_at e (u - (n - 1)))"
      using s1(6) p ds(2-5) by blast
    then have "\<exists>u p j. (u = t \<or> u = t - 1 \<and> fixup \<and> num_at f e t < den_at e t) \<and>
      p = (if fixup \<and> fixed then - nd else u - (nd - 1)) \<and> ?x = p + int j \<and>
      j \<le> (if fixed then 0 else 1) \<and> ds \<noteq> [] \<and> (\<forall>d \<in> set ds. d \<le> 9) \<and>
      digits_number ds * 10 ^ j = nearest_even (num_at f e p) (den_at e p)" by (intro exI)
    then show ?thesis by (intro exI [of _ "Inr (ds, ?x)"] conjI [OF fmt]) (simp only: sum.case prod.case)
  qed
qed

text \<open>0.3125 with three digits: a tie, to the even digit.\<close>

lemma dragon_fixed_spec_witness:
  "\<exists>r. format_dragon 5 (-4) False True False 3 (-1) = Some r \<and>
    (case r of
       Inl err \<Rightarrow> err = ''number is too big'' \<and> True \<and> False \<and> 3 + (-1) + 1 > int_max
     | Inr (ds, x) \<Rightarrow> \<exists>u p j. (u = -1 \<or> u = -1 - 1 \<and> True \<and> num_at 5 (-4) (-1) < den_at (-4) (-1)) \<and>
         p = (if True \<and> False then - 3 else u - (3 - 1)) \<and> x = p + int j \<and> j \<le> (if False then 0 else 1) \<and>
         ds \<noteq> [] \<and> (\<forall>d \<in> set ds. d \<le> 9) \<and>
         digits_number ds * 10 ^ j = nearest_even (num_at 5 (-4) p) (den_at (-4) p))"
  by (rule dragon_fixed_spec) (simp_all add: in_range_def regular_def num_at_def den_at_def gap_at_def)


section \<open>The shortest digits\<close>

text \<open>\<open>within evn x y\<close>: not above, and below unless the end of the interval belongs to it.\<close>

definition within :: "int \<Rightarrow> nat \<Rightarrow> nat \<Rightarrow> bool" where
  "within evn x y \<longleftrightarrow> (if evn = 0 then x < y else x \<le> y)"

text \<open>
  \<open>tidy\<close>: the remainder compares with \<open>lower\<close> by value; \<open>loop_ready\<close>: the invariant of the loop.
\<close>

definition tidy :: "bigint \<Rightarrow> bigint \<Rightarrow> bigint \<Rightarrow> bool" where
  "tidy n d l \<longleftrightarrow> bexp n \<le> bexp l \<or> bexp d \<le> bexp l \<and> (bexp n \<le> bexp d \<or> bvalue l < bvalue n)"

definition loop_ready :: "int \<Rightarrow> dragon \<Rightarrow> bool" where
  "loop_ready evn s \<longleftrightarrow> proper (denominator s) \<and> proper (lower s) \<and> proper (upper s) \<and>
     steady (numerator s) (denominator s) \<and> tidy (numerator s) (denominator s) (lower s) \<and>
     within (1 - evn) (bvalue (numerator s) + bvalue (upper s)) (10 * bvalue (denominator s))"

lemma scale_bounds_value:
  assumes "proper (lower s)" "proper (upper s)"
  shows "\<exists>r. scale_bounds s = Some r \<and> numerator r = numerator s \<and> denominator r = denominator s \<and>
    proper (lower r) \<and> proper (upper r) \<and> bvalue (lower r) = 10 * bvalue (lower s) \<and>
    bvalue (upper r) = 10 * bvalue (upper s) \<and> bexp (lower r) = bexp (lower s)"
proof -
  obtain l where l: "times32 (lower s) 10 = Some l" "bvalue l = 10 * bvalue (lower s)" "proper l" "bexp l = bexp (lower s)"
    using times32_proper [OF assms(1), of 10] by (auto simp: base_def)
  obtain u where u: "times32 (upper s) 10 = Some u" "bvalue u = 10 * bvalue (upper s)" "proper u"
    using times32_proper [OF assms(2), of 10] by (auto simp: base_def)
  show ?thesis using l u by (cases "upper_store s") (simp_all add: scale_bounds_def upper_def)
qed

lemma tidy_divmod:
  assumes "tidy n d l" "trimmed r" "r = n \<or> bexp r \<le> bexp d" "bexp r \<le> bexp n" "proper l"
  shows "fit r l" "bvalue r = bvalue l \<Longrightarrow> bexp r \<le> bexp l" "tidy r d l"
proof -
  have zero: "bvalue r = 0" if "\<not> proper r" using trimmed_proper [OF assms(2)] that by blast
  have l: "0 < bvalue l" by (rule proper_pos [OF assms(5)])
  show "fit r l" using assms zero l by (cases "proper r") (auto simp: fit_def tidy_def)
  show "bvalue r = bvalue l \<Longrightarrow> bexp r \<le> bexp l" using assms by (auto simp: tidy_def)
  show "tidy r d l" using assms by (auto simp: tidy_def)
qed

lemma tidy_times:
  assumes "tidy n d l" "bvalue n' = 10 * bvalue n" "bexp n' = bexp n" "bvalue l' = 10 * bvalue l" "bexp l' = bexp l"
  shows "tidy n' d l'"
  using assms by (auto simp: tidy_def)

text \<open>A last digit, and a digit before the last one.\<close>

lemma last_digit:
  assumes "N = D * q + r" "r < D" "0 < U" "0 < L" "evn = 0 \<or> evn = 1" "within (1 - evn) (N + U) (10 * D)"
  shows "within evn r L \<Longrightarrow> q \<le> 9 \<and> within evn (q * D) (N + U) \<and> within evn N (q * D + L)"
    and "within evn D (r + U) \<Longrightarrow> q + 1 \<le> 9 \<and> within evn ((q + 1) * D) (N + U) \<and> within evn N ((q + 1) * D + L)"
proof -
  have pos: "0 < D" using assms(2) by simp
  have "N < 10 * D" using assms(3,6) by (auto simp: within_def split: if_splits)
  then have "D * q < D * 10" using assms(1) by linarith
  then have "q < 10" by simp
  then show "within evn r L \<Longrightarrow> q \<le> 9 \<and> within evn (q * D) (N + U) \<and> within evn N (q * D + L)"
    using assms(1,3) by (auto simp: within_def mult.commute split: if_splits)
  assume up: "within evn D (r + U)"
  have "D * q + D < D * 10"
  proof (cases "evn = 0")
    case True
    then have "D < r + U" "N + U \<le> 10 * D" using up assms(6) by (simp_all add: within_def)
    then show ?thesis using assms(1) by linarith
  next
    case False
    then have "D \<le> r + U" "N + U < 10 * D" using up assms(5,6) by (simp_all add: within_def)
    then show ?thesis using assms(1) by linarith
  qed
  then have "D * (q + 1) < D * 10" by (simp only: distrib_left mult_1_right)
  then have "q + 1 < 10" by (simp only: mult_less_cancel1)
  then show "q + 1 \<le> 9 \<and> within evn ((q + 1) * D) (N + U) \<and> within evn N ((q + 1) * D + L)"
    using up assms(1,2) by (auto simp: within_def algebra_simps split: if_splits)
qed

lemma more_digits:
  assumes "N = D * q + r" "within evn (x * D) ((10 * r + 10 * U) * 10 ^ m)" "within evn (10 * r * 10 ^ m) (x * D + 10 * L * 10 ^ m)"
  shows "within evn ((q * 10 ^ Suc m + x) * D) ((N + U) * 10 ^ Suc m)"
    "within evn (N * 10 ^ Suc m) ((q * 10 ^ Suc m + x) * D + L * 10 ^ Suc m)"
proof -
  have "(q * 10 ^ Suc m + x) * D = D * q * 10 ^ Suc m + x * D" by (simp add: algebra_simps)
  moreover have "(N + U) * 10 ^ Suc m = D * q * 10 ^ Suc m + (10 * r + 10 * U) * 10 ^ m"
    "N * 10 ^ Suc m = D * q * 10 ^ Suc m + 10 * r * 10 ^ m" "L * 10 ^ Suc m = 10 * L * 10 ^ m"
    by (simp_all add: assms(1) algebra_simps)
  ultimately show "within evn ((q * 10 ^ Suc m + x) * D) ((N + U) * 10 ^ Suc m)"
    "within evn (N * 10 ^ Suc m) ((q * 10 ^ Suc m + x) * D + L * 10 ^ Suc m)"
    using assms(2,3) by (auto simp: within_def split: if_splits)
qed


lemma shortest_loop_value:
  assumes evn: "evn = 0 \<or> evn = 1"
  shows "loop_ready evn s \<Longrightarrow> \<exists>ds. shortest_loop evn s data = Some (data @ ds) \<and> ds \<noteq> [] \<and> (\<forall>x \<in> set ds. x \<le> 9) \<and>
    within evn (digits_number ds * bvalue (denominator s))
      ((bvalue (numerator s) + bvalue (upper s)) * 10 ^ (length ds - 1)) \<and>
    within evn (bvalue (numerator s) * 10 ^ (length ds - 1))
      (digits_number ds * bvalue (denominator s) + bvalue (lower s) * 10 ^ (length ds - 1))"
proof (induction "Suc (bvalue (denominator s)) - bvalue (upper s)" arbitrary: s data rule: less_induct)
  case less
  let ?n = "numerator s" and ?d = "denominator s" and ?l = "lower s" and ?u = "upper s"
  have ok: "proper ?d" "proper ?l" "proper ?u" "steady ?n ?d" "tidy ?n ?d ?l"
    and top: "within (1 - evn) (bvalue ?n + bvalue ?u) (10 * bvalue ?d)"
    using less.prems by (simp_all add: loop_ready_def)
  have pos: "0 < bvalue ?d" "0 < bvalue ?l" "0 < bvalue ?u" using ok proper_pos by blast+
  have n10: "bvalue ?n < 10 * bvalue ?d" using top pos(3) by (auto simp: within_def split: if_splits)
  obtain r where r: "divmod_assign ?n ?d = Some (bvalue ?n div bvalue ?d, r)" "bvalue r = bvalue ?n mod bvalue ?d"
    "steady r ?d" "r = ?n \<or> bexp r \<le> bexp ?d" "bexp r \<le> bexp ?n"
    using divmod_steady [OF ok(1,4) n10] by blast
  obtain q where q: "bvalue ?n div bvalue ?d = q" by blast
  have nq: "bvalue ?n = bvalue ?d * q + bvalue r" unfolding r(2) q [symmetric] by simp
  have r_less: "bvalue r < bvalue ?d" using r(2) pos(1) by simp
  have fit: "fit r ?d" using r(3) by (simp add: steady_def)
  have tr: "trimmed r" using fit by (simp add: fit_def)
  note td = tidy_divmod [OF ok(5) tr r(4,5) ok(2)]
  define low where "low \<longleftrightarrow> compare r ?l - evn < 0"
  define high where "high \<longleftrightarrow> add_compare r ?u ?d + evn > 0"
  have low: "within evn (bvalue r) (bvalue ?l)" if low
    using that evn td(2) unfolding low_def compare_value [OF ok(2) td(1)] by (auto simp: within_def split: if_splits)
  have high: "high \<longleftrightarrow> within evn (bvalue ?d) (bvalue r + bvalue ?u)"
    using evn unfolding high_def add_compare_value [OF ok(1) fit proper_fit [OF ok(3)]] by (auto simp: within_def)
  have step: "shortest_loop evn s data =
      (if low \<or> high then
         Some (data @ [if \<not> low then q + 1
           else if high then
             let result = add_compare r r ?d in if result > 0 \<or> result = 0 \<and> q mod 2 \<noteq> 0 then q + 1 else q
           else q])
       else Option.bind (times32 r 10) (\<lambda>n1. Option.bind (scale_bounds (s\<lparr>numerator := n1\<rparr>)) (\<lambda>s1.
              shortest_loop evn s1 (data @ [q]))))"
    unfolding low_def high_def by (subst shortest_loop.simps) (simp only: r(1) q Let_def Option.bind.bind_lunit prod.case)
  note one = last_digit [OF nq r_less pos(3,2) evn top]
  show ?case
  proof (cases "low \<or> high")
    case True
    then obtain x where x: "shortest_loop evn s data = Some (data @ [x])" "x = q \<and> low \<or> x = q + 1 \<and> high"
      unfolding step by (auto simp: Let_def)
    then have "x \<le> 9 \<and> within evn (x * bvalue ?d) (bvalue ?n + bvalue ?u) \<and>
      within evn (bvalue ?n) (x * bvalue ?d + bvalue ?l)"
      using one low high by blast
    then show ?thesis using x(1) by (intro exI [of _ "[x]"]) simp
  next
    case False
    obtain n1 where n1: "times32 r 10 = Some n1" "bvalue n1 = 10 * bvalue r" "steady n1 ?d" "bexp n1 = bexp r"
      using times10_steady [OF r(3)] by blast
    obtain s1 where s1: "scale_bounds (s\<lparr>numerator := n1\<rparr>) = Some s1" "numerator s1 = n1" "denominator s1 = ?d"
      "proper (lower s1)" "proper (upper s1)" "bvalue (lower s1) = 10 * bvalue ?l"
      "bvalue (upper s1) = 10 * bvalue ?u" "bexp (lower s1) = bexp ?l"
      using scale_bounds_value [of "s\<lparr>numerator := n1\<rparr>"] ok by auto
    have nh: "within (1 - evn) (bvalue r + bvalue ?u) (bvalue ?d)"
      using False high evn by (auto simp: within_def split: if_splits)
    have "loop_ready evn s1"
      using ok(1) s1 n1 nh tidy_times [OF td(3) n1(2,4) s1(6,8)] by (auto simp: loop_ready_def within_def split: if_splits)
    moreover have "Suc (bvalue (denominator s1)) - bvalue (upper s1) < Suc (bvalue ?d) - bvalue ?u"
    proof -
      have "bvalue ?u \<le> bvalue ?d" using nh by (auto simp: within_def split: if_splits)
      then show ?thesis using pos(3) by (simp add: s1(3,7))
    qed
    ultimately obtain ds where ds: "shortest_loop evn s1 (data @ [q]) = Some (data @ [q] @ ds)" "ds \<noteq> []" "\<forall>x \<in> set ds. x \<le> 9"
      "within evn (digits_number ds * bvalue ?d) ((10 * bvalue r + 10 * bvalue ?u) * 10 ^ (length ds - 1))"
      "within evn (10 * bvalue r * 10 ^ (length ds - 1)) (digits_number ds * bvalue ?d + 10 * bvalue ?l * 10 ^ (length ds - 1))"
      using less.hyps [of s1 "data @ [q]"] by (auto simp: s1(2,3,6,7) n1(2))
    have m: "length ds = Suc (length ds - 1)" using ds(2) by (cases ds) simp_all
    have "shortest_loop evn s data = Some (data @ q # ds)" using False ds(1) n1(1) s1(1) by (simp add: step)
    moreover have "q \<le> 9" using n10 q less_mult_imp_div_less [of "bvalue ?n" 10 "bvalue ?d"] by simp
    moreover have "digits_number (q # ds) = q * 10 ^ Suc (length ds - 1) + digits_number ds" using m by simp
    moreover have "length (q # ds) - 1 = Suc (length ds - 1)" using m by simp
    ultimately show ?thesis using more_digits [OF nq ds(4,5)] ds(3) by (intro exI [of _ "q # ds"]) (simp only: set_simps, simp)
  qed
qed


text \<open>
  The numbers between \<open>f * 2 ^ e\<close> and its neighbours, at a power of 10: the number below is at half
  the gap or, where the predecessor is closer, at a quarter of it.
\<close>

definition scale_at :: "int \<Rightarrow> bool \<Rightarrow> int \<Rightarrow> nat" where
  "scale_at e closer t = 2 ^ nat (dragon_shift closer) * den_at e t"

definition low_at :: "nat \<Rightarrow> int \<Rightarrow> bool \<Rightarrow> int \<Rightarrow> nat" where
  "low_at f e closer t = num_at (2 ^ nat (dragon_shift closer) * f - 1) e t"

definition high_at :: "nat \<Rightarrow> int \<Rightarrow> bool \<Rightarrow> int \<Rightarrow> nat" where
  "high_at f e closer t = num_at (2 ^ nat (dragon_shift closer) * f + (if closer then 2 else 1)) e t"

definition even_flag :: "nat \<Rightarrow> int" where
  "even_flag f = (if f mod 2 = 0 then 1 else 0)"

lemma within_scale:
  assumes "x * c = x' * d" "y * c = y' * d" "0 < c" "0 < d"
  shows "within evn x y \<longleftrightarrow> within evn x' y'"
proof -
  have "x * c < y * c \<longleftrightarrow> x' * d < y' * d" "x * c \<le> y * c \<longleftrightarrow> x' * d \<le> y' * d" by (simp_all only: assms(1,2))
  then show ?thesis using assms(3,4) by (simp add: within_def)
qed

lemma within_at:
  assumes "x \<le> t"
  shows "within evn (a * scale_at e closer t) (num_at g e t * 10 ^ nat (t - x)) \<longleftrightarrow> within evn (a * scale_at e closer x) (num_at g e x)"
    and "within evn (num_at g e t * 10 ^ nat (t - x)) (a * scale_at e closer t) \<longleftrightarrow> within evn (num_at g e x) (a * scale_at e closer x)"
proof -
  have a: "a * scale_at e closer t * den_at e x = a * scale_at e closer x * den_at e t"
    by (simp add: scale_at_def ac_simps)
  have g: "num_at g e t * 10 ^ nat (t - x) * den_at e x = num_at g e x * den_at e t"
    using at_ratio [of g e t x] assms by simp
  show "within evn (a * scale_at e closer t) (num_at g e t * 10 ^ nat (t - x)) \<longleftrightarrow> within evn (a * scale_at e closer x) (num_at g e x)"
    by (rule within_scale [OF a g den_at_pos den_at_pos])
  show "within evn (num_at g e t * 10 ^ nat (t - x)) (a * scale_at e closer t) \<longleftrightarrow> within evn (num_at g e x) (a * scale_at e closer x)"
    by (rule within_scale [OF g a den_at_pos den_at_pos])
qed

lemma within_sub:
  assumes "within evn (n * p) (x + l * p)" "l \<le> n"
  shows "within evn ((n - l) * p) x"
proof -
  have "n * p = (n - l) * p + l * p" using assms(2) by (simp flip: distrib_right)
  then show ?thesis using assms(1) by (auto simp: within_def split: if_splits)
qed

text \<open>The state in front of the loop: \<open>j\<close> is 1 after the correction of the exponent.\<close>

lemma shortest_start:
  assumes rng: "in_range f e t" and reg: "regular f e closer t" and exps: "0 \<le> e \<longrightarrow> nat t div 32 \<le> nat e div 32"
    and top: "within (1 - even_flag f) (high_at f e closer t) (10 * scale_at e closer t)" and nd: "nd < 0"
  shows "\<exists>s s1 j. dragon_setup f e closer t = Some s \<and>
    (if fixup then dragon_fixup s (even_flag f) nd t else Some (s, t)) = Some (s1, t - int j) \<and>
    loop_ready (even_flag f) s1 \<and> bvalue (denominator s1) = scale_at e closer t \<and>
    bvalue (numerator s1) = 2 ^ nat (dragon_shift closer) * num_at f e t * 10 ^ j \<and>
    bvalue (lower s1) = gap_at e t * 10 ^ j \<and> bvalue (upper s1) = (if closer then 2 else 1) * gap_at e t * 10 ^ j"
proof -
  obtain s where s: "dragon_setup f e closer t = Some s" "proper (numerator s)" "proper (denominator s)" "proper (lower s)"
    "proper (upper s)" "bvalue (numerator s) = 2 ^ nat (dragon_shift closer) * num_at f e t"
    "bvalue (denominator s) = 2 ^ nat (dragon_shift closer) * den_at e t"
    "bvalue (lower s) = gap_at e t" "bvalue (upper s) = (if closer then 2 else 1) * gap_at e t"
    "bexp (numerator s) = numerator_exp e closer t" "bexp (denominator s) = denominator_exp e closer t"
    "bexp (lower s) = lower_exp e t"
    using dragon_setup_value [of f e t closer] rng unfolding in_range_def by blast
  have st: "steady (numerator s) (denominator s)"
    using setup_steady [OF reg _ s(2,6,7,10,11)] rng by (simp add: in_range_def)
  have gap: "0 < gap_at e t" "0 < f" using rng by (simp_all add: gap_at_def in_range_def)
  have "1 * gap_at e t < 2 ^ nat (dragon_shift closer) * f * gap_at e t"
  proof (rule mult_strict_right_mono)
    have "2 * 1 \<le> 2 ^ nat (dragon_shift closer) * f" using gap(2) by (intro mult_le_mono) (simp_all add: dragon_shift_def)
    then show "1 < 2 ^ nat (dragon_shift closer) * f" by simp
  qed (rule gap(1))
  then have less: "bvalue (lower s) < bvalue (numerator s)" by (simp add: s(6,8) num_at_def ac_simps)
  have td: "tidy (numerator s) (denominator s) (lower s)"
    using less exps rng by (auto simp: tidy_def s(10-12) numerator_exp_def lower_exp_def denominator_exp_def)
  have sum: "bvalue (numerator s) + bvalue (upper s) = high_at f e closer t"
    by (simp add: s(6,9) high_at_def num_at_def algebra_simps)
  have ev: "even_flag f = 0 \<or> even_flag f = 1" by (simp add: even_flag_def)
  show ?thesis
  proof (cases "fixup \<and> add_compare (numerator s) (upper s) (denominator s) + even_flag f \<le> 0")
    case True
    obtain n where n: "times32 (numerator s) 10 = Some n" "bvalue n = 10 * bvalue (numerator s)" "steady n (denominator s)"
      "bexp n = bexp (numerator s)"
      using times10_steady [OF st] by blast
    obtain s1 where s1: "scale_bounds (s\<lparr>numerator := n\<rparr>) = Some s1" "numerator s1 = n" "denominator s1 = denominator s"
      "proper (lower s1)" "proper (upper s1)" "bvalue (lower s1) = 10 * bvalue (lower s)"
      "bvalue (upper s1) = 10 * bvalue (upper s)" "bexp (lower s1) = bexp (lower s)"
      using scale_bounds_value [of "s\<lparr>numerator := n\<rparr>"] s(4,5) by auto
    have "within (1 - even_flag f) (bvalue (numerator s) + bvalue (upper s)) (bvalue (denominator s))"
      using True ev add_compare_value [OF s(3) proper_fit [OF s(2)] proper_fit [OF s(5)]]
      by (auto simp: within_def split: if_splits)
    then have "loop_ready (even_flag f) s1"
      using s(3) s1 n tidy_times [OF td n(2,4) s1(6,8)] by (auto simp: loop_ready_def within_def split: if_splits)
    then show ?thesis using True n s1 s nd
      by (intro exI [of _ s] exI [of _ s1] exI [of _ 1]) (simp add: dragon_fixup_def scale_at_def)
  next
    case False
    have "loop_ready (even_flag f) s" using s(2-5) st td top by (simp add: loop_ready_def sum scale_at_def s(7))
    then show ?thesis using False s
      by (intro exI [of _ s] exI [of _ s] exI [of _ 0]) (auto simp: dragon_fixup_def scale_at_def)
  qed
qed

text \<open>
  C4. \<open>format_dragon\<close> asked for the shortest representation returns, for every number, a decimal
  number that is read back as \<open>f * 2 ^ e\<close>: it lies between the midpoints to the neighbours, and
  on one of them only where \<open>f\<close> is even, so that a tie is read as \<open>f\<close>.
\<close>

theorem dragon_shortest_spec:
  assumes "in_range f e t" "regular f e closer t" "0 \<le> e \<longrightarrow> nat t div 32 \<le> nat e div 32"
    "within (1 - even_flag f) (high_at f e closer t) (10 * scale_at e closer t)" "nd < 0"
  shows "\<exists>ds x. format_dragon f e closer fixup fixed nd t = Some (Inr (ds, x)) \<and> ds \<noteq> [] \<and> (\<forall>d \<in> set ds. d \<le> 9) \<and>
    within (even_flag f) (low_at f e closer x) (digits_number ds * scale_at e closer x) \<and>
    within (even_flag f) (digits_number ds * scale_at e closer x) (high_at f e closer x)"
proof -
  let ?k = "2 ^ nat (dragon_shift closer) :: nat" and ?c = "if closer then 2 else 1 :: nat"
  obtain s s1 j where s: "dragon_setup f e closer t = Some s"
    "(if fixup then dragon_fixup s (even_flag f) nd t else Some (s, t)) = Some (s1, t - int j)"
    "loop_ready (even_flag f) s1" "bvalue (denominator s1) = scale_at e closer t"
    "bvalue (numerator s1) = ?k * num_at f e t * 10 ^ j"
    "bvalue (lower s1) = gap_at e t * 10 ^ j" "bvalue (upper s1) = ?c * gap_at e t * 10 ^ j"
    using shortest_start [OF assms] by blast
  have "even_flag f = 0 \<or> even_flag f = 1" by (simp add: even_flag_def)
  from shortest_loop_value [OF this s(3), of "[]"]
  obtain ds where ds: "shortest_loop (even_flag f) s1 [] = Some ds" "ds \<noteq> []" "\<forall>x \<in> set ds. x \<le> 9"
    "within (even_flag f) (digits_number ds * bvalue (denominator s1))
      ((bvalue (numerator s1) + bvalue (upper s1)) * 10 ^ (length ds - 1))"
    "within (even_flag f) (bvalue (numerator s1) * 10 ^ (length ds - 1))
      (digits_number ds * bvalue (denominator s1) + bvalue (lower s1) * 10 ^ (length ds - 1))" by auto
  define x where "x = t - int j - (int (length ds) - 1)"
  have x: "x \<le> t" "nat (t - x) = j + (length ds - 1)"
    using ds(2) by (cases ds; simp add: x_def)+
  have "fixup \<and> fixed \<longrightarrow> adjust_precision nd (t - int j + 1) = Inr (nd + (t - int j + 1))"
  proof -
    have "t < 2 ^ 29" using assms(1) by (auto simp: in_range_def)
    then have "\<not> nd > int_max - (t - int j + 1)" using assms(5) by (simp add: int_max_def)
    then show ?thesis by (simp add: adjust_precision_def)
  qed
  then have "format_dragon f e closer fixup fixed nd t = Some (Inr (ds, x))"
    using s(1,2) ds(1) assms(5) by (auto simp: format_dragon_def Let_def x_def even_flag_def cong: sum.case_cong)
  moreover have "within (even_flag f) (digits_number ds * scale_at e closer x) (high_at f e closer x)"
  proof -
    have "(bvalue (numerator s1) + bvalue (upper s1)) * 10 ^ (length ds - 1) = high_at f e closer t * 10 ^ nat (t - x)"
      by (simp add: s(5,7) x(2) high_at_def num_at_def power_add algebra_simps)
    then show ?thesis using ds(4) within_at(1) [OF x(1)] unfolding s(4) high_at_def by metis
  qed
  moreover have "within (even_flag f) (low_at f e closer x) (digits_number ds * scale_at e closer x)"
  proof -
    have pos: "1 \<le> ?k * f" using assms(1) by (simp add: in_range_def Suc_le_eq)
    then have le: "bvalue (lower s1) \<le> bvalue (numerator s1)"
      using mult_le_mono1 [OF pos, of "gap_at e t * 10 ^ j"] by (simp add: s(5,6) num_at_def ac_simps)
    have "bvalue (numerator s1) - bvalue (lower s1) = (?k * f - 1) * (gap_at e t * 10 ^ j)"
      unfolding diff_mult_distrib by (simp add: s(5,6) num_at_def ac_simps)
    then have "(bvalue (numerator s1) - bvalue (lower s1)) * 10 ^ (length ds - 1) = low_at f e closer t * 10 ^ nat (t - x)"
      by (simp add: x(2) low_at_def num_at_def power_add ac_simps)
    then show ?thesis using within_sub [OF ds(5) le] within_at(2) [OF x(1)] unfolding s(4) low_at_def by metis
  qed
  ultimately show ?thesis using ds(2,3) by blast
qed


text \<open>0.3125, between 0.28125 and 0.34375.\<close>

lemma dragon_shortest_spec_witness:
  "\<exists>ds x. format_dragon 5 (-4) False True False (-1) (-1) = Some (Inr (ds, x)) \<and> ds \<noteq> [] \<and> (\<forall>d \<in> set ds. d \<le> 9) \<and>
    within (even_flag 5) (low_at 5 (-4) False x) (digits_number ds * scale_at (-4) False x) \<and>
    within (even_flag 5) (digits_number ds * scale_at (-4) False x) (high_at 5 (-4) False x)"
  by (rule dragon_shortest_spec)
    (simp_all add: in_range_def regular_def within_def even_flag_def high_at_def scale_at_def num_at_def den_at_def gap_at_def dragon_shift_def)

end
