(* ===== verification/Spec2Isabelle.thy ===== *)
theory Spec2Isabelle
  imports Locked_Queue Producer_Consumer_Queue MPSC_Queue MPSC_Intrusive Thread_Pool Pool_Quick_Sort
    Iocp_Main Test_Iocp Process_Priority Fmt_Digits Fmt_Check
    Fmt_Buffer Fmt_Dragon
begin

text \<open>
  A model of the repository Self-Study, and what makes its parts correct.

  \<^bold>\<open>The program.\<close> The directory Self-Study holds exercises in concurrent C++: three queues
  (Threading/LockedQueue.h, Threading/ProducerConsumerQueue.h, Threading/MPSCQueue.h with an
  intrusive and a non-intrusive variant), a thread pool (ThreadPool.h) with a quick sort that
  runs on it (main.cpp), two servers on Windows I/O completion ports (IocpServerex.cpp and
  test_iocp.cpp), and Threading/ProcessPriority.cpp, which prints through the formatting
  library {fmt}. That library lies beside it (fmt/include/fmt); the development models its
  core, from a format string and its arguments to the text. The queues, the pool, the two
  servers and the library do not call each other; ProcessPriority.cpp calls the library, and
  its model calls the model of \<open>vformat_to\<close>.

  \<^bold>\<open>The theories and the code.\<close>

  \<^item> \<open>Prelude\<close>: \<open>outcome\<close> (a call returns, blocks or is undefined), the error monad on sums,
    the locale \<open>fifo_queue\<close> (the contract of a queue, and that any sequence of operations on
    it is first in, first out), and lemmas on words and lists.
  \<^item> \<open>Locked_Queue\<close>, \<open>Producer_Consumer_Queue\<close>, \<open>MPSC_Queue\<close>, \<open>MPSC_Intrusive\<close>: one queue
    each. The methods are functions on a record of the members; a mutex is a flag, heap nodes
    are a map from addresses. Threads are step relations whose rules are single critical
    sections, notifications or atomic accesses. All four interpret \<open>fifo_queue\<close> on their own
    definitions for one thread; the step relations carry the claims for many threads: order,
    no loss, no use of a freed node, no lost wake-up.
  \<^item> \<open>Thread_Pool\<close>: the members, the program counters of the workers, the commits in flight and
    \<open>stop\<close>, as a step relation; an invariant for the order of the tasks and the counter of
    idle workers, and the run in which \<open>stop\<close> waits for ever.
  \<^item> \<open>Pool_Quick_Sort\<close>: \<open>pool_thread_quick_sort\<close> of main.cpp, with \<open>std::partition\<close> as a
    parameter of which the standard's contract is assumed.
  \<^item> \<open>Iocp_State\<close>, \<open>Iocp_Context\<close>, \<open>Iocp_Worker\<close>, \<open>Iocp_Main\<close>: IocpServerex.cpp from its
    structures (IocpServer.h) up to \<open>main\<close>. Every function is a state transformer on \<open>srv\<close>, the
    globals with the heap of contexts; the answers of the system are a parameter by the number
    of the call, completions are a list of packets. The lemmas of \<open>Iocp_Context\<close> show what the
    list operations do to a well-formed list and where they break it, those of \<open>Iocp_Worker\<close>
    the echo and the life of a connection, those of \<open>Iocp_Main\<close> the command line, the release
    of everything at the end and the restarts.
  \<^item> \<open>Test_Iocp\<close>: test_iocp.cpp in the same style, with a step relation in which any request
    may complete at any time.
  \<^item> \<open>Process_Priority\<close>: \<open>SetProcessPriority\<close>, for Windows and for Linux.
  \<^item> \<open>Fmt_Types\<close>, \<open>Fmt_Parse\<close>, \<open>Fmt_Specs\<close>, \<open>Fmt_Format_String\<close>, \<open>Fmt_Text\<close>: the parser of
    base.h. A pointer pair is the list of the characters between; an error is the left of a
    sum with the message of \<open>report_error\<close>. \<open>Fmt_Specs\<close> has the state machine of
    \<open>parse_format_specs\<close> and its agreement with the documented grammar. The walk over a format
    string calls its handler through the locales \<open>format_handler\<close> and \<open>text_handler\<close>, which
    state what a handler owes the walk.
  \<^item> \<open>Fmt_Digits\<close>, \<open>Fmt_Unicode\<close>, \<open>Fmt_Printable\<close>, \<open>Fmt_Escape\<close>, \<open>Fmt_Write\<close>: the writers of
    format.h and format-inl.h for integers, text, characters and pointers, with padding,
    prefixes, digit grouping and the debug representation. What is appended to the output
    iterator is the result; an array read out of range or a failed \<open>FMT_ASSERT\<close> is \<open>Undefined\<close>.
  \<^item> \<open>Fmt_Args\<close>, \<open>Fmt_Format\<close>, \<open>Fmt_Safety\<close>: the type-erased arguments, \<open>vformat_to\<close> with its
    visitors and its handler (which interprets the two locales), and what cannot go wrong in
    it: the logic \<open>yields\<close> and the locale \<open>safe_handler\<close>, interpreted on the same handler.
  \<^item> \<open>Fmt_Check\<close>: the compile-time check of a format string, which is another handler of the
    same walk. The locale \<open>handler_pair\<close> compares two walks step by step; interpreted on the
    checker and on \<open>vformat_handler\<close> it gives what an accepted string promises.
  \<^item> \<open>Fmt_Buffer\<close>: the buffers behind \<open>vformat_to\<close>, with the arrays they write into. A derived class
    is a record that extends \<open>buffer\<close> and a function \<open>grow\<close>; the locale \<open>growable\<close> says what
    \<open>grow\<close> owes the base class, and is interpreted on all five of them. From it follow
    \<open>format_to_n\<close>, \<open>formatted_size\<close>, \<open>vformat\<close> and the formatting into a container, and, for memory
    buffers that are moved, that every block is given back once.
  \<^item> \<open>Fmt_Bigint\<close>, \<open>Fmt_Dragon\<close>: the large numbers of format.h as lists of bigits with the
    arithmetic of 32, 64 and 128 bits written out, refined to natural numbers by \<open>bvalue\<close>; and
    \<open>format_dragon\<close>, which prints \<open>f * 2 ^ e\<close> exactly, with the digits asked for or as many as
    it takes to read the number back.

  \<^bold>\<open>Numbers, loops and fuel.\<close> Fixed-width arithmetic that can wrap is on words; elsewhere a
  number is a natural or an integer with the bound of its type in the statement. Loops whose
  end is not structural are functions with a measure, \<open>partial_function (option)\<close> where the
  code may run for ever (\<open>PostAcceptEx\<close> of test_iocp.cpp, the quick sort, the walk over a
  format string, \<open>append\<close> of a buffer, the division of bigints), or take fuel. Claims about a partial
  function say that it returns. The fuels: the destructors of the two MPSC queues (one more
  than the number of queued items, proved enough), the pointer loops of IocpServerex.cpp
  (\<open>os_fuel\<close>; the claims ask for more than the number of contexts), and the separator loop of
  \<open>digit_grouping\<close> (\<open>env_fuel\<close>; the claims ask for the number of digits).

  \<^bold>\<open>Not modelled.\<close> Memory orders weaker than sequential consistency in MPSCQueue.h. The value a
  pool task computes and its future. Console messages. The
  shortest floating-point algorithm Dragonbox and \<open>format_float\<close>, which chooses between it and
  \<open>format_dragon\<close>, and formatters of user-defined types: they are parameters of the model of
  \<open>vformat_to\<close>. The choice of an argument type by overload resolution; wide characters. The move
  constructors of \<open>iterator_buffer\<close> and its variant for an array without bounds. The other
  headers of {fmt} (chrono.h, printf.h, color.h, ranges.h, std.h, args.h, compile.h, os.h,
  ostream.h, xchar.h), which the programs of the repository do not use. The demonstrations in
  main.cpp.
\<close>

end
